theory Spec2Isabelle
  imports Complex_Main "HOL-Library.Multiset"
begin

section \<open>Design model (data\_structures.hpp)\<close>

text \<open>
  The program computes on C++ \<open>double\<close>s.  A \<open>double\<close> is modelled by the real number it
  denotes.  \<open>std::numeric_limits<double>::max()\<close> is the real number \<open>DBL_MAX\<close> below.
\<close>

definition DBL_MAX :: real where
  "DBL_MAX = 2 ^ 1024 - 2 ^ 971"

text \<open>
  The result of an arithmetic operation on \<open>double\<close>s is the exact result rounded to the
  nearest \<open>double\<close>, ties to the even significand (\<open>fl\<close>): \<open>a + b\<close> of the program is
  \<open>fl (a + b)\<close> here, and likewise for \<open>-\<close>, \<open>*\<close>, \<open>/\<close> and \<open>sqrt\<close>; comparisons, \<open>std::floor\<close>,
  \<open>std::ceil\<close>, \<open>std::abs\<close> and the conversion of an \<open>int\<close> are exact.  Every operation is
  rounded on its own (no fused multiply-add, no extended precision).  The significand has
  53 bits; the exponent is not bounded, so overflow to infinity, subnormal numbers and NaN
  are outside the model.
\<close>

definition round_even :: "real \<Rightarrow> int" where
  "round_even r =
     (if r - of_int \<lfloor>r\<rfloor> < 1 / 2 then \<lfloor>r\<rfloor>
      else if 1 / 2 < r - of_int \<lfloor>r\<rfloor> then \<lfloor>r\<rfloor> + 1
      else if even \<lfloor>r\<rfloor> then \<lfloor>r\<rfloor> else \<lfloor>r\<rfloor> + 1)"

definition fl :: "real \<Rightarrow> real" where
  "fl r =
     (if r = 0 then 0
      else of_int (round_even (r * 2 powr (52 - of_int \<lfloor>log 2 \<bar>r\<bar>\<rfloor>)))
             * 2 powr (of_int \<lfloor>log 2 \<bar>r\<bar>\<rfloor> - 52))"

record Point =
  x :: real
  y :: real

datatype FlipFlopPinType =
    FF_DATA_INPUT | FF_DATA_OUTPUT | FF_DATA_OUTPUT_N | FF_CLOCK | FF_SCAN_INPUT
  | FF_SCAN_OUTPUT | FF_SCAN_ENABLE | FF_RESET | FF_SET | FF_RD | FF_SD | FF_SR | FF_RS
  | FF_VDDR | FF_OTHER | FF_NOT_FF_PIN

record Pin =
  pin_name :: string
  ff_pin_type :: FlipFlopPinType

datatype ClockEdge = RISING | FALLING | UNKNOWN_EDGE

datatype CellType = FLIP_FLOP | LOGIC_GATE | BUFFER | FILL_CELL | OTHER

record CellTemplate =
  ct_name :: string
  ct_width :: real
  ct_height :: real
  pins :: "Pin list"
  area :: real
  leakage_power :: real
  single_bit_degenerate :: string
  bit_width :: int
  clock_edge :: ClockEdge
  ct_type :: CellType

definition ct_is_flip_flop :: "CellTemplate \<Rightarrow> bool" where
  "ct_is_flip_flop c = (ct_type c = FLIP_FLOP)"

record ObjectiveWeights =
  alpha :: real
  beta :: real
  gamma :: real

datatype BankingType = FSDN | RISING_LSRDPQ | NONE

datatype Orientation = Orient_N | Orient_S | Orient_E | Orient_W
  | Orient_FN | Orient_FS | Orient_FE | Orient_FW

datatype PlacementStatus = UNPLACED | PLACED | FIXED

record Connection =
  conn_pin_name :: string
  net_name :: string

text \<open>
  \<open>cell_template\<close> is a \<open>shared_ptr\<close> into the (immutable) cell library; \<open>None\<close> is the
  null pointer.
\<close>

record Instance =
  name :: string
  cell_type :: string
  cell_template :: "CellTemplate option"
  inst_module_name :: string
  banking_type :: BankingType
  cluster_id :: string
  best_ff_from_substitution :: string
  best_ff_score :: real
  position :: Point
  orientation :: Orientation
  placement_status :: PlacementStatus
  connections :: "Connection list"
  x_new :: real
  y_new :: real
  weight :: int

definition is_flip_flop :: "Instance \<Rightarrow> bool" where
  "is_flip_flop inst =
     (case cell_template inst of None \<Rightarrow> False | Some c \<Rightarrow> ct_is_flip_flop c)"

definition get_bit_width :: "Instance \<Rightarrow> int" where
  "get_bit_width inst = (case cell_template inst of None \<Rightarrow> 1 | Some c \<Rightarrow> bit_width c)"

section \<open>Scoring (substitution.cpp, ff\_instance\_grouping.cpp, scan\_chain\_detection.cpp)\<close>

text \<open>
  \<open>TimingReprMap::get_timing_repr\<close> lives in \<open>timing_repr_hardcoded.hpp\<close>, which is not part
  of the sources at hand; the table is the parameter \<open>timing_repr\<close> of every function that
  consults it.  The cell library \<open>std::map<std::string, std::shared_ptr<CellTemplate>>\<close> is a
  map from names to templates.
\<close>

type_synonym CellLibrary = "string \<rightharpoonup> CellTemplate"

text \<open>
  \<open>calculate_ff_score\<close> of substitution.cpp.  The literal \<open>0.001\<close> is the double nearest to
  \<open>1/1000\<close>.
\<close>

definition calculate_ff_score ::
  "(string \<Rightarrow> real) \<Rightarrow> CellLibrary \<Rightarrow> ObjectiveWeights \<Rightarrow> string \<Rightarrow> real" where
  "calculate_ff_score timing_repr cell_library objective_weights cell_name =
     (case cell_library cell_name of
        None \<Rightarrow> DBL_MAX
      | Some cell \<Rightarrow>
          if \<not> ct_is_flip_flop cell then DBL_MAX
          else
            let power = leakage_power cell;
                area' = area cell;
                bit_width' = max 1 (bit_width cell);
                timing = timing_repr cell_name;
                delta = fl (alpha objective_weights * timing)
            in fl (fl (fl (fl (fl (beta objective_weights * power) * fl (1 / 1000))
                           + fl (gamma objective_weights * area'))
                       / real_of_int bit_width')
                   + delta))"

text \<open>
  The score computed inline in the innermost loop of
  \<open>calculate_optimal_ff_for_instance_groups\<close> for one cell name of a group whose key carries
  \<open>bit_width\<close>; \<open>None\<close> where the loop says \<open>continue\<close>.
\<close>

definition optimal_group_score ::
  "(string \<Rightarrow> real) \<Rightarrow> CellLibrary \<Rightarrow> ObjectiveWeights \<Rightarrow> int \<Rightarrow> string \<Rightarrow> real option" where
  "optimal_group_score timing_repr cell_library objective_weights bit_width' cell_name =
     (case cell_library cell_name of
        None \<Rightarrow> None
      | Some cell \<Rightarrow>
          if \<not> ct_is_flip_flop cell then None
          else
            let power = leakage_power cell;
                area' = area cell;
                effective_bit_width = (if bit_width' > 0 then bit_width' else 1);
                timing = timing_repr cell_name;
                delta = fl (fl (alpha objective_weights * timing) * 1000)
            in Some (fl (fl (fl (fl (fl (beta objective_weights * power) * fl (1 / 1000))
                                 + fl (gamma objective_weights * area'))
                             / real_of_int effective_bit_width)
                         + delta)))"

text \<open>
  The part the two scores share: \<open>(\<beta>\<cdot>P\<cdot>0.001 + \<gamma>\<cdot>A) / b\<close> as the program evaluates it.
\<close>

definition score_base :: "ObjectiveWeights \<Rightarrow> CellTemplate \<Rightarrow> real" where
  "score_base objective_weights cell =
     fl (fl (fl (fl (beta objective_weights * leakage_power cell) * fl (1 / 1000))
             + fl (gamma objective_weights * area cell))
         / real_of_int (max 1 (bit_width cell)))"

text \<open>
  The bit-width component of the group key under which the grouping pass of
  scan\_chain\_detection.cpp files a flip-flop cell
  (\<open>if (bit_width <= 0) bit_width = 1\<close>).
\<close>

definition group_bit_width :: "CellTemplate \<Rightarrow> int" where
  "group_bit_width cell = (if bit_width cell \<le> 0 then 1 else bit_width cell)"

section \<open>Spatial clustering (banking.cpp)\<close>

definition FSDN_2BIT_BANKING_distance :: real where
  "FSDN_2BIT_BANKING_distance = 10000"

definition FSDN_4BIT_BANKING_distance :: real where
  "FSDN_4BIT_BANKING_distance = 10000"

definition LSRDPQ_4BIT_BANKING_distance :: real where
  "LSRDPQ_4BIT_BANKING_distance = 10000"

definition manhattan_distance :: "Instance \<Rightarrow> Instance \<Rightarrow> real" where
  "manhattan_distance inst1 inst2 =
     (let dx = \<bar>fl (x (position inst1) - x (position inst2))\<bar>;
          dy = \<bar>fl (y (position inst1) - y (position inst2))\<bar>
      in fl (dx + dy))"

text \<open>The cast \<open>(size_t)target_cluster_size\<close> of an \<open>int\<close>, for a 64-bit \<open>size_t\<close>.\<close>

definition size_t_of_int :: "int \<Rightarrow> nat" where
  "size_t_of_int n = nat (n mod 2 ^ 64)"

text \<open>
  The inner loop of \<open>simple_distance_clustering\<close>: \<open>j\<close> runs over the indices that are
  left, \<open>first\<close> is \<open>instances[i]\<close>; the loop condition \<open>cluster.size() < target\<close> is tested
  before each \<open>j\<close>.
\<close>

fun grow_cluster ::
  "Instance list \<Rightarrow> Instance \<Rightarrow> nat \<Rightarrow> real \<Rightarrow> nat list \<Rightarrow> Instance list \<Rightarrow> bool list
     \<Rightarrow> Instance list \<times> bool list" where
  "grow_cluster instances first tgt thr [] cluster used = (cluster, used)"
| "grow_cluster instances first tgt thr (j # js) cluster used =
     (if \<not> length cluster < tgt then (cluster, used)
      else if used ! j then grow_cluster instances first tgt thr js cluster used
      else if manhattan_distance first (instances ! j) \<le> thr
        then grow_cluster instances first tgt thr js (cluster @ [instances ! j]) (used[j := True])
      else grow_cluster instances first tgt thr js cluster used)"

text \<open>The outer loop: \<open>i\<close> runs over the indices that are left.\<close>

fun cluster_loop ::
  "Instance list \<Rightarrow> nat \<Rightarrow> real \<Rightarrow> nat list \<Rightarrow> Instance list list \<Rightarrow> bool list
     \<Rightarrow> Instance list list" where
  "cluster_loop instances tgt thr [] clusters used = clusters"
| "cluster_loop instances tgt thr (i # is) clusters used =
     (if used ! i then cluster_loop instances tgt thr is clusters used
      else
        let (cluster, used') =
              grow_cluster instances (instances ! i) tgt thr [Suc i ..< length instances]
                [instances ! i] (used[i := True])
        in cluster_loop instances tgt thr is
             (if length cluster \<ge> tgt then clusters @ [cluster] else clusters) used')"

definition simple_distance_clustering ::
  "Instance list \<Rightarrow> int \<Rightarrow> real \<Rightarrow> Instance list list" where
  "simple_distance_clustering instances target_cluster_size max_distance_threshold =
     cluster_loop instances (size_t_of_int target_cluster_size) max_distance_threshold
       [0 ..< length instances] [] (replicate (length instances) False)"

text \<open>
  The clustering as the specification words it, for comparison: the candidates are sorted
  by \<open>position.x\<close>; the current cluster grows left to right and stops when it has the target
  size or when the next instance is farther than the threshold from the cluster's first
  instance; clusters of the target size are emitted and the sweep goes on with the next
  instance.
\<close>

fun spec_sweep :: "nat \<Rightarrow> real \<Rightarrow> Instance list \<Rightarrow> Instance list \<Rightarrow> Instance list list" where
  "spec_sweep tgt thr [] cluster = (if cluster \<noteq> [] \<and> length cluster = tgt then [cluster] else [])"
| "spec_sweep tgt thr (i # is) cluster =
     (if cluster = [] then spec_sweep tgt thr is [i]
      else if length cluster = tgt then cluster # spec_sweep tgt thr is [i]
      else if manhattan_distance (hd cluster) i \<le> thr then spec_sweep tgt thr is (cluster @ [i])
      else spec_sweep tgt thr is [i])"

definition spec_sweep_clustering :: "Instance list \<Rightarrow> int \<Rightarrow> real \<Rightarrow> Instance list list" where
  "spec_sweep_clustering instances target_cluster_size max_distance_threshold =
     spec_sweep (nat target_cluster_size) max_distance_threshold
       (sort_key (\<lambda>i. x (position i)) instances) []"

section \<open>Transformation tracking (data\_structures.hpp)\<close>

datatype Operation = KEEP | DEBANK | BANK | SUBSTITUTE | POST_SUBSTITUTE

text \<open>
  A transformation record.  \<open>cluster_id\<close> is \<open>rec_cluster_id\<close> here.  The fields \<open>pin_mapping\<close>,
  \<open>result_x\<close>, \<open>result_y\<close> and \<open>result_orientation\<close> are left out: the functions of this
  development never read them.
\<close>

record TransformationRecord =
  original_instance_name :: string
  result_instance_name :: string
  operation :: Operation
  original_cell_type :: string
  result_cell_type :: string
  stage :: string
  related_instances :: "string list"
  rec_cluster_id :: string

definition TransformationRecord_ctor ::
  "string \<Rightarrow> string \<Rightarrow> Operation \<Rightarrow> string \<Rightarrow> string \<Rightarrow> TransformationRecord" where
  "TransformationRecord_ctor orig_name result_name op orig_cell result_cell =
     \<lparr>original_instance_name = orig_name, result_instance_name = result_name, operation = op,
      original_cell_type = orig_cell, result_cell_type = result_cell, stage = '''',
      related_instances = [], rec_cluster_id = ''''\<rparr>"

text \<open>\<open>InstanceSnapshot\<close>, without \<open>orientation\<close> and \<open>pin_connections\<close>.\<close>

record InstanceSnapshot =
  instance_name :: string
  snap_cell_type :: string
  snap_x :: real
  snap_y :: real
  snap_cluster_id :: string
  original_name :: string
  last_operation :: Operation

definition from_instance :: "Instance \<Rightarrow> InstanceSnapshot" where
  "from_instance inst =
     \<lparr>instance_name = name inst,
      snap_cell_type = (case cell_template inst of Some c \<Rightarrow> ct_name c | None \<Rightarrow> cell_type inst),
      snap_x = x (position inst), snap_y = y (position inst), snap_cluster_id = '''',
      original_name = name inst, last_operation = KEEP\<rparr>"

record StagePipeline =
  stage_name :: string
  stage_instances :: "InstanceSnapshot list"
  transformation_indices :: "nat list"
  stage_total_instances :: nat
  stage_ff_instances :: nat

definition StagePipeline_ctor :: "string \<Rightarrow> StagePipeline" where
  "StagePipeline_ctor nm =
     \<lparr>stage_name = nm, stage_instances = [], transformation_indices = [], stage_total_instances = 0,
      stage_ff_instances = 0\<rparr>"

record CompletePipeline =
  stages :: "StagePipeline list"
  stage_index_map :: "string \<rightharpoonup> nat"

definition add_stage :: "string \<Rightarrow> CompletePipeline \<Rightarrow> CompletePipeline" where
  "add_stage nm pl =
     \<lparr>stages = stages pl @ [StagePipeline_ctor nm],
      stage_index_map = (stage_index_map pl)(nm \<mapsto> length (stages pl))\<rparr>"

definition CompletePipeline_ctor :: CompletePipeline where
  "CompletePipeline_ctor =
     add_stage ''LEGALIZE'' (add_stage ''POST_BANKING'' (add_stage ''BANK''
       (add_stage ''SUBSTITUTION'' (add_stage ''DEBANK'' (add_stage ''ORIGINAL''
          \<lparr>stages = [], stage_index_map = Map.empty\<rparr>)))))"

text \<open>\<open>get_stage\<close> returns a pointer into \<open>stages\<close>; here the stage it points to.\<close>

definition get_stage :: "CompletePipeline \<Rightarrow> string \<Rightarrow> StagePipeline option" where
  "get_stage pl nm = (case stage_index_map pl nm of None \<Rightarrow> None | Some i \<Rightarrow> Some (stages pl ! i))"

text \<open>
  The map \<open>instance_to_record\<close> of \<open>capture_stage\<close>: the latest record that names an
  instance as its original or its result.
\<close>

definition instance_to_record ::
  "TransformationRecord list \<Rightarrow> (string \<rightharpoonup> TransformationRecord)" where
  "instance_to_record history =
     fold (\<lambda>r m. m(original_instance_name r \<mapsto> r, result_instance_name r \<mapsto> r)) history Map.empty"

definition snapshot_of :: "(string \<rightharpoonup> TransformationRecord) \<Rightarrow> Instance \<Rightarrow> InstanceSnapshot" where
  "snapshot_of m inst =
     (case m (name inst) of
        None \<Rightarrow> from_instance inst
      | Some r \<Rightarrow> (from_instance inst)\<lparr>snap_cluster_id := rec_cluster_id r,
                     last_operation := operation r,
                     original_name := original_instance_name r\<rparr>)"

text \<open>
  \<open>capture_stage\<close>; \<open>all_instances\<close> are the instances behind the pointers passed by the
  caller, \<open>None\<close> for \<open>transformation_history\<close> is the null pointer.  An unknown stage name
  leaves the pipeline as it is (the source prints a warning).
\<close>

definition capture_stage ::
  "string \<Rightarrow> Instance list \<Rightarrow> nat list \<Rightarrow> TransformationRecord list option
     \<Rightarrow> CompletePipeline \<Rightarrow> CompletePipeline" where
  "capture_stage nm all_instances new_transformation_indices history pl =
     (case stage_index_map pl nm of
        None \<Rightarrow> pl
      | Some i \<Rightarrow>
          let m = (case history of None \<Rightarrow> Map.empty | Some h \<Rightarrow> instance_to_record h);
              ffs = filter is_flip_flop all_instances;
              st = (stages pl ! i)\<lparr>stage_instances := map (snapshot_of m) ffs,
                     transformation_indices := new_transformation_indices,
                     stage_total_instances := length ffs,
                     stage_ff_instances := length ffs\<rparr>
          in pl\<lparr>stages := (stages pl)[i := st]\<rparr>)"

section \<open>Layout and legalizer (data\_structures.hpp, Legalization.cpp)\<close>

record Rectangle =
  x1 :: real
  y1 :: real
  x2 :: real
  y2 :: real

text \<open>
  A cluster holds \<open>Instance*\<close> pointers; the pointers are modelled by the instance names,
  which are the keys of \<open>db.instances\<close>.  The \<open>leftCluster\<close> pointer is modelled by the
  position in a list: the field \<open>clusters\<close> of a sub-row is \<open>lastCluster\<close> followed by its
  chain of \<open>leftCluster\<close>s, and \<open>[]\<close> is \<open>lastCluster == nullptr\<close>.
\<close>

record Cluster =
  cl_x :: real
  cl_width :: real
  cl_weight :: real
  q :: real
  cellInCluster :: "string list"

record SubRow =
  x_min :: real
  x_max :: real
  Usewidth :: real
  clusters :: "Cluster list"

definition SubRow_ctor :: "real \<Rightarrow> real \<Rightarrow> SubRow" where
  "SubRow_ctor xmin xmax =
     \<lparr>x_min = xmin, x_max = xmax, Usewidth = fl (xmax - xmin), clusters = []\<rparr>"

record PlacementRow =
  origin :: Point
  num_x :: int
  step_x :: real
  step_y :: real
  height :: real
  site_width :: real
  row_id :: int
  subrows :: "SubRow list"

text \<open>
  The fields of \<open>DesignDatabase\<close> that the functions of this development read or write.
  \<open>db.instances\<close> is an \<open>unordered_map\<close>; the order in which a loop enumerates it is not
  determined by the program and is a parameter (\<open>keys\<close>) of the functions that enumerate it.
  The \<open>std::map\<close>s \<open>hierarchical_ff_groups\<close> and \<open>ff_instance_groups\<close> are enumerated in
  the order of their keys and are given as association lists in that order; the instance
  pointers of \<open>ff_instance_groups\<close> are instance names.
\<close>

record DesignDatabase =
  instances :: "string \<rightharpoonup> Instance"
  placement_rows :: "PlacementRow list"
  placement_blockages :: "Rectangle list"
  cell_library :: CellLibrary
  objective_weights :: ObjectiveWeights
  hierarchical_ff_groups :: "(string \<times> (string \<times> (int \<times> string list) list) list) list"
  ff_instance_groups :: "(string \<times> string list) list"
  optimal_ff_for_groups :: "string \<rightharpoonup> string"
  transformation_history :: "TransformationRecord list"
  complete_pipeline :: CompletePipeline

text \<open>The default-constructed database (\<open>DesignDatabase db;\<close> in \<open>main\<close>).\<close>

definition DesignDatabase_ctor :: DesignDatabase where
  "DesignDatabase_ctor =
     \<lparr>instances = Map.empty, placement_rows = [], placement_blockages = [],
      cell_library = Map.empty, objective_weights = \<lparr>alpha = 0, beta = 0, gamma = 0\<rparr>,
      hierarchical_ff_groups = [], ff_instance_groups = [], optimal_ff_for_groups = Map.empty,
      transformation_history = [], complete_pipeline = CompletePipeline_ctor\<rparr>"

text \<open>
  The legalizer object: \<open>max_disp_\<close> (\<open>lg_max_disp\<close>), the database behind \<open>db_\<close> (\<open>lg_db\<close>), and the warning lines it
  has written to the console.
\<close>

record Legalizer =
  lg_max_disp :: real
  lg_db :: DesignDatabase
  warnings :: "string list"

definition get_width :: "Instance \<Rightarrow> real" where
  "get_width inst = (case cell_template inst of None \<Rightarrow> 0 | Some c \<Rightarrow> ct_width c)"

definition get_height :: "Instance \<Rightarrow> real" where
  "get_height inst = (case cell_template inst of None \<Rightarrow> 0 | Some c \<Rightarrow> ct_height c)"

subsection \<open>Constructor\<close>

definition init_row :: "int \<Rightarrow> PlacementRow \<Rightarrow> PlacementRow" where
  "init_row i r =
     (let r1 = r\<lparr>row_id := i\<rparr>;
          r2 = (if height r1 = 0 then r1\<lparr>height := step_y r1\<rparr> else r1);
          r3 = (if site_width r2 = 0 then r2\<lparr>site_width := step_x r2\<rparr> else r2)
      in if subrows r3 = []
         then r3\<lparr>subrows := [SubRow_ctor (x (origin r3))
                 (fl (x (origin r3) + fl (step_x r3 * real_of_int (num_x r3))))]\<rparr>
         else r3)"

definition Legalizer_ctor :: "real \<Rightarrow> DesignDatabase \<Rightarrow> Legalizer" where
  "Legalizer_ctor max_disp db =
     \<lparr>lg_max_disp = max_disp,
      lg_db = db\<lparr>placement_rows :=
              map (\<lambda>(i, r). init_row (int i) r) (enumerate 0 (placement_rows db))\<rparr>,
      warnings = []\<rparr>"

subsection \<open>classify\_instances\<close>

definition set_new_to_position :: "Instance \<Rightarrow> Instance" where
  "set_new_to_position inst = inst\<lparr>x_new := x (position inst), y_new := y (position inst)\<rparr>"

fun classify_loop ::
  "string list \<Rightarrow> (string \<rightharpoonup> Instance) \<Rightarrow> string list \<Rightarrow> string list
     \<Rightarrow> string list \<times> string list \<times> (string \<rightharpoonup> Instance)" where
  "classify_loop [] insts ff blk = (ff, blk, insts)"
| "classify_loop (k # ks) insts ff blk =
     (case insts k of
        None \<Rightarrow> classify_loop ks insts ff blk
      | Some inst \<Rightarrow>
          if is_flip_flop inst then classify_loop ks insts (ff @ [k]) blk
          else classify_loop ks (insts(k \<mapsto> set_new_to_position inst)) ff (blk @ [k]))"

definition classify_instances ::
  "string list \<Rightarrow> DesignDatabase \<Rightarrow> string list \<times> string list \<times> DesignDatabase" where
  "classify_instances keys db =
     (let (ff, blk, insts) = classify_loop keys (instances db) [] []
      in (ff, blk, db\<lparr>instances := insts\<rparr>))"

subsection \<open>buildSubRows\<close>

text \<open>The literal \<open>1e-6\<close> is the double nearest to \<open>10\<^sup>-\<^sup>6\<close>.\<close>

definition eps :: real where
  "eps = fl (1 / 10 ^ 6)"

definition snap_front :: "PlacementRow \<Rightarrow> real \<Rightarrow> real" where
  "snap_front row MINx =
     fl (x (origin row)
         + fl (of_int \<lfloor>fl (fl (fl (MINx - x (origin row)) / site_width row) + eps)\<rfloor>
               * site_width row))"

definition snap_back :: "PlacementRow \<Rightarrow> real \<Rightarrow> real" where
  "snap_back row MAXx =
     fl (x (origin row)
         + fl (of_int \<lceil>fl (fl (fl (MAXx - x (origin row)) / site_width row) - eps)\<rceil>
               * site_width row))"

text \<open>
  The loop over the slices of one row.  The four cases of the source are exhaustive, so
  the last one is the final \<open>else\<close>.
\<close>

fun carve :: "real \<Rightarrow> real \<Rightarrow> SubRow list \<Rightarrow> SubRow list" where
  "carve front back [] = []"
| "carve front back (slice # sr) =
     (if x_max slice \<le> front \<or> back \<le> x_min slice then slice # carve front back sr
      else if front \<le> x_min slice \<and> back \<ge> x_max slice then carve front back sr
      else if front \<le> x_min slice \<and> back < x_max slice
        then slice\<lparr>x_min := back, Usewidth := fl (x_max slice - back)\<rparr> # carve front back sr
      else if front > x_min slice \<and> back \<ge> x_max slice
        then slice\<lparr>x_max := front, Usewidth := fl (front - x_min slice)\<rparr> # carve front back sr
      else SubRow_ctor (x_min slice) front # SubRow_ctor back (x_max slice)
             # carve front back sr)"

definition carve_row :: "real \<Rightarrow> real \<Rightarrow> real \<Rightarrow> real \<Rightarrow> PlacementRow \<Rightarrow> PlacementRow" where
  "carve_row MINx MAXx MINy MAXy row =
     (if \<not> (fl (y (origin row) + height row) > MINy \<and> y (origin row) < MAXy) then row
      else row\<lparr>subrows := carve (snap_front row MINx) (snap_back row MAXx) (subrows row)\<rparr>)"

definition carve_instance :: "(string \<rightharpoonup> Instance) \<Rightarrow> string \<Rightarrow> PlacementRow list \<Rightarrow> PlacementRow list" where
  "carve_instance insts k rows =
     (case insts k of
        None \<Rightarrow> rows
      | Some blk \<Rightarrow>
          (case cell_template blk of
             None \<Rightarrow> rows
           | Some ct \<Rightarrow>
               map (carve_row (x (position blk)) (fl (x (position blk) + ct_width ct))
                      (y (position blk)) (fl (y (position blk) + get_height blk))) rows))"

definition carve_rectangle :: "Rectangle \<Rightarrow> PlacementRow list \<Rightarrow> PlacementRow list" where
  "carve_rectangle rect rows = map (carve_row (x1 rect) (x2 rect) (y1 rect) (y2 rect)) rows"

definition position_x_of :: "(string \<rightharpoonup> Instance) \<Rightarrow> string \<Rightarrow> real" where
  "position_x_of insts k = (case insts k of None \<Rightarrow> 0 | Some i \<Rightarrow> x (position i))"

text \<open>\<open>std::sort\<close> by \<open>position.x\<close> is modelled by the (stable) \<open>sort_key\<close>.\<close>

definition buildSubRows :: "string list \<Rightarrow> DesignDatabase \<Rightarrow> DesignDatabase" where
  "buildSubRows blockage_instances db =
     (let sorted_blk = sort_key (position_x_of (instances db)) blockage_instances;
          rows1 = fold (carve_instance (instances db)) sorted_blk (placement_rows db);
          rows2 = fold carve_rectangle (placement_blockages db) rows1
      in db\<lparr>placement_rows := rows2\<rparr>)"

subsection \<open>findBestRow, findSubrowpos\<close>

text \<open>\<open>best\<close> starts at \<open>infinity()\<close>, which is \<open>None\<close> here.\<close>

fun findBestRow_loop :: "PlacementRow list \<Rightarrow> real \<Rightarrow> nat \<Rightarrow> real option \<Rightarrow> int \<Rightarrow> int" where
  "findBestRow_loop [] py i best br = br"
| "findBestRow_loop (r # rs) py i best br =
     (let dy = \<bar>fl (py - y (origin r))\<bar>
      in if (case best of None \<Rightarrow> True | Some b \<Rightarrow> dy < b)
         then findBestRow_loop rs py (Suc i) (Some dy) (int i)
         else findBestRow_loop rs py (Suc i) best br)"

definition findBestRow :: "DesignDatabase \<Rightarrow> Instance \<Rightarrow> int" where
  "findBestRow db inst = findBestRow_loop (placement_rows db) (y (position inst)) 0 None (- 1)"

fun findSubrowpos_loop :: "real \<Rightarrow> real \<Rightarrow> SubRow list \<Rightarrow> nat \<Rightarrow> int \<Rightarrow> real \<Rightarrow> int" where
  "findSubrowpos_loop w px [] idx subRow minDisplacement = subRow"
| "findSubrowpos_loop w px (s # ss) idx subRow minDisplacement =
     (if w > Usewidth s then findSubrowpos_loop w px ss (Suc idx) subRow minDisplacement
      else
        let move = (if px < x_min s then fl (x_min s - px)
                    else if fl (px + w) > x_max s then fl (fl (px + w) - x_max s)
                    else 0)
        in if minDisplacement > move then findSubrowpos_loop w px ss (Suc idx) (int idx) move
           else subRow)"

definition findSubrowpos :: "Instance \<Rightarrow> PlacementRow \<Rightarrow> int" where
  "findSubrowpos inst row =
     (case cell_template inst of
        None \<Rightarrow> - 1
      | Some ct \<Rightarrow> findSubrowpos_loop (ct_width ct) (x (position inst)) (subrows row) 0 (- 1) DBL_MAX)"

subsection \<open>Cluster operations\<close>

text \<open>The expression \<open>std::ceil(width / site_width) * site_width\<close> of \<open>placeRow\<close> and \<open>place\<close>.\<close>

definition placedCellWidth :: "real \<Rightarrow> real \<Rightarrow> real" where
  "placedCellWidth sw w = fl (of_int \<lceil>fl (w / sw)\<rceil> * sw)"


definition AddCell :: "Cluster \<Rightarrow> string \<Rightarrow> Instance \<Rightarrow> real \<Rightarrow> real \<Rightarrow> Cluster" where
  "AddCell cluster nm inst tempXpos placeCellwidth =
     cluster\<lparr>cellInCluster := cellInCluster cluster @ [nm],
             cl_weight := fl (cl_weight cluster + real_of_int (weight inst)),
             q := fl (q cluster
                      + fl (real_of_int (weight inst) * fl (tempXpos - cl_width cluster))),
             cl_width := fl (cl_width cluster + placeCellwidth)\<rparr>"

definition AddCluster :: "Cluster \<Rightarrow> Cluster \<Rightarrow> Cluster" where
  "AddCluster pred current =
     (let oldWidth = cl_width pred
      in pred\<lparr>cellInCluster := cellInCluster pred @ cellInCluster current,
              cl_weight := fl (cl_weight pred + cl_weight current),
              q := fl (q pred + fl (q current - fl (cl_weight current * oldWidth))),
              cl_width := fl (cl_width pred + cl_width current)\<rparr>)"

text \<open>
  \<open>Collapse\<close> on the chain \<open>cluster # lefts\<close>.  The assignment \<open>cluster = *pred\<close> copies the
  merged predecessor, with its own \<open>leftCluster\<close>, over the last cluster; the result is
  the new chain of \<open>sr.lastCluster\<close>.  \<open>collapse_x\<close> is the position the loop body computes.
\<close>

definition collapse_x :: "Cluster \<Rightarrow> real \<Rightarrow> real \<Rightarrow> real \<Rightarrow> real \<Rightarrow> real" where
  "collapse_x cluster xmin xmax sr_x_min sitew =
     (let x_a = fl (q cluster / cl_weight cluster);
          x_b = fl (fl (of_int \<lfloor>fl (fl (x_a - sr_x_min) / sitew)\<rfloor> * sitew) + sr_x_min);
          x_c = (if x_b < xmin then xmin else x_b)
      in if fl (x_c + cl_width cluster) > xmax then fl (xmax - cl_width cluster) else x_c)"

fun Collapse :: "Cluster \<Rightarrow> Cluster list \<Rightarrow> real \<Rightarrow> real \<Rightarrow> real \<Rightarrow> real \<Rightarrow> Cluster list" where
  "Collapse cluster [] xmin xmax sr_x_min sitew =
     [cluster\<lparr>cl_x := collapse_x cluster xmin xmax sr_x_min sitew\<rparr>]"
| "Collapse cluster (pred # lefts) xmin xmax sr_x_min sitew =
     (let cluster' = cluster\<lparr>cl_x := collapse_x cluster xmin xmax sr_x_min sitew\<rparr>
      in if fl (cl_x pred + cl_width pred) > cl_x cluster'
         then Collapse (AddCluster pred cluster') lefts xmin xmax sr_x_min sitew
         else cluster' # pred # lefts)"

subsection \<open>placeRow\<close>

text \<open>The nominal position \<open>tempXpos\<close>, computed alike in both branches of \<open>placeRow\<close>.\<close>

definition nominal_x :: "real \<Rightarrow> real \<Rightarrow> SubRow \<Rightarrow> real \<Rightarrow> real" where
  "nominal_x px w sr sitew =
     (if px \<le> x_min sr then x_min sr
      else if fl (px + w) \<ge> x_max sr
        then fl (fl (of_int \<lfloor>fl (fl (fl (x_max sr - w) - x_min sr) / sitew)\<rfloor> * sitew)
                 + x_min sr)
      else fl (fl (of_int \<lfloor>fl (fl (px - x_min sr) / sitew)\<rfloor> * sitew) + x_min sr))"

text \<open>
  The simulated merge chain of the trial: returns the final \<open>Tempx\<close>, \<open>TempWidth\<close> and the
  vector \<open>checkmaxdis\<close>; \<open>trial_x\<close> is the \<open>Tempx\<close> the loop body computes.
\<close>

definition trial_x :: "real \<Rightarrow> real \<Rightarrow> real \<Rightarrow> real \<Rightarrow> real \<Rightarrow> real \<Rightarrow> real" where
  "trial_x xmin xmax sitew TempQ TempWeight TempWidth =
     (let t_a = fl (TempQ / TempWeight);
          t_b = fl (xmin + fl (of_int \<lfloor>fl (fl (t_a - xmin) / sitew)\<rfloor> * sitew));
          t_c = (if t_b < xmin then xmin else t_b)
      in if fl (t_c + TempWidth) > xmax then fl (xmax - TempWidth) else t_c)"

fun trial_chain ::
  "real \<Rightarrow> real \<Rightarrow> real \<Rightarrow> real \<Rightarrow> real \<Rightarrow> real \<Rightarrow> Cluster \<Rightarrow> Cluster list \<Rightarrow> Cluster list
     \<Rightarrow> real \<times> real \<times> Cluster list" where
  "trial_chain xmin xmax sitew TempQ TempWeight TempWidth current [] checkmaxdis =
     (trial_x xmin xmax sitew TempQ TempWeight TempWidth, TempWidth, checkmaxdis @ [current])"
| "trial_chain xmin xmax sitew TempQ TempWeight TempWidth current (pred # lefts) checkmaxdis =
     (let Tempx = trial_x xmin xmax sitew TempQ TempWeight TempWidth
      in if fl (cl_x pred + cl_width pred) > Tempx
         then trial_chain xmin xmax sitew
                (fl (TempQ + fl (q pred - fl (TempWeight * cl_width pred))))
                (fl (TempWeight + cl_weight pred)) (fl (TempWidth + cl_width pred)) pred lefts
                (checkmaxdis @ [current])
         else (Tempx, TempWidth, checkmaxdis @ [current]))"

text \<open>
  The displacement check over the cells of the clusters in \<open>checkmaxdis\<close>; \<open>True\<close> where the
  source returns \<open>max()\<close>.  A cell pointer always points to an instance of the table.
\<close>

fun check_cells ::
  "real \<Rightarrow> (string \<rightharpoonup> Instance) \<Rightarrow> real \<Rightarrow> real \<Rightarrow> string list \<Rightarrow> real \<Rightarrow> bool \<times> real" where
  "check_cells max_disp insts oy sitew [] Tempx = (False, Tempx)"
| "check_cells max_disp insts oy sitew (cp # cps) Tempx =
     (case insts cp of
        None \<Rightarrow> check_cells max_disp insts oy sitew cps Tempx
      | Some c \<Rightarrow>
          let displacement =
                fl (sqrt (fl (fl (fl (x (position c) - Tempx) * fl (x (position c) - Tempx))
                              + fl (fl (y (position c) - oy) * fl (y (position c) - oy)))))
          in if displacement > max_disp then (True, Tempx)
             else check_cells max_disp insts oy sitew cps
                    (fl (Tempx + placedCellWidth sitew (get_width c))))"

fun check_clusters ::
  "real \<Rightarrow> (string \<rightharpoonup> Instance) \<Rightarrow> real \<Rightarrow> real \<Rightarrow> Cluster list \<Rightarrow> real \<Rightarrow> bool" where
  "check_clusters max_disp insts oy sitew [] Tempx = False"
| "check_clusters max_disp insts oy sitew (c # cs) Tempx =
     (case check_cells max_disp insts oy sitew (cellInCluster c) Tempx of
        (True, _) \<Rightarrow> True
      | (False, Tempx') \<Rightarrow> check_clusters max_disp insts oy sitew cs Tempx')"

text \<open>
  \<open>placeRow\<close> returns the cost, the instance (whose \<open>x_new\<close>, \<open>y_new\<close> it may have written)
  and the sub-row (which it changes when \<open>final\<close>).
\<close>

definition placeRow ::
  "real \<Rightarrow> (string \<rightharpoonup> Instance) \<Rightarrow> PlacementRow \<Rightarrow> string \<Rightarrow> Instance \<Rightarrow> SubRow \<Rightarrow> bool \<Rightarrow> bool
     \<Rightarrow> real \<times> Instance \<times> SubRow" where
  "placeRow max_disp insts row nm inst sr final check =
     (case cell_template inst of
        None \<Rightarrow> (DBL_MAX, inst, sr)
      | Some ct \<Rightarrow>
          let placeCellwidth = placedCellWidth (site_width row) (ct_width ct);
              tempXpos = nominal_x (x (position inst)) (ct_width ct) sr (site_width row);
              fresh = (case clusters sr of [] \<Rightarrow> True
                       | lastC # _ \<Rightarrow> fl (cl_x lastC + cl_width lastC) \<le> tempXpos);
              finish = (\<lambda>inst' sr'.
                 let dis = fl (sqrt (fl (
                       fl (fl (x (position inst') - x_new inst') * fl (x (position inst') - x_new inst'))
                       + fl (fl (y (position inst') - y (origin row))
                             * fl (y (position inst') - y (origin row))))))
                 in if check \<and> dis > max_disp then (DBL_MAX, inst', sr') else (dis, inst', sr'))
          in
          if final then
            let sr1 = sr\<lparr>Usewidth := fl (Usewidth sr - placeCellwidth)\<rparr>
            in if fresh then
                 let cur = \<lparr>cl_x = tempXpos, cl_width = 0, cl_weight = 0, q = 0, cellInCluster = []\<rparr>;
                     inst1 = inst\<lparr>x_new := tempXpos, y_new := y (origin row)\<rparr>
                 in finish inst1
                      (sr1\<lparr>clusters := AddCell cur nm inst1 tempXpos placeCellwidth # clusters sr1\<rparr>)
               else
                 (case clusters sr1 of
                    [] \<Rightarrow> finish inst sr1
                  | lastC # lefts \<Rightarrow>
                      finish inst
                        (sr1\<lparr>clusters := Collapse (AddCell lastC nm inst tempXpos placeCellwidth) lefts
                                 (x_min sr1) (x_max sr1) (x_min sr1) (site_width row)\<rparr>))
          else
            if fresh then finish (inst\<lparr>x_new := tempXpos, y_new := y (origin row)\<rparr>) sr
            else
              (case clusters sr of
                 [] \<Rightarrow> finish inst sr
               | lastC # lefts \<Rightarrow>
                   let TempWeight = fl (cl_weight lastC + real_of_int (weight inst));
                       TempQ = fl (q lastC
                                   + fl (real_of_int (weight inst) * fl (tempXpos - cl_width lastC)));
                       TempWidth = fl (cl_width lastC + placeCellwidth);
                       (Tempx, TempWidth', checkmaxdis) =
                          trial_chain (x_min sr) (x_max sr) (site_width row) TempQ TempWeight
                            TempWidth lastC lefts [];
                       inst1 = inst\<lparr>x_new := fl (fl (Tempx + TempWidth') - placeCellwidth),
                                    y_new := y (origin row)\<rparr>
                   in if check \<and> check_clusters max_disp insts (y (origin row)) (site_width row)
                                   checkmaxdis Tempx
                      then (DBL_MAX, inst1, sr)
                      else finish inst1 sr))"

subsection \<open>Abacus\<close>

text \<open>
  Writing through the references \<open>*instance\<close> and
  \<open>db_->placement_rows[r].subrows[s]\<close>.
\<close>

definition put_instance :: "string \<Rightarrow> Instance \<Rightarrow> DesignDatabase \<Rightarrow> DesignDatabase" where
  "put_instance nm inst db = instances_update (\<lambda>m. m(nm \<mapsto> inst)) db"

definition put_subrow :: "nat \<Rightarrow> nat \<Rightarrow> SubRow \<Rightarrow> DesignDatabase \<Rightarrow> DesignDatabase" where
  "put_subrow r s sr db =
     placement_rows_update
       (\<lambda>rows. list_update rows r
          (subrows_update (\<lambda>srs. list_update srs s sr) (rows ! r))) db"

definition add_warning :: "string \<Rightarrow> Legalizer \<Rightarrow> Legalizer" where
  "add_warning line lg = warnings_update (\<lambda>ws. ws @ [line]) lg"

text \<open>The running best of the row search: \<open>Cbest\<close>, \<open>bestRowIdx\<close>, \<open>bestSubRowIdx\<close>.\<close>

type_synonym best = "real \<times> int \<times> int"

text \<open>One trial (\<open>if (up) {...}\<close>, \<open>if (down) {...}\<close>) on the row with index \<open>rowidx\<close>.\<close>

definition try_row :: "real \<Rightarrow> string \<Rightarrow> nat \<Rightarrow> DesignDatabase \<times> best \<Rightarrow> DesignDatabase \<times> best" where
  "try_row max_disp nm rowidx st =
     (case st of (db, Cbest, bestRowIdx, bestSubRowIdx) \<Rightarrow>
        (case instances db nm of
           None \<Rightarrow> st
         | Some inst \<Rightarrow>
             let row = placement_rows db ! rowidx;
                 subRowidx = findSubrowpos inst row
             in if subRowidx \<noteq> - 1 then
                  (case placeRow max_disp (instances db) row nm inst
                          (subrows row ! nat subRowidx) False True of
                     (cost, inst', sr') \<Rightarrow>
                       if cost < Cbest then (put_instance nm inst' db, cost, int rowidx, subRowidx)
                       else (put_instance nm inst' db, Cbest, bestRowIdx, bestSubRowIdx))
                else st))"

text \<open>The search loop over \<open>i\<close>; \<open>up\<close> and \<open>down\<close> are both decided before the trials.\<close>

definition row_y :: "DesignDatabase \<Rightarrow> int \<Rightarrow> real" where
  "row_y db rowidx = y (origin (placement_rows db ! nat rowidx))"

primrec search_rows ::
  "real \<Rightarrow> string \<Rightarrow> real \<Rightarrow> int \<Rightarrow> nat list \<Rightarrow> DesignDatabase \<times> best \<Rightarrow> DesignDatabase \<times> best" where
  "search_rows max_disp nm py originRowIdx [] st = st"
| "search_rows max_disp nm py originRowIdx (i # is) st =
     (let db = fst st;
          Cbest = fst (snd st);
          rowidx1 = originRowIdx + int i;
          rowidx2 = originRowIdx - int i;
          up = (if rowidx1 \<ge> int (length (placement_rows db)) then False
                else \<bar>fl (py - row_y db rowidx1)\<bar> < Cbest);
          down = (if rowidx2 < 0 then False
                  else \<bar>fl (py - row_y db rowidx2)\<bar> < Cbest)
      in if \<not> up \<and> \<not> down then st
         else
           let st1 = (if up then try_row max_disp nm (nat rowidx1) st else st);
               st2 = (if down then try_row max_disp nm (nat rowidx2) st1 else st1)
           in search_rows max_disp nm py originRowIdx is st2)"

text \<open>The commit after the search (\<open>if (bestRowIdx != -1 && bestSubRowIdx != -1) ... else ...\<close>).\<close>

definition commit_instance :: "string \<Rightarrow> Legalizer \<Rightarrow> DesignDatabase \<times> best \<Rightarrow> Legalizer" where
  "commit_instance nm lg st =
     (case st of (db1, Cbest, bestRowIdx, bestSubRowIdx) \<Rightarrow>
        (case instances db1 nm of
           None \<Rightarrow> lg_db_update (\<lambda>_. db1) lg
         | Some inst1 \<Rightarrow>
             if bestRowIdx \<noteq> - 1 \<and> bestSubRowIdx \<noteq> - 1 then
               (let row = placement_rows db1 ! nat bestRowIdx
                in case placeRow (lg_max_disp lg) (instances db1) row nm inst1
                          (subrows row ! nat bestSubRowIdx) True True of
                     (finalcost, inst2, sr') \<Rightarrow>
                       lg_db_update (\<lambda>_.
                         put_instance nm (placement_status_update (\<lambda>_. PLACED) inst2)
                           (put_subrow (nat bestRowIdx) (nat bestSubRowIdx) sr' db1)) lg)
             else
               add_warning (''  Warning: Could not place instance '' @ nm)
                 (lg_db_update (\<lambda>_. put_instance nm (set_new_to_position inst1) db1) lg)))"

text \<open>The body of the loop of Step 4 for the instance named \<open>nm\<close>.\<close>

definition Abacus_instance :: "string \<Rightarrow> Legalizer \<Rightarrow> Legalizer" where
  "Abacus_instance nm lg =
     (case instances (lg_db lg) nm of
        None \<Rightarrow> lg
      | Some inst \<Rightarrow>
          let originRowIdx = findBestRow (lg_db lg) inst
          in if originRowIdx = - 1
             then add_warning (''WARN: instance '' @ nm @ '' cannot fit any [row]; skipping.'') lg
             else commit_instance nm lg
                    (search_rows (lg_max_disp lg) nm (y (position inst)) originRowIdx
                       [0 ..< length (placement_rows (lg_db lg))]
                       (lg_db lg, DBL_MAX, - 1, - 1)))"

text \<open>
  \<open>Abacus\<close>: classification, sub-rows, the sort by \<open>position.x\<close> (\<open>std::sort\<close>, modelled by
  the stable \<open>sort_key\<close>) and the loop of Step 4.  \<open>keys\<close> is the order in which
  \<open>db.instances\<close> is enumerated.
\<close>

definition Abacus :: "string list \<Rightarrow> Legalizer \<Rightarrow> Legalizer" where
  "Abacus keys lg =
     (case classify_instances keys (lg_db lg) of
        (ff_instances, blockage_instances, db1) \<Rightarrow>
          let db2 = buildSubRows blockage_instances db1;
              sorted_ff = sort_key (position_x_of (instances db2)) ff_instances
          in fold Abacus_instance sorted_ff (lg_db_update (\<lambda>_. db2) lg))"

subsection \<open>place\<close>

fun place_cells ::
  "real \<Rightarrow> real \<Rightarrow> string list \<Rightarrow> real \<Rightarrow> (string \<rightharpoonup> Instance) \<Rightarrow> (string \<rightharpoonup> Instance)" where
  "place_cells sitew oy [] xx insts = insts"
| "place_cells sitew oy (nm # nms) xx insts =
     (case insts nm of
        None \<Rightarrow> place_cells sitew oy nms xx insts
      | Some inst \<Rightarrow>
          place_cells sitew oy nms (fl (xx + placedCellWidth sitew (get_width inst)))
            (insts(nm \<mapsto> inst\<lparr>x_new := xx, y_new := oy\<rparr>)))"

definition place_cluster ::
  "PlacementRow \<Rightarrow> SubRow \<Rightarrow> Cluster \<Rightarrow> (string \<rightharpoonup> Instance) \<Rightarrow> (string \<rightharpoonup> Instance)" where
  "place_cluster row sub cluster insts =
     place_cells (site_width row) (y (origin row)) (cellInCluster cluster)
       (fl (x_min sub
            + fl (of_int \<lfloor>fl (fl (cl_x cluster - x_min sub) / site_width row)\<rfloor>
                  * site_width row)))
       insts"

definition place_subrow ::
  "PlacementRow \<Rightarrow> SubRow \<Rightarrow> (string \<rightharpoonup> Instance) \<Rightarrow> (string \<rightharpoonup> Instance)" where
  "place_subrow row sub insts = fold (place_cluster row sub) (clusters sub) insts"

definition place_row :: "PlacementRow \<Rightarrow> (string \<rightharpoonup> Instance) \<Rightarrow> (string \<rightharpoonup> Instance)" where
  "place_row row insts = fold (place_subrow row) (subrows row) insts"

definition place :: "Legalizer \<Rightarrow> Legalizer" where
  "place lg =
     lg_db_update
       (\<lambda>db. instances_update (\<lambda>insts. fold place_row (placement_rows db) insts) db) lg"

text \<open>
  The legalization step of \<open>main\<close>:
  \<open>Legalizer legalizer(max(), db); legalizer.Abacus(); legalizer.place();\<close>
\<close>

definition legalize :: "string list \<Rightarrow> DesignDatabase \<Rightarrow> Legalizer" where
  "legalize keys db = place (Abacus keys (Legalizer_ctor DBL_MAX db))"
section \<open>Invariants of the legalizer\<close>

text \<open>
  \<open>v\<close> is an integer of magnitude at most \<open>2\<^sup>4\<^sup>0\<close>: sums, differences and products of a few
  such numbers are doubles, so that the program computes them without rounding.
\<close>

definition grid :: "real \<Rightarrow> bool" where
  "grid v = (v \<in> \<int> \<and> \<bar>v\<bar> \<le> 2 ^ 40)"

text \<open>\<open>d\<close> is a whole number of sites of width \<open>sw\<close>.\<close>

definition on_site :: "real \<Rightarrow> real \<Rightarrow> bool" where
  "on_site sw d = (of_int \<lfloor>d / sw\<rfloor> * sw = d)"

definition name_width :: "(string \<rightharpoonup> Instance) \<Rightarrow> string \<Rightarrow> real" where
  "name_width insts nm = (case insts nm of None \<Rightarrow> 0 | Some i \<Rightarrow> get_width i)"

text \<open>
  A chain of clusters (rightmost first) is a packing left of \<open>bound\<close> and right of \<open>xmin\<close>:
  every cluster starts on a site, is as wide as its cells together, has positive weight
  and ends where its right neighbour starts or before.
\<close>

fun chain_ok :: "real \<Rightarrow> real \<Rightarrow> (string \<Rightarrow> real) \<Rightarrow> real \<Rightarrow> Cluster list \<Rightarrow> bool" where
  "chain_ok xmin sw W bound [] = (xmin \<le> bound)"
| "chain_ok xmin sw W bound (c # cs) =
     (cl_x c + cl_width c \<le> bound \<and> on_site sw (cl_x c - xmin)
      \<and> cl_width c = sum_list (map W (cellInCluster c)) \<and> 0 < cl_weight c
      \<and> chain_ok xmin sw W (cl_x c) cs)"

definition subrow_ok :: "real \<Rightarrow> (string \<Rightarrow> real) \<Rightarrow> SubRow \<Rightarrow> bool" where
  "subrow_ok sw W s =
     (on_site sw (x_max s - x_min s)
      \<and> Usewidth s = x_max s - x_min s - sum_list (map cl_width (clusters s))
      \<and> chain_ok (x_min s) sw W (x_max s) (clusters s))"

definition row_ok :: "(string \<Rightarrow> real) \<Rightarrow> PlacementRow \<Rightarrow> bool" where
  "row_ok wd r =
     (0 < site_width r \<and> grid (site_width r) \<and> grid (x (origin r))
      \<and> (\<forall>s\<in>set (subrows r).
            subrow_ok (site_width r) (\<lambda>nm. placedCellWidth (site_width r) (wd nm)) s
            \<and> on_site (site_width r) (x_min s - x (origin r))
            \<and> grid (x_min s) \<and> grid (x_max s))
      \<and> sorted_wrt (\<lambda>a b. x_max a \<le> x_min b) (subrows r))"

text \<open>
  The cells of the design as the legalizer needs them: positive weight, and a width and
  an abscissa that are non-negative respectively arbitrary integers of the grid.
\<close>

definition cell_ok :: "Instance \<Rightarrow> bool" where
  "cell_ok i = (0 < weight i \<and> 0 \<le> get_width i \<and> grid (get_width i) \<and> grid (x (position i)))"

text \<open>One of the two warnings of \<open>Abacus\<close> names the instance \<open>nm\<close>.\<close>

definition warned :: "string \<Rightarrow> string list \<Rightarrow> bool" where
  "warned nm ws =
     (''  Warning: Could not place instance '' @ nm \<in> set ws
      \<or> ''WARN: instance '' @ nm @ '' cannot fit any [row]; skipping.'' \<in> set ws)"

definition subrow_members :: "SubRow \<Rightarrow> string list" where
  "subrow_members s = concat (map cellInCluster (clusters s))"

definition row_members :: "PlacementRow \<Rightarrow> string list" where
  "row_members r = concat (map subrow_members (subrows r))"

definition all_members :: "PlacementRow list \<Rightarrow> string list" where
  "all_members rows = concat (map row_members rows)"

text \<open>
  Ghost definitions for the proofs: an instance without the fields the legalizer writes,
  and the validity of a running best.
\<close>

definition core :: "Instance \<Rightarrow> Instance" where
  "core i = i\<lparr>x_new := 0, y_new := 0, placement_status := UNPLACED\<rparr>"

definition cores :: "(string \<rightharpoonup> Instance) \<Rightarrow> (string \<rightharpoonup> Instance)" where
  "cores insts = (\<lambda>k. map_option core (insts k))"

definition best_ok :: "PlacementRow list \<Rightarrow> real \<Rightarrow> best \<Rightarrow> bool" where
  "best_ok rows w b =
     (case b of (Cbest, br, bs) \<Rightarrow>
        br = - 1 \<or> bs = - 1
        \<or> (0 \<le> br \<and> nat br < length rows \<and> 0 \<le> bs
            \<and> nat bs < length (subrows (rows ! nat br))
            \<and> w \<le> Usewidth (subrows (rows ! nat br) ! nat bs)))"

definition leg_inv :: "(string \<rightharpoonup> Instance) \<Rightarrow> Legalizer \<Rightarrow> bool" where
  "leg_inv C lg =
     (cores (instances (lg_db lg)) = C
      \<and> (\<forall>r\<in>set (placement_rows (lg_db lg)). row_ok (name_width C) r))"
text \<open>
  Sub-rows before any cell is placed: no cluster, all of the width usable, both ends on
  sites counted from the row origin \<open>ox\<close>, ordered and disjoint.
\<close>

definition fresh_ok :: "real \<Rightarrow> real \<Rightarrow> SubRow list \<Rightarrow> bool" where
  "fresh_ok sw ox srs =
     ((\<forall>s\<in>set srs. clusters s = [] \<and> Usewidth s = x_max s - x_min s \<and> x_min s \<le> x_max s
          \<and> on_site sw (x_min s - ox) \<and> on_site sw (x_max s - ox)
          \<and> grid (x_min s) \<and> grid (x_max s))
      \<and> sorted_wrt (\<lambda>a b. x_max a \<le> x_min b) srs)"

text \<open>
  A placement row as \<open>parse_row_line\<close> creates it: no sub-rows and no site width yet, a
  positive step and a non-negative number of sites.
\<close>

definition wf_row :: "PlacementRow \<Rightarrow> bool" where
  "wf_row r = (subrows r = [] \<and> site_width r = 0 \<and> 0 < step_x r \<and> 0 \<le> num_x r)"
text \<open>
  The geometry of a placement row is integer-valued: its origin, its step and its right end.
\<close>

definition grid_row :: "PlacementRow \<Rightarrow> bool" where
  "grid_row r =
     (grid (x (origin r)) \<and> grid (step_x r)
      \<and> grid (x (origin r) + step_x r * real_of_int (num_x r)))"

definition fresh_row :: "PlacementRow \<Rightarrow> bool" where
  "fresh_row r =
     (0 < site_width r \<and> grid (site_width r) \<and> grid (x (origin r))
      \<and> fresh_ok (site_width r) (x (origin r)) (subrows r))"
text \<open>
  The assignments \<open>(instance, x_new, y_new)\<close> that \<open>place\<close> makes, in the order it makes
  them, for cell widths \<open>wd\<close>; and the table after a list of such assignments.
\<close>

fun cell_writes ::
  "real \<Rightarrow> real \<Rightarrow> (string \<Rightarrow> real) \<Rightarrow> string list \<Rightarrow> real \<Rightarrow> (string \<times> real \<times> real) list" where
  "cell_writes sitew oy wd [] xx = []"
| "cell_writes sitew oy wd (nm # nms) xx =
     (nm, xx, oy) # cell_writes sitew oy wd nms (fl (xx + placedCellWidth sitew (wd nm)))"

definition cluster_writes ::
  "(string \<Rightarrow> real) \<Rightarrow> PlacementRow \<Rightarrow> SubRow \<Rightarrow> Cluster \<Rightarrow> (string \<times> real \<times> real) list" where
  "cluster_writes wd row sub cluster =
     cell_writes (site_width row) (y (origin row)) wd (cellInCluster cluster)
       (fl (x_min sub
            + fl (of_int \<lfloor>fl (fl (cl_x cluster - x_min sub) / site_width row)\<rfloor>
                  * site_width row)))"

definition subrow_writes ::
  "(string \<Rightarrow> real) \<Rightarrow> PlacementRow \<Rightarrow> SubRow \<Rightarrow> (string \<times> real \<times> real) list" where
  "subrow_writes wd row sub = concat (map (cluster_writes wd row sub) (clusters sub))"

definition row_writes :: "(string \<Rightarrow> real) \<Rightarrow> PlacementRow \<Rightarrow> (string \<times> real \<times> real) list" where
  "row_writes wd row = concat (map (subrow_writes wd row) (subrows row))"

definition all_writes ::
  "(string \<Rightarrow> real) \<Rightarrow> PlacementRow list \<Rightarrow> (string \<times> real \<times> real) list" where
  "all_writes wd rows = concat (map (row_writes wd) rows)"

definition apply_write ::
  "string \<times> real \<times> real \<Rightarrow> (string \<rightharpoonup> Instance) \<Rightarrow> (string \<rightharpoonup> Instance)" where
  "apply_write w insts =
     (case w of (nm, xv, yv) \<Rightarrow>
        (case insts nm of None \<Rightarrow> insts
         | Some inst \<Rightarrow> insts(nm \<mapsto> inst\<lparr>x_new := xv, y_new := yv\<rparr>)))"

text \<open>Two intervals \<open>[lo, hi)\<close> do not intersect.\<close>

definition disjoint_iv :: "real \<times> real \<Rightarrow> real \<times> real \<Rightarrow> bool" where
  "disjoint_iv a b = (snd a \<le> fst b \<or> snd b \<le> fst a)"

text \<open>The footprint \<open>[x_new, x_new + placedCellWidth)\<close> of an assignment in a row of site width \<open>sw\<close>.\<close>

definition footprint :: "real \<Rightarrow> (string \<Rightarrow> real) \<Rightarrow> string \<times> real \<times> real \<Rightarrow> real \<times> real" where
  "footprint sw wd w = (case w of (nm, xv, yv) \<Rightarrow> (xv, xv + placedCellWidth sw (wd nm)))"
text \<open>Three candidates, given in the order \<open>a, b, c\<close>, used to exercise the clustering.\<close>

definition ex_inst :: "string \<Rightarrow> real \<Rightarrow> real \<Rightarrow> Instance" where
  "ex_inst n a b =
     \<lparr>name = n, cell_type = ''FSDN_A'', cell_template = None, inst_module_name = '''',
      banking_type = FSDN, cluster_id = '''', best_ff_from_substitution = '''',
      best_ff_score = DBL_MAX, position = \<lparr>x = a, y = b\<rparr>, orientation = Orient_N,
      placement_status = UNPLACED, connections = [], x_new = 0, y_new = 0, weight = 1\<rparr>"

text \<open>
  A small design used to exercise the legalizer: one row of 50 sites of width 200 at
  \<open>y = 0\<close>, a blockage over \<open>[2000, 4000)\<close>, and two flip-flops of width 400 at \<open>x = 3000\<close> and
  \<open>x = 3400\<close>.
\<close>

definition ex_ff_cell :: CellTemplate where
  "ex_ff_cell =
     \<lparr>ct_name = ''FSDN_A'', ct_width = 400, ct_height = 200, pins = [], area = 1,
      leakage_power = 1, single_bit_degenerate = ''null'', bit_width = 1,
      clock_edge = FALLING, ct_type = FLIP_FLOP\<rparr>"

definition ex_ff :: "string \<Rightarrow> real \<Rightarrow> Instance" where
  "ex_ff n a = (ex_inst n a 0)\<lparr>cell_template := Some ex_ff_cell\<rparr>"

definition ex_row :: PlacementRow where
  "ex_row = \<lparr>origin = \<lparr>x = 0, y = 0\<rparr>, num_x = 50, step_x = 200, step_y = 0, height = 200,
             site_width = 0, row_id = 0, subrows = []\<rparr>"

definition ex_db :: DesignDatabase where
  "ex_db = DesignDatabase_ctor
            \<lparr>instances := [''u'' \<mapsto> ex_ff ''u'' 3000, ''v'' \<mapsto> ex_ff ''v'' 3400],
             placement_rows := [ex_row],
             placement_blockages := [\<lparr>x1 = 2000, y1 = 0, x2 = 4000, y2 = 200\<rparr>]\<rparr>"

text \<open>The row of \<open>ex_db\<close> after legalization.\<close>

definition ex_row_final :: PlacementRow where
  "ex_row_final =
     ex_row\<lparr>site_width := 200,
            subrows := [\<lparr>x_min = 0, x_max = 2000, Usewidth = 2000, clusters = []\<rparr>,
                        \<lparr>x_min = 4000, x_max = 10000, Usewidth = 5200,
                         clusters = [\<lparr>cl_x = 4000, cl_width = 800, cl_weight = 2, q = 7600,
                                      cellInCluster = [''u'', ''v'']\<rparr>]\<rparr>]\<rparr>"

text \<open>The two flip-flops of \<open>ex_db\<close> after legalization.\<close>

definition ex_u_final :: Instance where
  "ex_u_final = (ex_ff ''u'' 3000)\<lparr>placement_status := PLACED, x_new := 4000, y_new := 0\<rparr>"

definition ex_v_final :: Instance where
  "ex_v_final = (ex_ff ''v'' 3400)\<lparr>placement_status := PLACED, x_new := 4400, y_new := 0\<rparr>"

text \<open>
  The cost of the trial that the row search of \<open>Abacus\<close> makes for the instance on the row
  with index \<open>rowidx\<close>; \<open>None\<close> when \<open>findSubrowpos\<close> finds no sub-row of that row.
\<close>

definition trial_cost :: "real \<Rightarrow> DesignDatabase \<Rightarrow> string \<Rightarrow> Instance \<Rightarrow> nat \<Rightarrow> real option" where
  "trial_cost max_disp db nm inst rowidx =
     (let row = placement_rows db ! rowidx;
          subRowidx = findSubrowpos inst row
      in if subRowidx = - 1 then None
         else Some (fst (placeRow max_disp (instances db) row nm inst
                           (subrows row ! nat subRowidx) False True)))"

text \<open>
  No (row, sub-row) pair accepts the instance: on every row, no sub-row fits it or the
  cost of the trial is not below \<open>max()\<close>, the initial \<open>Cbest\<close>.
\<close>

definition no_row_accepts :: "Legalizer \<Rightarrow> string \<Rightarrow> Instance \<Rightarrow> bool" where
  "no_row_accepts lg nm inst =
     (\<forall>rowidx\<in>{..<length (placement_rows (lg_db lg))}.
        case trial_cost (lg_max_disp lg) (lg_db lg) nm inst rowidx of
          None \<Rightarrow> True
        | Some cost \<Rightarrow> \<not> cost < DBL_MAX)"

text \<open>
  Ghost definition: the database \<open>db'\<close> differs from \<open>db0\<close> at most in \<open>x_new\<close>, \<open>y_new\<close> of
  the instance \<open>nm\<close>, which is \<open>inst\<close> in \<open>db0\<close>.
\<close>

definition trial_state :: "string \<Rightarrow> Instance \<Rightarrow> DesignDatabase \<Rightarrow> DesignDatabase \<Rightarrow> bool" where
  "trial_state nm inst db0 db' =
     (placement_rows db' = placement_rows db0
      \<and> placement_blockages db' = placement_blockages db0
      \<and> (\<forall>k. k \<noteq> nm \<longrightarrow> instances db' k = instances db0 k)
      \<and> (\<exists>xv yv. instances db' nm = Some (inst\<lparr>x_new := xv, y_new := yv\<rparr>)))"

text \<open>
  Two designs for the failure path of the legalizer: a row of a single site of width 200,
  too narrow for the flip-flop of width 400, and a design without placement rows.
\<close>

definition ex_db_narrow :: DesignDatabase where
  "ex_db_narrow = DesignDatabase_ctor
                   \<lparr>instances := [''u'' \<mapsto> ex_ff ''u'' 3000],
                    placement_rows := [ex_row\<lparr>num_x := 1\<rparr>]\<rparr>"

definition ex_db_norows :: DesignDatabase where
  "ex_db_norows = DesignDatabase_ctor\<lparr>instances := [''u'' \<mapsto> ex_ff ''u'' 3000]\<rparr>"

text \<open>
  Two designs with a site step that is not an integer.  The row has ten sites of width
  \<open>0.7\<close> and the flip-flop cell is one site wide; every number is the double nearest to
  the decimal literal.  In the first design two flip-flops stand at \<open>x = 1.4\<close> and
  \<open>x = 2.1\<close>, in the second one flip-flop stands at \<open>x = 3.5\<close>.  \<open>ex_a_final\<close>,
  \<open>ex_b_final\<close> and \<open>ex_c_final\<close> are the flip-flops after legalization.
\<close>

definition ex_frac_cell :: CellTemplate where
  "ex_frac_cell = ex_ff_cell\<lparr>ct_width := fl (7 / 10)\<rparr>"

definition ex_frac_ff :: "string \<Rightarrow> real \<Rightarrow> Instance" where
  "ex_frac_ff n a = (ex_inst n a 0)\<lparr>cell_template := Some ex_frac_cell\<rparr>"

definition ex_frac_row :: PlacementRow where
  "ex_frac_row = ex_row\<lparr>num_x := 10, step_x := fl (7 / 10)\<rparr>"

definition ex_db_overlap :: DesignDatabase where
  "ex_db_overlap = DesignDatabase_ctor
     \<lparr>instances := [''a'' \<mapsto> ex_frac_ff ''a'' (fl (14 / 10)), ''b'' \<mapsto> ex_frac_ff ''b'' (fl (21 / 10))],
      placement_rows := [ex_frac_row]\<rparr>"

definition ex_a_final :: Instance where
  "ex_a_final = (ex_frac_ff ''a'' (fl (14 / 10)))
     \<lparr>placement_status := PLACED, x_new := 3152519739159347 / 2251799813685248, y_new := 0\<rparr>"

definition ex_b_final :: Instance where
  "ex_b_final = (ex_frac_ff ''b'' (fl (21 / 10)))
     \<lparr>placement_status := PLACED, x_new := 3152519739159347 / 2251799813685248, y_new := 0\<rparr>"

definition ex_db_offsite :: DesignDatabase where
  "ex_db_offsite = DesignDatabase_ctor
     \<lparr>instances := [''c'' \<mapsto> ex_frac_ff ''c'' (7 / 2)], placement_rows := [ex_frac_row]\<rparr>"

definition ex_c_final :: Instance where
  "ex_c_final = (ex_frac_ff ''c'' (7 / 2))\<lparr>placement_status := PLACED, x_new := 7 / 2, y_new := 0\<rparr>"

section \<open>Stage snapshots taken by the pipeline (main.cpp and the stage functions)\<close>

text \<open>
  \<open>db.complete_pipeline\<close> is written by \<open>capture_stage\<close> only.  \<open>main\<close> reaches five calls of
  it, in this order: in \<open>initialize_transformation_tracking\<close> (\<open>ORIGINAL\<close>, with no indices),
  at the end of \<open>perform_strategic_debanking\<close> (\<open>DEBANK\<close>), at the end of
  \<open>execute_three_stage_substitution\<close> (\<open>SUBSTITUTION\<close>), at the end of
  \<open>record_all_banking_transformations\<close> (\<open>BANK\<close>) and in \<open>main\<close> itself after
  \<open>execute_post_banking_substitution\<close> (\<open>POST_BANKING\<close>).  After that \<open>main\<close> constructs the
  legalizer and calls \<open>Abacus\<close> and \<open>place\<close>; the sixth call of \<open>capture_stage\<close> in the
  program is in \<open>record_legalization_transformations\<close>, which no function calls.

  What a call passes (the instances behind the pointers, the indices, the history) is
  computed by the stage before it and is a parameter here.
\<close>

type_synonym capture_args = "Instance list \<times> nat list \<times> TransformationRecord list"

definition main_capture_calls ::
  "Instance list \<Rightarrow> TransformationRecord list \<Rightarrow> capture_args \<Rightarrow> capture_args \<Rightarrow> capture_args
     \<Rightarrow> capture_args \<Rightarrow> (string \<times> capture_args) list" where
  "main_capture_calls all_instances history debank substitution bank post_banking =
     [(''ORIGINAL'', all_instances, [], history), (''DEBANK'', debank),
      (''SUBSTITUTION'', substitution), (''BANK'', bank), (''POST_BANKING'', post_banking)]"

definition run_capture_calls ::
  "(string \<times> capture_args) list \<Rightarrow> CompletePipeline \<Rightarrow> CompletePipeline" where
  "run_capture_calls calls pl =
     fold (\<lambda>c. capture_stage (fst c) (fst (snd c)) (fst (snd (snd c)))
                  (Some (snd (snd (snd c))))) calls pl"

text \<open>\<open>db.complete_pipeline\<close> when \<open>main\<close> has run the legalizer.\<close>

definition main_complete_pipeline ::
  "Instance list \<Rightarrow> TransformationRecord list \<Rightarrow> capture_args \<Rightarrow> capture_args \<Rightarrow> capture_args
     \<Rightarrow> capture_args \<Rightarrow> CompletePipeline" where
  "main_complete_pipeline all_instances history debank substitution bank post_banking =
     run_capture_calls
       (main_capture_calls all_instances history debank substitution bank post_banking)
       CompletePipeline_ctor"

text \<open>The number of calls of \<open>capture_stage\<close> for a stage name.\<close>

definition captures_of :: "string \<Rightarrow> (string \<times> capture_args) list \<Rightarrow> nat" where
  "captures_of nm calls = length (filter (\<lambda>c. fst c = nm) calls)"

text \<open>The stage that \<open>capture_stage\<close> leaves for a stage name and the arguments of a call.\<close>

definition captured :: "string \<Rightarrow> capture_args \<Rightarrow> StagePipeline" where
  "captured nm args =
     \<lparr>stage_name = nm,
      stage_instances = map (snapshot_of (instance_to_record (snd (snd args))))
                          (filter is_flip_flop (fst args)),
      transformation_indices = fst (snd args),
      stage_total_instances = length (filter is_flip_flop (fst args)),
      stage_ff_instances = length (filter is_flip_flop (fst args))\<rparr>"

section \<open>Strategic debanking (strategic\_debanking.cpp, transformation\_tracking.cpp)\<close>

text \<open>\<open>std::to_string\<close> on a non-negative \<open>int\<close>.\<close>

fun string_of_nat :: "nat \<Rightarrow> string" where
  "string_of_nat n =
     (if n < 10 then [''0123456789'' ! n]
      else string_of_nat (n div 10) @ [''0123456789'' ! (n mod 10)])"

declare string_of_nat.simps [simp del]

text \<open>The default-constructed \<open>Instance\<close>.\<close>

definition Instance_ctor :: Instance where
  "Instance_ctor =
     \<lparr>name = '''', cell_type = '''', cell_template = None, inst_module_name = '''',
      banking_type = NONE, cluster_id = '''', best_ff_from_substitution = '''',
      best_ff_score = DBL_MAX, position = \<lparr>x = 0, y = 0\<rparr>, orientation = Orient_N,
      placement_status = UNPLACED, connections = [], x_new = 0, y_new = 0, weight = 1\<rparr>"

definition map_singlebit_pin_to_multibit :: "string \<Rightarrow> nat \<Rightarrow> string" where
  "map_singlebit_pin_to_multibit singlebit_pin bit_index =
     (if singlebit_pin = ''D'' then ''D'' @ string_of_nat bit_index
      else if singlebit_pin = ''Q'' then ''Q'' @ string_of_nat bit_index
      else if singlebit_pin = ''QN'' then ''QN'' @ string_of_nat bit_index
      else singlebit_pin)"

definition find_shared_pin_connection :: "Instance \<Rightarrow> string \<Rightarrow> string" where
  "find_shared_pin_connection multibit_instance singlebit_pin =
     (case find (\<lambda>shared_pin. singlebit_pin = shared_pin
                    \<and> list_ex (\<lambda>conn. conn_pin_name conn = shared_pin)
                         (connections multibit_instance))
             [''CK'', ''CLK'', ''CP'', ''R'', ''RB'', ''S'', ''SB'', ''SE'', ''RD'', ''SD''] of
        Some shared_pin \<Rightarrow> shared_pin
      | None \<Rightarrow> '''')"

text \<open>The connections that \<open>map_multibit_to_singlebit_connections\<close> adds for one pin.\<close>

definition singlebit_pin_connections :: "Instance \<Rightarrow> nat \<Rightarrow> Pin \<Rightarrow> Connection list" where
  "singlebit_pin_connections multibit_instance bit_index singlebit_pin =
     (let singlebit_pin_name = pin_name singlebit_pin;
          multibit_pin_name = map_singlebit_pin_to_multibit singlebit_pin_name bit_index;
          connected_net =
            (case find (\<lambda>conn. conn_pin_name conn = multibit_pin_name)
                    (connections multibit_instance) of
               Some conn \<Rightarrow> net_name conn
             | None \<Rightarrow> '''')
      in if connected_net \<noteq> ''''
         then [\<lparr>conn_pin_name = singlebit_pin_name, net_name = connected_net\<rparr>]
         else
           let shared_pin = find_shared_pin_connection multibit_instance singlebit_pin_name
           in if shared_pin \<noteq> '''' then
                (case find (\<lambda>conn. conn_pin_name conn = shared_pin)
                        (connections multibit_instance) of
                   Some conn \<Rightarrow> [\<lparr>conn_pin_name = singlebit_pin_name, net_name = net_name conn\<rparr>]
                 | None \<Rightarrow> [])
              else [])"

definition map_multibit_to_singlebit_connections :: "Instance \<Rightarrow> Instance \<Rightarrow> nat \<Rightarrow> Instance" where
  "map_multibit_to_singlebit_connections multibit_instance singlebit_instance bit_index =
     (case cell_template singlebit_instance of
        None \<Rightarrow> singlebit_instance
      | Some ct \<Rightarrow>
          singlebit_instance\<lparr>connections := connections singlebit_instance
            @ concat (map (singlebit_pin_connections multibit_instance bit_index) (pins ct))\<rparr>)"

text \<open>The body of the loop over \<open>bit\<close>: the single-bit instance made for the bit \<open>bit_index\<close>.\<close>

definition debank_fragment :: "Instance \<Rightarrow> string \<Rightarrow> CellTemplate \<Rightarrow> nat \<Rightarrow> Instance" where
  "debank_fragment inst parent_cell_name parent_template bit_index =
     map_multibit_to_singlebit_connections inst
       (Instance_ctor\<lparr>name := name inst @ ''_BIT'' @ string_of_nat bit_index,
                      cell_type := parent_cell_name,
                      cell_template := Some parent_template,
                      position := position inst,
                      orientation := orientation inst,
                      cluster_id := name inst,
                      inst_module_name := inst_module_name inst\<rparr>) bit_index"

definition record_debank_transformation ::
  "Instance \<Rightarrow> Instance list \<Rightarrow> string \<Rightarrow> TransformationRecord list \<Rightarrow> TransformationRecord list" where
  "record_debank_transformation original_multibit_instance resulting_singlebit_instances
       parent_cell_type history =
     history @ map (\<lambda>singlebit_instance.
         (TransformationRecord_ctor (name original_multibit_instance) (name singlebit_instance)
            DEBANK (cell_type original_multibit_instance) parent_cell_type)
         \<lparr>rec_cluster_id := name original_multibit_instance, stage := ''DEBANK'',
          related_instances := filter (\<lambda>n. n \<noteq> name singlebit_instance)
                                 (map name resulting_singlebit_instances)\<rparr>)
       resulting_singlebit_instances"

definition remove_keep_transformation_record ::
  "string \<Rightarrow> TransformationRecord list \<Rightarrow> TransformationRecord list" where
  "remove_keep_transformation_record nm history =
     filter (\<lambda>r. \<not> (operation r = KEEP \<and> original_instance_name r = nm)) history"

text \<open>
  The body of the loop over \<open>db.instances\<close>, for the entry with key \<open>k\<close>.  The state is
  \<open>new_instances\<close>, \<open>instances_to_remove\<close> (pointers, here the keys of the entries) and
  \<open>db.transformation_history\<close>; the instance table itself changes only after the loop.
  The writes to the global pin-mapping storage and to the console are not modelled.
\<close>

type_synonym debank_state = "Instance list \<times> string list \<times> TransformationRecord list"

definition debank_step :: "DesignDatabase \<Rightarrow> string \<Rightarrow> debank_state \<Rightarrow> debank_state" where
  "debank_step db k st =
     (case st of (new_instances, instances_to_remove, history) \<Rightarrow>
        (case instances db k of
           None \<Rightarrow> st
         | Some inst \<Rightarrow>
             (case cell_template inst of
                None \<Rightarrow> st
              | Some ct \<Rightarrow>
                  if ct_is_flip_flop ct \<and> single_bit_degenerate ct \<noteq> ''null'' then
                    (case cell_library db (single_bit_degenerate ct) of
                       None \<Rightarrow> st
                     | Some parent_template \<Rightarrow>
                         let resulting = map (debank_fragment inst (single_bit_degenerate ct)
                                              parent_template) [0 ..< nat (bit_width ct)];
                             history1 = record_debank_transformation inst resulting
                                          (single_bit_degenerate ct) history;
                             history2 = remove_keep_transformation_record (name inst) history1
                         in (new_instances @ resulting, instances_to_remove @ [k], history2))
                  else st)))"

text \<open>
  \<open>perform_strategic_debanking\<close>.  \<open>keys\<close> is the order in which the loop enumerates
  \<open>db.instances\<close>, \<open>keys_after\<close> the order in which the table is enumerated for the snapshot.
\<close>

definition perform_strategic_debanking ::
  "string list \<Rightarrow> string list \<Rightarrow> DesignDatabase \<Rightarrow> DesignDatabase" where
  "perform_strategic_debanking keys keys_after db =
     (case fold (debank_step db) keys ([], [], transformation_history db) of
        (new_instances, instances_to_remove, history) \<Rightarrow>
          let insts1 = fold (\<lambda>k m. m(k := None)) instances_to_remove (instances db);
              insts2 = fold (\<lambda>i m. m(name i \<mapsto> i)) new_instances insts1;
              all_instances_after_debank = List.map_filter insts2 keys_after;
              debank_indices = filter (\<lambda>i. operation (history ! i) = DEBANK)
                                 [0 ..< length history]
          in db\<lparr>instances := insts2, transformation_history := history,
                complete_pipeline := capture_stage ''DEBANK'' all_instances_after_debank
                    debank_indices (Some history) (complete_pipeline db)\<rparr>)"

text \<open>
  Ghost definitions: the instances the loop replaces (a flip-flop whose template names a
  single-bit degenerate cell other than \<open>"null"\<close> that the library has), and the single-bit
  instances it makes for the entry with key \<open>k\<close>.
\<close>

definition debankable :: "DesignDatabase \<Rightarrow> Instance \<Rightarrow> bool" where
  "debankable db inst =
     (case cell_template inst of
        None \<Rightarrow> False
      | Some ct \<Rightarrow> ct_is_flip_flop ct \<and> single_bit_degenerate ct \<noteq> ''null''
                   \<and> cell_library db (single_bit_degenerate ct) \<noteq> None)"

definition debankable_key :: "DesignDatabase \<Rightarrow> string \<Rightarrow> bool" where
  "debankable_key db k = (case instances db k of None \<Rightarrow> False | Some inst \<Rightarrow> debankable db inst)"

definition fragments_of :: "DesignDatabase \<Rightarrow> string \<Rightarrow> Instance list" where
  "fragments_of db k =
     (case instances db k of
        None \<Rightarrow> []
      | Some inst \<Rightarrow>
          (case cell_template inst of
             None \<Rightarrow> []
           | Some ct \<Rightarrow>
               (case cell_library db (single_bit_degenerate ct) of
                  None \<Rightarrow> []
                | Some parent_template \<Rightarrow>
                    map (debank_fragment inst (single_bit_degenerate ct) parent_template)
                      [0 ..< nat (bit_width ct)])))"

text \<open>
  A library with a four-bit flip-flop without single-bit degenerate cell, a one-bit
  flip-flop \<open>FF1X\<close> whose degenerate cell is \<open>FF1\<close>, and \<open>FF1\<close>; and a design with one instance
  of each of the first two.
\<close>

definition ex_cell :: "string \<Rightarrow> int \<Rightarrow> string \<Rightarrow> CellTemplate" where
  "ex_cell n b d =
     \<lparr>ct_name = n, ct_width = 400, ct_height = 200, pins = [], area = 1, leakage_power = 1,
      single_bit_degenerate = d, bit_width = b, clock_edge = RISING, ct_type = FLIP_FLOP\<rparr>"

definition ex_debank_db :: DesignDatabase where
  "ex_debank_db = DesignDatabase_ctor
     \<lparr>instances := [''m'' \<mapsto> (ex_inst ''m'' 0 0)\<lparr>cell_template := Some (ex_cell ''FF4'' 4 ''null'')\<rparr>,
                    ''s'' \<mapsto> (ex_inst ''s'' 0 0)\<lparr>cell_template := Some (ex_cell ''FF1X'' 1 ''FF1'')\<rparr>],
      cell_library := [''FF4'' \<mapsto> ex_cell ''FF4'' 4 ''null'',
                       ''FF1X'' \<mapsto> ex_cell ''FF1X'' 1 ''FF1'',
                       ''FF1'' \<mapsto> ex_cell ''FF1'' 1 ''null'']\<rparr>"

text \<open>
  A design in which the only multi-bit flip-flop, an instance of the two-bit \<open>FF2\<close>, names
  the single-bit cell \<open>FF1\<close> of the library as its degenerate cell.
\<close>

definition ex_debank_ok_db :: DesignDatabase where
  "ex_debank_ok_db = DesignDatabase_ctor
     \<lparr>instances := [''t'' \<mapsto> (ex_inst ''t'' 0 0)\<lparr>cell_template := Some (ex_cell ''FF2'' 2 ''FF1'')\<rparr>],
      cell_library := [''FF2'' \<mapsto> ex_cell ''FF2'' 2 ''FF1'',
                       ''FF1'' \<mapsto> ex_cell ''FF1'' 1 ''null'']\<rparr>"

text \<open>A flip-flop cell of area \<open>10\<^sup>1\<^sup>9\<close>, used to exercise the scores.\<close>

definition ex_huge_cell :: CellTemplate where
  "ex_huge_cell = (ex_cell ''FF_HUGE'' 1 ''null'')\<lparr>area := 10000000000000000000\<rparr>"

section \<open>Theorems\<close>

subsection \<open>Rounding to the nearest double\<close>

lemma fl_0 [simp]: "fl 0 = 0"
  by (simp add: fl_def)

lemma round_even_of_int [simp]: "round_even (of_int k) = k"
  by (simp add: round_even_def)

lemma round_even_err: "\<bar>of_int (round_even s) - s\<bar> \<le> 1 / 2"
  unfolding round_even_def by (auto simp: abs_le_iff; linarith)

text \<open>The binade of a number decides the spacing of the doubles around it.\<close>

lemma fl_binade:
  fixes e :: int
  assumes "2 powr of_int e \<le> \<bar>r\<bar>" and "\<bar>r\<bar> < 2 powr (of_int e + 1)"
  shows "fl r = of_int (round_even (r * 2 powr (52 - of_int e))) * 2 powr (of_int e - 52)"
proof -
  have p: "0 < \<bar>r\<bar>" using assms(1) by (smt (verit) powr_gt_zero)
  have "\<lfloor>log 2 \<bar>r\<bar>\<rfloor> = e"
    using assms p by (simp add: floor_log_eq_powr_iff)
  moreover have "r \<noteq> 0" using p by simp
  ultimately show ?thesis by (simp add: fl_def)
qed

lemma fl_rel:
  "\<bar>fl r - r\<bar> \<le> \<bar>r\<bar> / 2 ^ 53"
proof (cases "r = 0")
  case True
  then show ?thesis by simp
next
  case False
  define e where "e = \<lfloor>log 2 \<bar>r\<bar>\<rfloor>"
  have p: "0 < \<bar>r\<bar>" using False by simp
  have b: "2 powr of_int e \<le> \<bar>r\<bar>" "\<bar>r\<bar> < 2 powr (of_int e + 1)"
    using floor_log_eq_powr_iff [where b=2 and x="\<bar>r\<bar>" and k=e] p by (simp_all add: e_def)
  define s where "s = r * 2 powr (52 - of_int e)"
  have f: "fl r = of_int (round_even s) * 2 powr (of_int e - 52)"
    using fl_binade [OF b] by (simp add: s_def)
  have r: "r = s * 2 powr (of_int e - 52)"
    by (simp add: s_def powr_add [symmetric])
  have "fl r - r = of_int (round_even s) * 2 powr (of_int e - 52) - s * 2 powr (of_int e - 52)"
    using f r by simp
  then have "fl r - r = (of_int (round_even s) - s) * 2 powr (of_int e - 52)"
    by (simp add: algebra_simps)
  then have "\<bar>fl r - r\<bar> = \<bar>of_int (round_even s) - s\<bar> * 2 powr (of_int e - 52)"
    by (simp add: abs_mult)
  also have "\<dots> \<le> 1 / 2 * 2 powr (of_int e - 52)"
    by (rule mult_right_mono [OF round_even_err]) simp
  also have "\<dots> = 2 powr of_int e / 2 ^ 53"
  proof -
    have "(2::real) powr (of_int e - 52) = 2 powr of_int e / 2 powr 52"
      by (simp add: powr_diff)
    also have "(2::real) powr 52 = 2 ^ 52" by (simp add: powr_numeral)
    finally show ?thesis by simp
  qed
  also have "\<dots> \<le> \<bar>r\<bar> / 2 ^ 53" using b(1) by (simp add: divide_right_mono)
  finally show ?thesis .
qed

lemma fl_pos: "0 < r \<Longrightarrow> 0 < fl r"
proof -
  assume r: "0 < r"
  have "r / 2 ^ 53 < r" using r by (simp add: field_simps)
  with fl_rel [of r] r show ?thesis by (simp add: abs_le_iff; linarith)
qed

lemma fl_neg: "r < 0 \<Longrightarrow> fl r < 0"
proof -
  assume r: "r < 0"
  have "- r / 2 ^ 53 < - r" using r by (simp add: field_simps)
  with fl_rel [of r] r show ?thesis by (simp add: abs_le_iff; linarith)
qed

text \<open>A number with a significand of at most 53 bits is a double.\<close>

lemma fl_scaled:
  fixes m j :: int
  assumes m: "\<bar>m\<bar> < 2 ^ 53"
  shows "fl (of_int m * 2 powr of_int j) = of_int m * 2 powr of_int j"
proof (cases "m = 0")
  case True
  then show ?thesis by simp
next
  case False
  define t where "t = \<lfloor>log 2 \<bar>of_int m :: real\<bar>\<rfloor>"
  have mp: "0 < \<bar>of_int m :: real\<bar>" using False by simp
  have tb: "2 powr of_int t \<le> \<bar>of_int m :: real\<bar>" "\<bar>of_int m :: real\<bar> < 2 powr (of_int t + 1)"
    using floor_log_eq_powr_iff [where b=2 and x="\<bar>of_int m :: real\<bar>" and k=t] mp by (simp_all add: t_def)
  have "1 \<le> \<bar>m\<bar>" using False by linarith
  then have "1 \<le> \<bar>of_int m :: real\<bar>" by (simp only: of_int_abs [symmetric] of_int_1_le_iff)
  then have "0 \<le> log 2 \<bar>of_int m :: real\<bar>" by simp
  then have t0: "0 \<le> t" by (simp add: t_def)
  have "\<bar>of_int m :: real\<bar> < 2 ^ 53"
    using m by (simp only: of_int_abs [symmetric] of_int_less_numeral_power_cancel_iff)
  then have "\<bar>of_int m :: real\<bar> < 2 powr 53" by (simp add: powr_numeral)
  with tb(1) have "2 powr of_int t < (2::real) powr 53" by linarith
  then have "of_int t < (53::real)" by (simp only: powr_less_cancel_iff one_less_numeral_iff semiring_norm)
  then have t52: "t \<le> 52" by linarith
  define r :: real where "r = of_int m * 2 powr of_int j"
  have ra: "\<bar>r\<bar> = \<bar>of_int m\<bar> * 2 powr of_int j" by (simp add: r_def abs_mult)
  have b1: "2 powr of_int (t + j) \<le> \<bar>r\<bar>"
    unfolding ra using tb(1) by (simp add: powr_add mult_right_mono)
  have b2: "\<bar>r\<bar> < 2 powr (of_int (t + j) + 1)"
  proof -
    have "\<bar>of_int m :: real\<bar> * 2 powr of_int j < 2 powr (of_int t + 1) * 2 powr of_int j"
      using tb(2) by (simp add: mult_strict_right_mono)
    also have "\<dots> = 2 powr (of_int (t + j) + 1)" by (simp add: powr_add [symmetric] algebra_simps)
    finally show ?thesis unfolding ra .
  qed
  obtain n :: nat where n: "52 - t = int n" using t52 by (metis diff_ge_0_iff_ge nonneg_int_cases)
  have sc: "r * 2 powr (52 - of_int (t + j)) = of_int (m * 2 ^ n)"
  proof -
    have "r * 2 powr (52 - of_int (t + j)) = of_int m * (2 powr of_int j * 2 powr (52 - of_int (t + j)))"
      by (simp add: r_def)
    also have "\<dots> = of_int m * 2 powr (of_int j + (52 - of_int (t + j)))"
      by (simp only: powr_add)
    also have "of_int j + (52 - of_int (t + j)) = (of_int (52 - t) :: real)" by simp
    also have "\<dots> = real n" using n by simp
    also have "(2::real) powr real n = 2 ^ n" by (simp add: powr_realpow)
    finally show ?thesis by simp
  qed
  have "fl r = of_int (round_even (r * 2 powr (52 - of_int (t + j)))) * 2 powr (of_int (t + j) - 52)"
    by (rule fl_binade [OF b1 b2])
  also have "\<dots> = of_int (m * 2 ^ n) * 2 powr (of_int (t + j) - 52)"
    by (simp only: sc round_even_of_int)
  also have "\<dots> = r * 2 powr (52 - of_int (t + j)) * 2 powr (of_int (t + j) - 52)"
    unfolding sc ..
  also have "\<dots> = r" by (simp add: powr_add [symmetric] mult.assoc)
  finally show ?thesis unfolding r_def .
qed

lemma fl_of_int:
  fixes k :: int
  assumes "\<bar>k\<bar> \<le> 2 ^ 53"
  shows "fl (of_int k) = of_int k"
proof (cases "\<bar>k\<bar> = 2 ^ 53")
  case True
  then have k: "k = 2 ^ 53 \<or> k = - (2 ^ 53)" by linarith
  have a: "fl (of_int 1 * 2 powr of_int 53) = of_int 1 * 2 powr of_int 53"
    by (rule fl_scaled) simp
  have b: "fl (of_int (- 1) * 2 powr of_int 53) = of_int (- 1) * 2 powr of_int 53"
    by (rule fl_scaled) simp
  have p: "(2::real) powr 53 = 2 ^ 53" by (simp add: powr_numeral)
  from k show ?thesis
  proof
    assume "k = 2 ^ 53"
    then show ?thesis using a by (simp add: p)
  next
    assume "k = - (2 ^ 53)"
    then show ?thesis using b by (simp add: p)
  qed
next
  case False
  then have "\<bar>k\<bar> < 2 ^ 53" using assms by linarith
  from fl_scaled [OF this, of 0] show ?thesis by simp
qed

lemma fl_Ints: "v \<in> \<int> \<Longrightarrow> \<bar>v\<bar> \<le> 2 ^ 53 \<Longrightarrow> fl v = v"
proof -
  assume "v \<in> \<int>" and b: "\<bar>v\<bar> \<le> 2 ^ 53"
  then obtain k :: int where k: "v = of_int k" by (auto elim: Ints_cases)
  with b have "\<bar>k\<bar> \<le> 2 ^ 53"
    by (simp only: of_int_abs [symmetric] of_int_le_numeral_power_cancel_iff)
  from fl_of_int [OF this] k show ?thesis by simp
qed

lemma fl_numeral [simp]: "numeral n \<le> (2 ^ 53 :: real) \<Longrightarrow> fl (numeral n) = numeral n"
  by (rule fl_Ints) simp_all

lemma fl_neg_numeral [simp]:
  "numeral n \<le> (2 ^ 53 :: real) \<Longrightarrow> fl (- numeral n) = - numeral n"
  by (rule fl_Ints) simp_all

lemma fl_1 [simp]: "fl 1 = 1"
  by (rule fl_Ints) simp_all


text \<open>A number scaled into \<open>[2\<^sup>5\<^sup>2, 2\<^sup>5\<^sup>3)\<close> is rounded there.\<close>

lemma fl_scale_up:
  fixes n :: nat
  assumes "2 ^ 52 \<le> \<bar>r\<bar> * 2 ^ n" and "\<bar>r\<bar> * 2 ^ n < 2 ^ 53"
  shows "fl r = of_int (round_even (r * 2 ^ n)) / 2 ^ n"
proof -
  have p: "(2::real) powr (52 - of_int (52 - int n)) = 2 ^ n"
    by (simp add: powr_realpow)
  have q: "(2::real) powr (of_int (52 - int n) - 52) = 1 / 2 ^ n"
    by (simp add: powr_minus powr_realpow field_simps)
  have a: "2 powr of_int (52 - int n) \<le> \<bar>r\<bar>"
  proof -
    have "(2::real) powr of_int (52 - int n) = 2 ^ 52 / 2 ^ n"
      by (simp add: powr_diff powr_realpow powr_numeral)
    also have "\<dots> \<le> \<bar>r\<bar>" using assms(1) by (simp add: field_simps)
    finally show ?thesis .
  qed
  have b: "\<bar>r\<bar> < 2 powr (of_int (52 - int n) + 1)"
  proof -
    have "(2::real) powr (of_int (52 - int n) + 1) = 2 ^ 53 / 2 ^ n"
      by (simp add: powr_diff powr_add powr_realpow powr_numeral)
    moreover have "\<bar>r\<bar> < 2 ^ 53 / 2 ^ n" using assms(2) by (simp add: field_simps)
    ultimately show ?thesis by simp
  qed
  show ?thesis unfolding fl_binade [OF a b] p q by simp
qed

text \<open>Rounding a double changes nothing.\<close>

lemma fl_fl [simp]: "fl (fl r) = fl r"
proof (cases "r = 0")
  case True
  then show ?thesis by simp
next
  case False
  define e where "e = \<lfloor>log 2 \<bar>r\<bar>\<rfloor>"
  define s where "s = r * 2 powr (52 - of_int e)"
  define m where "m = round_even s"
  have rp: "0 < \<bar>r\<bar>" using False by simp
  have eb: "2 powr of_int e \<le> \<bar>r\<bar>" "\<bar>r\<bar> < 2 powr (of_int e + 1)"
    using floor_log_eq_powr_iff [where b=2 and x="\<bar>r\<bar>" and k=e] rp by (simp_all add: e_def)
  have fr: "fl r = of_int m * 2 powr of_int (e - 52)"
    using False by (simp add: fl_def m_def s_def e_def)
  have sa: "\<bar>s\<bar> = \<bar>r\<bar> * 2 powr (52 - of_int e)" by (simp add: s_def abs_mult)
  have "\<bar>s\<bar> < 2 powr (of_int e + 1) * 2 powr (52 - of_int e)"
    unfolding sa using eb(2) by (simp add: mult_strict_right_mono)
  also have "\<dots> = 2 powr 53" by (simp add: powr_add [symmetric])
  also have "\<dots> = 2 ^ 53" by (simp add: powr_numeral)
  finally have sb: "\<bar>s\<bar> < 2 ^ 53" .
  have "\<bar>of_int m - s\<bar> \<le> 1 / 2" unfolding m_def by (rule round_even_err)
  with sb have "\<bar>of_int m :: real\<bar> < 2 ^ 53 + 1" by linarith
  then have "\<bar>of_int m :: real\<bar> < of_int (2 ^ 53 + 1)" by simp
  then have "\<bar>m\<bar> < 2 ^ 53 + 1" by (simp only: of_int_abs [symmetric] of_int_less_iff)
  then have mb: "\<bar>m\<bar> \<le> 2 ^ 53" by simp
  show ?thesis
  proof (cases "\<bar>m\<bar> < 2 ^ 53")
    case True
    show ?thesis unfolding fr by (rule fl_scaled [OF True])
  next
    case False
    with mb have "\<bar>m\<bar> = 2 ^ 53" by simp
    then have "m = 2 * 2 ^ 52 \<or> m = 2 * (- (2 ^ 52))" by (simp add: abs_if split: if_splits)
    then obtain h :: int where h: "m = 2 * h" "\<bar>h\<bar> < 2 ^ 53"
    proof
      assume "m = 2 * 2 ^ 52"
      then show ?thesis by (rule that) simp
    next
      assume "m = 2 * (- (2 ^ 52))"
      then show ?thesis by (rule that) simp
    qed
    have "(of_int m :: real) * 2 powr of_int (e - 52)
        = of_int h * ((2::real) powr 1 * 2 powr of_int (e - 52))"
      by (simp add: h(1))
    also have "\<dots> = of_int h * (2::real) powr (1 + of_int (e - 52))"
      by (simp only: powr_add)
    also have "1 + (of_int (e - 52) :: real) = of_int (e - 51)" by simp
    finally have eq: "fl r = of_int h * 2 powr of_int (e - 51)" unfolding fr .
    show ?thesis unfolding eq by (rule fl_scaled [OF h(2)])
  qed
qed

lemma gridD: "grid v \<Longrightarrow> v \<in> \<int> \<and> \<bar>v\<bar> \<le> 2 ^ 40"
  by (simp add: grid_def)

lemma fl_add_Ints: "a \<in> \<int> \<Longrightarrow> b \<in> \<int> \<Longrightarrow> \<bar>a + b\<bar> \<le> 2 ^ 53 \<Longrightarrow> fl (a + b) = a + b"
  by (rule fl_Ints) simp_all

lemma fl_diff_Ints: "a \<in> \<int> \<Longrightarrow> b \<in> \<int> \<Longrightarrow> \<bar>a - b\<bar> \<le> 2 ^ 53 \<Longrightarrow> fl (a - b) = a - b"
  by (rule fl_Ints) simp_all

lemma fl_mult_Ints: "a \<in> \<int> \<Longrightarrow> b \<in> \<int> \<Longrightarrow> \<bar>a * b\<bar> \<le> 2 ^ 53 \<Longrightarrow> fl (a * b) = a * b"
  by (rule fl_Ints) simp_all

lemma fl_lower: "0 \<le> r \<Longrightarrow> r - r / 2 ^ 53 \<le> fl r"
proof -
  assume "0 \<le> r"
  then have "\<bar>r\<bar> = r" by simp
  with fl_rel [of r] show ?thesis by linarith
qed

lemma fl_upper: "0 \<le> r \<Longrightarrow> fl r \<le> r + r / 2 ^ 53"
proof -
  assume "0 \<le> r"
  then have "\<bar>r\<bar> = r" by simp
  with fl_rel [of r] show ?thesis by linarith
qed

lemma fl_abs_err: "\<bar>r\<bar> \<le> B \<Longrightarrow> \<bar>fl r - r\<bar> \<le> B / 2 ^ 53"
proof -
  assume "\<bar>r\<bar> \<le> B"
  then have "\<bar>r\<bar> / 2 ^ 53 \<le> B / 2 ^ 53" by (simp add: divide_right_mono)
  with fl_rel [of r] show ?thesis by linarith
qed

text \<open>The quotient of two integers rounds to a double with the same floor and ceiling.\<close>

lemma fl_div_between:
  fixes a b n :: int
  assumes b: "0 < b" and a: "\<bar>a\<bar> < 2 ^ 53" and lo: "n * b < a" and hi: "a < (n + 1) * b"
  shows "of_int n < fl (of_int a / of_int b)" and "fl (of_int a / of_int b) < of_int n + 1"
proof -
  define r :: real where "r = of_int a / of_int b"
  have bp: "0 < (of_int b :: real)" using b by simp
  have "n * b + 1 \<le> a" using lo by linarith
  then have "(of_int (n * b + 1) :: real) \<le> of_int a" by (simp only: of_int_le_iff)
  then have "of_int n * of_int b + 1 \<le> (of_int a :: real)" by simp
  then have "(of_int n * of_int b + 1) / of_int b \<le> (of_int a :: real) / of_int b"
    using bp by (simp only: divide_right_mono less_imp_le)
  then have l1: "of_int n + 1 / of_int b \<le> r"
    using bp by (simp add: r_def add_divide_distrib)
  have "a + 1 \<le> (n + 1) * b" using hi by linarith
  then have "(of_int (a + 1) :: real) \<le> of_int ((n + 1) * b)" by (simp only: of_int_le_iff)
  then have "(of_int a :: real) \<le> (of_int n + 1) * of_int b - 1" by simp
  then have "(of_int a :: real) / of_int b \<le> ((of_int n + 1) * of_int b - 1) / of_int b"
    using bp by (simp only: divide_right_mono less_imp_le)
  then have h1: "r \<le> of_int n + 1 - 1 / of_int b"
    using bp by (simp add: r_def diff_divide_distrib)
  have "\<bar>of_int a :: real\<bar> < 2 ^ 53"
    using a by (simp only: of_int_abs [symmetric] of_int_less_numeral_power_cancel_iff)
  then have "\<bar>r\<bar> / 2 ^ 53 < 1 / of_int b"
    using bp by (simp add: r_def field_simps)
  with fl_rel [of r] have e: "\<bar>fl r - r\<bar> < 1 / of_int b" by linarith
  show "of_int n < fl (of_int a / of_int b)" using e l1 unfolding r_def [symmetric] by linarith
  show "fl (of_int a / of_int b) < of_int n + 1" using e h1 unfolding r_def [symmetric] by linarith
qed

lemma floor_ceiling_fl_div_int:
  fixes a b :: int
  assumes b: "0 < b" and a: "\<bar>a\<bar> < 2 ^ 53"
  shows "\<lfloor>fl (of_int a / of_int b)\<rfloor> = \<lfloor>(of_int a :: real) / of_int b\<rfloor>"
    and "\<lceil>fl (of_int a / of_int b)\<rceil> = \<lceil>(of_int a :: real) / of_int b\<rceil>"
proof -
  define n where "n = a div b"
  have fd: "\<lfloor>(of_int a :: real) / of_int b\<rfloor> = n" by (simp add: n_def floor_divide_of_int_eq)
  have "b dvd a \<or> \<not> b dvd a" by simp
  then have "\<lfloor>fl (of_int a / of_int b)\<rfloor> = \<lfloor>(of_int a :: real) / of_int b\<rfloor>
      \<and> \<lceil>fl (of_int a / of_int b)\<rceil> = \<lceil>(of_int a :: real) / of_int b\<rceil>"
  proof
    assume d: "b dvd a"
    then have an: "a = n * b" by (simp add: n_def)
    have "\<bar>a\<bar> = \<bar>n\<bar> * b" using an b by (simp add: abs_mult)
    moreover have "\<bar>n\<bar> * 1 \<le> \<bar>n\<bar> * b" using b by (intro mult_left_mono) simp_all
    ultimately have "\<bar>n\<bar> \<le> \<bar>a\<bar>" by simp
    then have nb: "\<bar>n\<bar> \<le> 2 ^ 53" using a by linarith
    have q: "(of_int a :: real) / of_int b = of_int n" using b an by simp
    show ?thesis unfolding q by (simp add: fl_of_int [OF nb])
  next
    assume d: "\<not> b dvd a"
    have dm: "a = n * b + a mod b" by (simp add: n_def)
    have m: "0 \<le> a mod b" "a mod b < b" using b by simp_all
    have "n * b \<le> a" using dm m(1) by linarith
    moreover have "n * b \<noteq> a" using d by (metis dvd_triv_right)
    ultimately have lo: "n * b < a" by linarith
    have "a < n * b + b" using dm m(2) by linarith
    then have hi: "a < (n + 1) * b" by (simp add: algebra_simps)
    note f = fl_div_between [OF b a lo hi]
    have f1: "\<lfloor>fl (of_int a / of_int b)\<rfloor> = n" using f by (simp add: floor_eq_iff)
    have f2: "\<lceil>fl (of_int a / of_int b)\<rceil> = n + 1" using f by (simp add: ceiling_eq_iff)
    have bp: "0 < (of_int b :: real)" using b by simp
    have "(of_int (n * b) :: real) < of_int a" using lo by (simp only: of_int_less_iff)
    then have "of_int n * of_int b < (of_int a :: real)" by simp
    then have l1: "of_int n < (of_int a :: real) / of_int b"
      using bp by (simp only: pos_less_divide_eq)
    have "(of_int a :: real) < of_int ((n + 1) * b)" using hi by (simp only: of_int_less_iff)
    then have "(of_int a :: real) < (of_int n + 1) * of_int b" by simp
    then have h1: "(of_int a :: real) / of_int b < of_int n + 1"
      using bp by (simp only: pos_divide_less_eq)
    have c: "\<lceil>(of_int a :: real) / of_int b\<rceil> = n + 1" using l1 h1 by (simp add: ceiling_eq_iff)
    show ?thesis using f1 f2 fd c by simp
  qed
  then show "\<lfloor>fl (of_int a / of_int b)\<rfloor> = \<lfloor>(of_int a :: real) / of_int b\<rfloor>"
    and "\<lceil>fl (of_int a / of_int b)\<rceil> = \<lceil>(of_int a :: real) / of_int b\<rceil>" by simp_all
qed

lemma floor_fl_div:
  assumes "a \<in> \<int>" "b \<in> \<int>" "0 < b" "\<bar>a\<bar> < 2 ^ 53"
  shows "\<lfloor>fl (a / b)\<rfloor> = \<lfloor>a / b\<rfloor>"
proof -
  from assms obtain i j :: int where ij: "a = of_int i" "b = of_int j" by (auto elim!: Ints_cases)
  have j: "0 < j" using assms(3) ij by simp
  have i: "\<bar>i\<bar> < 2 ^ 53"
    using assms(4) ij by (simp only: of_int_abs [symmetric] of_int_less_numeral_power_cancel_iff)
  show ?thesis unfolding ij by (rule floor_ceiling_fl_div_int(1) [OF j i])
qed

lemma ceiling_fl_div:
  assumes "a \<in> \<int>" "b \<in> \<int>" "0 < b" "\<bar>a\<bar> < 2 ^ 53"
  shows "\<lceil>fl (a / b)\<rceil> = \<lceil>a / b\<rceil>"
proof -
  from assms obtain i j :: int where ij: "a = of_int i" "b = of_int j" by (auto elim!: Ints_cases)
  have j: "0 < j" using assms(3) ij by simp
  have i: "\<bar>i\<bar> < 2 ^ 53"
    using assms(4) ij by (simp only: of_int_abs [symmetric] of_int_less_numeral_power_cancel_iff)
  show ?thesis unfolding ij by (rule floor_ceiling_fl_div_int(2) [OF j i])
qed

subsection \<open>Spatial clustering\<close>

lemma ex_inst_sel [simp]:
  "x (position (ex_inst n a b)) = a" "y (position (ex_inst n a b)) = b"
  "name (ex_inst n a b) = n"
  by (simp_all add: ex_inst_def)

lemma ex_inst_eq [simp]: "(ex_inst n a b = ex_inst n' a' b') = (n = n' \<and> a = a' \<and> b = b')"
  by (auto simp: ex_inst_def)

lemma manhattan_ex_inst [simp]:
  "manhattan_distance (ex_inst n a b) (ex_inst n' a' b')
     = fl (\<bar>fl (a - a')\<bar> + \<bar>fl (b - b')\<bar>)"
  by (simp add: manhattan_distance_def)

lemma manhattan_self [simp]: "manhattan_distance i i = 0"
  by (simp add: manhattan_distance_def)

lemma size_t_of_int_small: "0 \<le> n \<Longrightarrow> n < 2 ^ 64 \<Longrightarrow> size_t_of_int n = nat n"
  by (simp add: size_t_of_int_def)

text \<open>
  What the inner loop computes: the cands at the first \<open>tgt - |cluster|\<close> indices of
  \<open>js\<close> that are unused and within the threshold of \<open>first\<close> are appended; an index that
  is used or too far is passed over and the scan goes on.
\<close>

lemma grow_cluster_filter:
  "distinct js \<Longrightarrow>
   fst (grow_cluster cands first tgt thr js cluster used) =
     cluster @ map (\<lambda>j. cands ! j)
       (take (tgt - length cluster)
          (filter (\<lambda>j. \<not> used ! j \<and> manhattan_distance first (cands ! j) \<le> thr) js))"
proof (induction cands first tgt thr js cluster used rule: grow_cluster.induct)
  case (1 cands first tgt thr cluster used)
  show ?case by simp
next
  case (2 cands first tgt thr j js cluster used)
  from "2.prems" have dj: "distinct js" and jn: "j \<notin> set js" by auto
  have same: "filter (\<lambda>k. \<not> used[j := True] ! k \<and> manhattan_distance first (cands ! k) \<le> thr) js
      = filter (\<lambda>k. \<not> used ! k \<and> manhattan_distance first (cands ! k) \<le> thr) js"
  proof (intro filter_cong refl)
    fix k assume "k \<in> set js"
    then have "j \<noteq> k" using jn by auto
    then show "(\<not> used[j := True] ! k \<and> manhattan_distance first (cands ! k) \<le> thr)
        = (\<not> used ! k \<and> manhattan_distance first (cands ! k) \<le> thr)"
      by (simp add: nth_list_update_neq)
  qed
  show ?case
  proof (cases "length cluster < tgt")
    case False
    then show ?thesis by simp
  next
    case lt: True
    then obtain d where d: "tgt - length cluster = Suc d" "tgt - Suc (length cluster) = d"
      by (cases "tgt - length cluster") auto
    show ?thesis
    proof (cases "used ! j")
      case True
      have ih: "fst (grow_cluster cands first tgt thr js cluster used) =
         cluster @ map (\<lambda>j. cands ! j) (take (tgt - length cluster)
          (filter (\<lambda>j. \<not> used ! j \<and> manhattan_distance first (cands ! j) \<le> thr) js))"
        using "2.IH"(1) lt True dj by blast
      show ?thesis using lt True by (simp add: ih)
    next
      case nu: False
      show ?thesis
      proof (cases "manhattan_distance first (cands ! j) \<le> thr")
        case True
        have ih: "fst (grow_cluster cands first tgt thr js (cluster @ [cands ! j])
              (used[j := True])) =
           (cluster @ [cands ! j]) @ map (\<lambda>j. cands ! j)
             (take (tgt - length (cluster @ [cands ! j]))
               (filter (\<lambda>k. \<not> used[j := True] ! k
                   \<and> manhattan_distance first (cands ! k) \<le> thr) js))"
          using "2.IH"(2) lt nu True dj by blast
        show ?thesis using lt nu True d by (simp add: ih same)
      next
        case False
        have ih: "fst (grow_cluster cands first tgt thr js cluster used) =
           cluster @ map (\<lambda>j. cands ! j) (take (tgt - length cluster)
            (filter (\<lambda>j. \<not> used ! j \<and> manhattan_distance first (cands ! j) \<le> thr) js))"
          using "2.IH"(3) lt nu False dj by blast
        show ?thesis using lt nu False by (simp add: ih)
      qed
    qed
  qed
qed

lemma grow_cluster_length:
  assumes "distinct js" and "length cluster \<le> tgt"
  shows "length (fst (grow_cluster cands first tgt thr js cluster used)) \<le> tgt"
  using assms(2) by (simp add: grow_cluster_filter [OF assms(1)])

lemma grow_cluster_within:
  assumes "distinct js" and "\<forall>m\<in>set cluster. manhattan_distance first m \<le> thr"
    and "m \<in> set (fst (grow_cluster cands first tgt thr js cluster used))"
  shows "manhattan_distance first m \<le> thr"
proof -
  from assms(3) have "m \<in> set cluster \<or> m \<in> (\<lambda>j. cands ! j) `
      set (take (tgt - length cluster)
        (filter (\<lambda>j. \<not> used ! j \<and> manhattan_distance first (cands ! j) \<le> thr) js))"
    by (simp add: grow_cluster_filter [OF assms(1)])
  then show ?thesis
  proof
    assume "m \<in> set cluster" with assms(2) show ?thesis by blast
  next
    assume "m \<in> (\<lambda>j. cands ! j) ` set (take (tgt - length cluster)
        (filter (\<lambda>j. \<not> used ! j \<and> manhattan_distance first (cands ! j) \<le> thr) js))"
    then obtain j where j: "m = cands ! j" "j \<in> set (take (tgt - length cluster)
        (filter (\<lambda>j. \<not> used ! j \<and> manhattan_distance first (cands ! j) \<le> thr) js))"
      by blast
    from j(2) have "j \<in> set (filter (\<lambda>j. \<not> used ! j
        \<and> manhattan_distance first (cands ! j) \<le> thr) js)"
      by (rule in_set_takeD)
    with j(1) show ?thesis by simp
  qed
qed

lemma grow_cluster_hd:
  assumes "distinct js" and "cluster \<noteq> []"
  shows "fst (grow_cluster cands first tgt thr js cluster used) \<noteq> []
       \<and> hd (fst (grow_cluster cands first tgt thr js cluster used)) = hd cluster"
  using assms(2) by (simp add: grow_cluster_filter [OF assms(1)])

lemma grow_cluster_members:
  assumes "distinct js" and "\<forall>j\<in>set js. j < length cands"
    and "set cluster \<subseteq> set cands"
    and "m \<in> set (fst (grow_cluster cands first tgt thr js cluster used))"
  shows "m \<in> set cands"
proof -
  from assms(4) have "m \<in> set cluster \<or> m \<in> (\<lambda>j. cands ! j) `
      set (take (tgt - length cluster)
        (filter (\<lambda>j. \<not> used ! j \<and> manhattan_distance first (cands ! j) \<le> thr) js))"
    by (simp add: grow_cluster_filter [OF assms(1)])
  then show ?thesis
  proof
    assume "m \<in> set cluster" with assms(3) show ?thesis by blast
  next
    assume "m \<in> (\<lambda>j. cands ! j) ` set (take (tgt - length cluster)
        (filter (\<lambda>j. \<not> used ! j \<and> manhattan_distance first (cands ! j) \<le> thr) js))"
    then obtain j where j: "m = cands ! j" "j \<in> set (take (tgt - length cluster)
        (filter (\<lambda>j. \<not> used ! j \<and> manhattan_distance first (cands ! j) \<le> thr) js))"
      by blast
    from j(2) have "j \<in> set (filter (\<lambda>j. \<not> used ! j
        \<and> manhattan_distance first (cands ! j) \<le> thr) js)"
      by (rule in_set_takeD)
    then have "j < length cands" using assms(2) by simp
    with j(1) show ?thesis by simp
  qed
qed

lemma cluster_loop_emitted:
  assumes "1 \<le> tgt" and "0 \<le> thr"
    and "\<forall>i\<in>set is. i < length cands"
    and "\<forall>c\<in>set emitted. length c = tgt \<and> set c \<subseteq> set cands
            \<and> (\<forall>m\<in>set c. manhattan_distance (hd c) m \<le> thr)"
    and "c \<in> set (cluster_loop cands tgt thr is emitted used)"
  shows "length c = tgt \<and> set c \<subseteq> set cands
            \<and> (\<forall>m\<in>set c. manhattan_distance (hd c) m \<le> thr)"
  using assms
proof (induction cands tgt thr "is" emitted used rule: cluster_loop.induct)
  case (1 cands tgt thr emitted used)
  then show ?case by simp
next
  case (2 cands tgt thr i "is" emitted used)
  have rest: "\<forall>i\<in>set is. i < length cands" using "2.prems"(3) by simp
  show ?case
  proof (cases "used ! i")
    case True
    have "c \<in> set (cluster_loop cands tgt thr is emitted used)"
      using "2.prems"(5) True by simp
    then show ?thesis using "2.IH"(1) True rest "2.prems"(1,2,4) by blast
  next
    case False
    define g where "g = grow_cluster cands (cands ! i) tgt thr
        [Suc i ..< length cands] [cands ! i] (used[i := True])"
    obtain cl u where g: "g = (cl, u)" by (cases g) auto
    have cl: "cl = fst g" using g by simp
    have d: "distinct [Suc i ..< length cands]" by simp
    have i: "i < length cands" using "2.prems"(3) by simp
    have len: "length cl \<le> tgt"
      unfolding cl g_def by (rule grow_cluster_length [OF d]) (use "2.prems"(1) in simp)
    have wi: "\<forall>m\<in>set cl. manhattan_distance (cands ! i) m \<le> thr"
    proof
      fix m assume "m \<in> set cl"
      then have m: "m \<in> set (fst (grow_cluster cands (cands ! i) tgt thr
          [Suc i ..< length cands] [cands ! i] (used[i := True])))"
        unfolding cl g_def .
      show "manhattan_distance (cands ! i) m \<le> thr"
        by (rule grow_cluster_within [OF d _ m]) (use "2.prems"(2) in simp)
    qed
    have hd: "cl \<noteq> [] \<and> hd cl = cands ! i"
      unfolding cl g_def
      using grow_cluster_hd [OF d, of "[cands ! i]" cands "cands ! i" tgt thr
          "used[i := True]"] by simp
    have mem: "set cl \<subseteq> set cands"
    proof
      fix m assume "m \<in> set cl"
      then have m: "m \<in> set (fst (grow_cluster cands (cands ! i) tgt thr
          [Suc i ..< length cands] [cands ! i] (used[i := True])))"
        unfolding cl g_def .
      show "m \<in> set cands"
        by (rule grow_cluster_members [OF d _ _ m]) (use i in auto)
    qed
    let ?emitted = "if length cl \<ge> tgt then emitted @ [cl] else emitted"
    have inv: "\<forall>c\<in>set ?emitted. length c = tgt \<and> set c \<subseteq> set cands
            \<and> (\<forall>m\<in>set c. manhattan_distance (hd c) m \<le> thr)"
      using "2.prems"(4) len wi hd mem by auto
    have "c \<in> set (cluster_loop cands tgt thr is ?emitted u)"
      using "2.prems"(5) False g unfolding g_def by simp
    moreover have "(cl, u) = grow_cluster cands (cands ! i) tgt thr
        [Suc i ..< length cands] [cands ! i] (used[i := True])"
      using g unfolding g_def by simp
    ultimately show ?thesis
      using "2.IH"(2) [OF False _ refl "2.prems"(1,2) rest inv] by blast
  qed
qed

text \<open>
  C8 (as the code has it).  The clustering takes the candidates in the order given, never
  sorting them; for a target size of at least one and a non-negative threshold, every
  emitted cluster has exactly the target size, consists of candidates, and each of its
  members is within the threshold of its first member.  The three passes use the
  threshold 10000.  The growth of a cluster does not stop at a candidate that is too far:
  see \<open>grow_cluster_filter\<close> and the counterexample below.
\<close>

theorem simple_distance_clustering_emitted:
  assumes "1 \<le> target" and "target < 2 ^ 64" and "0 \<le> thr"
    and "c \<in> set (simple_distance_clustering cands target thr)"
  shows "length c = nat target \<and> set c \<subseteq> set cands
       \<and> (\<forall>m\<in>set c. manhattan_distance (hd c) m \<le> thr)
       \<and> FSDN_2BIT_BANKING_distance = 10000 \<and> FSDN_4BIT_BANKING_distance = 10000
       \<and> LSRDPQ_4BIT_BANKING_distance = 10000"
proof -
  have t: "size_t_of_int target = nat target"
    using assms(1,2) by (simp add: size_t_of_int_small)
  have "1 \<le> nat target" using assms(1) by simp
  from cluster_loop_emitted [OF this assms(3), of "[0 ..< length cands]" cands "[]" c
      "replicate (length cands) False"] assms(4)
  show ?thesis
    by (simp add: simple_distance_clustering_def t FSDN_2BIT_BANKING_distance_def
        FSDN_4BIT_BANKING_distance_def LSRDPQ_4BIT_BANKING_distance_def)
qed

lemma size_t_of_int_2: "size_t_of_int 2 = 2"
  by (simp add: size_t_of_int_def)

lemma ex_clustering:
  "simple_distance_clustering
     [ex_inst ''a'' 0 0, ex_inst ''b'' 100 20000, ex_inst ''c'' 200 0] 2 10000
   = [[ex_inst ''a'' 0 0, ex_inst ''c'' 200 0]]"
  by (simp add: simple_distance_clustering_def size_t_of_int_2 upt_conv_Cons)

theorem simple_distance_clustering_emitted_witness:
  "(1::int) \<le> 2 \<and> (2::int) < 2 ^ 64 \<and> (0::real) \<le> 10000
   \<and> [ex_inst ''a'' 0 0, ex_inst ''c'' 200 0] \<in> set (simple_distance_clustering
         [ex_inst ''a'' 0 0, ex_inst ''b'' 100 20000, ex_inst ''c'' 200 0] 2 10000)
   \<and> length [ex_inst ''a'' 0 0, ex_inst ''c'' 200 0] = nat 2
   \<and> manhattan_distance (hd [ex_inst ''a'' 0 0, ex_inst ''c'' 200 0]) (ex_inst ''a'' 0 0)
         \<le> 10000
   \<and> manhattan_distance (hd [ex_inst ''a'' 0 0, ex_inst ''c'' 200 0]) (ex_inst ''c'' 200 0)
         \<le> 10000"
  using simple_distance_clustering_emitted [of 2 10000 "[ex_inst ''a'' 0 0, ex_inst ''c'' 200 0]"
      "[ex_inst ''a'' 0 0, ex_inst ''b'' 100 20000, ex_inst ''c'' 200 0]"]
  by (simp add: ex_clustering FSDN_2BIT_BANKING_distance_def
      FSDN_4BIT_BANKING_distance_def LSRDPQ_4BIT_BANKING_distance_def)

lemma ex_clustering_unsorted:
  "simple_distance_clustering [ex_inst ''c'' 200 0, ex_inst ''a'' 0 0] 2 10000
   = [[ex_inst ''c'' 200 0, ex_inst ''a'' 0 0]]"
  by (simp add: simple_distance_clustering_def size_t_of_int_2 upt_conv_Cons)

lemma ex_sorted:
  "sort_key (\<lambda>i. x (position i))
     [ex_inst ''a'' 0 0, ex_inst ''b'' 100 20000, ex_inst ''c'' 200 0]
   = [ex_inst ''a'' 0 0, ex_inst ''b'' 100 20000, ex_inst ''c'' 200 0]"
  by simp

lemma ex_spec_sweep:
  "spec_sweep_clustering
     [ex_inst ''a'' 0 0, ex_inst ''b'' 100 20000, ex_inst ''c'' 200 0] 2 10000 = []"
  by (simp add: spec_sweep_clustering_def ex_sorted del: sort_key_simps)

text \<open>
  C8 as stated fails.  Given \<open>a = (0, 0)\<close>, \<open>b = (100, 20000)\<close>, \<open>c = (200, 0)\<close> in this
  order (which is the order of \<open>position.x\<close>), with target 2 and threshold 10000, the code
  emits the cluster \<open>[a, c]\<close>: the growth did not stop at \<open>b\<close>, which is farther than the
  threshold from \<open>a\<close>, where the sweep of the specification stops and emits nothing.
  Given \<open>c, a\<close> in this order, the code emits \<open>[c, a]\<close>: the candidates are not sorted by
  \<open>position.x\<close>.
\<close>

theorem simple_distance_clustering_counterexample:
  "simple_distance_clustering
     [ex_inst ''a'' 0 0, ex_inst ''b'' 100 20000, ex_inst ''c'' 200 0] 2 10000
     = [[ex_inst ''a'' 0 0, ex_inst ''c'' 200 0]]
   \<and> manhattan_distance (ex_inst ''a'' 0 0) (ex_inst ''b'' 100 20000) > 10000
   \<and> spec_sweep_clustering
     [ex_inst ''a'' 0 0, ex_inst ''b'' 100 20000, ex_inst ''c'' 200 0] 2 10000 = []
   \<and> simple_distance_clustering [ex_inst ''c'' 200 0, ex_inst ''a'' 0 0] 2 10000
     = [[ex_inst ''c'' 200 0, ex_inst ''a'' 0 0]]
   \<and> x (position (ex_inst ''a'' 0 0)) < x (position (ex_inst ''c'' 200 0))"
  unfolding ex_clustering ex_spec_sweep ex_clustering_unsorted by simp

subsection \<open>Scoring\<close>

lemma fl_1e19: "fl 10000000000000000000 = 10000000000000000000"
proof -
  have "fl (of_int 4882812500000000 * 2 powr of_int 11) = of_int 4882812500000000 * 2 powr of_int 11"
    by (rule fl_scaled) simp
  then show ?thesis by (simp add: powr_numeral)
qed

lemma fl_1e19_plus_1: "fl 10000000000000000001 = 10000000000000000000"
proof -
  have "fl 10000000000000000001
      = of_int (round_even (10000000000000000001 * 2 powr (52 - of_int 63))) * 2 powr (of_int 63 - 52)"
    by (rule fl_binade) (simp_all add: powr_numeral)
  also have "(10000000000000000001::real) * 2 powr (52 - of_int 63) = 10000000000000000001 / 2048"
    by (simp add: powr_neg_numeral)
  also have "round_even (10000000000000000001 / 2048) = 4882812500000000"
    by (simp add: round_even_def)
  finally show ?thesis by (simp add: powr_numeral)
qed

lemma fl_1e19_plus_1000: "fl 10000000000000001000 = 10000000000000000000"
proof -
  have "fl 10000000000000001000
      = of_int (round_even (10000000000000001000 * 2 powr (52 - of_int 63))) * 2 powr (of_int 63 - 52)"
    by (rule fl_binade) (simp_all add: powr_numeral)
  also have "(10000000000000001000::real) * 2 powr (52 - of_int 63) = 10000000000000001000 / 2048"
    by (simp add: powr_neg_numeral)
  also have "round_even (10000000000000001000 / 2048) = 4882812500000000"
    by (simp add: round_even_def)
  finally show ?thesis by (simp add: powr_numeral)
qed


text \<open>
  C6.  For a flip-flop cell of the library, scored by the per-group optimal cache in the
  group it is filed under, and by the substituter's \<open>calculate_ff_score\<close>: both scores are
  the same \<open>(\<beta>\<cdot>P\<cdot>0.001 + \<gamma>\<cdot>A)/b\<close> (\<open>score_base\<close>) plus a timing term, \<open>\<alpha>\<cdot>T\<cdot>1000\<close> for the cache
  and \<open>\<alpha>\<cdot>T\<close> for the substituter, every operation rounded to a double; when the two
  timing terms and the two final sums are computed without rounding, the cache's score is
  the substituter's score plus \<open>\<alpha>\<cdot>T\<cdot>999\<close>.
\<close>

theorem score_asymmetry:
  assumes "lib cell_name = Some cell" and "ct_is_flip_flop cell"
  shows "optimal_group_score timing_repr lib w (group_bit_width cell) cell_name =
           Some (fl (score_base w cell + fl (fl (alpha w * timing_repr cell_name) * 1000)))
       \<and> calculate_ff_score timing_repr lib w cell_name =
           fl (score_base w cell + fl (alpha w * timing_repr cell_name))
       \<and> (fl (alpha w * timing_repr cell_name) = alpha w * timing_repr cell_name \<longrightarrow>
            fl (alpha w * timing_repr cell_name * 1000) = alpha w * timing_repr cell_name * 1000 \<longrightarrow>
            fl (score_base w cell + alpha w * timing_repr cell_name)
              = score_base w cell + alpha w * timing_repr cell_name \<longrightarrow>
            fl (score_base w cell + alpha w * timing_repr cell_name * 1000)
              = score_base w cell + alpha w * timing_repr cell_name * 1000 \<longrightarrow>
            the (optimal_group_score timing_repr lib w (group_bit_width cell) cell_name)
              - calculate_ff_score timing_repr lib w cell_name
              = alpha w * timing_repr cell_name * 999)"
proof -
  have bw: "(if group_bit_width cell > 0 then group_bit_width cell else 1) = max 1 (bit_width cell)"
    by (simp add: group_bit_width_def max_def)
  have s1: "optimal_group_score timing_repr lib w (group_bit_width cell) cell_name =
           Some (fl (score_base w cell + fl (fl (alpha w * timing_repr cell_name) * 1000)))"
    using assms bw by (simp add: optimal_group_score_def score_base_def Let_def)
  have s2: "calculate_ff_score timing_repr lib w cell_name =
           fl (score_base w cell + fl (alpha w * timing_repr cell_name))"
    using assms by (simp add: calculate_ff_score_def score_base_def Let_def)
  show ?thesis unfolding s1 s2 by (simp add: algebra_simps)
qed

lemma ex_cell_sel [simp]:
  "ct_is_flip_flop (ex_cell n b d)" "bit_width (ex_cell n b d) = b" "area (ex_cell n b d) = 1"
  "leakage_power (ex_cell n b d) = 1" "ct_name (ex_cell n b d) = n"
  "single_bit_degenerate (ex_cell n b d) = d" "pins (ex_cell n b d) = []"
  by (simp_all add: ex_cell_def ct_is_flip_flop_def)

theorem score_asymmetry_witness:
  "[''FF1'' \<mapsto> ex_cell ''FF1'' 1 ''null''] ''FF1'' = Some (ex_cell ''FF1'' 1 ''null'')
   \<and> ct_is_flip_flop (ex_cell ''FF1'' 1 ''null'')
   \<and> fl (2 * 7) = (2 * 7 :: real) \<and> fl (2 * 7 * 1000) = (2 * 7 * 1000 :: real)
   \<and> score_base \<lparr>alpha = 2, beta = 0, gamma = 5\<rparr> (ex_cell ''FF1'' 1 ''null'') = 5
   \<and> fl (5 + 2 * 7) = (5 + 2 * 7 :: real) \<and> fl (5 + 2 * 7 * 1000) = (5 + 2 * 7 * 1000 :: real)
   \<and> calculate_ff_score (\<lambda>n. 7) [''FF1'' \<mapsto> ex_cell ''FF1'' 1 ''null'']
         \<lparr>alpha = 2, beta = 0, gamma = 5\<rparr> ''FF1'' = 19
   \<and> the (optimal_group_score (\<lambda>n. 7) [''FF1'' \<mapsto> ex_cell ''FF1'' 1 ''null'']
         \<lparr>alpha = 2, beta = 0, gamma = 5\<rparr> 1 ''FF1'')
      - calculate_ff_score (\<lambda>n. 7) [''FF1'' \<mapsto> ex_cell ''FF1'' 1 ''null'']
         \<lparr>alpha = 2, beta = 0, gamma = 5\<rparr> ''FF1''
      = 2 * 7 * 999"
proof -
  have b: "score_base \<lparr>alpha = 2, beta = 0, gamma = 5\<rparr> (ex_cell ''FF1'' 1 ''null'') = 5"
    by (simp add: score_base_def)
  show ?thesis
    using score_asymmetry [of "[''FF1'' \<mapsto> ex_cell ''FF1'' 1 ''null'']" "''FF1''"
        "ex_cell ''FF1'' 1 ''null''" "\<lambda>n. 7" "\<lparr>alpha = 2, beta = 0, gamma = 5\<rparr>"]
    by (simp add: b group_bit_width_def)
qed

theorem score_asymmetry_counterexample:
  "[''FF_HUGE'' \<mapsto> ex_huge_cell] ''FF_HUGE'' = Some ex_huge_cell
   \<and> ct_is_flip_flop ex_huge_cell \<and> group_bit_width ex_huge_cell = 1
   \<and> calculate_ff_score (\<lambda>n. 1) [''FF_HUGE'' \<mapsto> ex_huge_cell]
         \<lparr>alpha = 1, beta = 0, gamma = 1\<rparr> ''FF_HUGE'' = 10000000000000000000
   \<and> optimal_group_score (\<lambda>n. 1) [''FF_HUGE'' \<mapsto> ex_huge_cell]
         \<lparr>alpha = 1, beta = 0, gamma = 1\<rparr> 1 ''FF_HUGE'' = Some 10000000000000000000
   \<and> the (optimal_group_score (\<lambda>n. 1) [''FF_HUGE'' \<mapsto> ex_huge_cell]
         \<lparr>alpha = 1, beta = 0, gamma = 1\<rparr> 1 ''FF_HUGE'')
      - calculate_ff_score (\<lambda>n. 1) [''FF_HUGE'' \<mapsto> ex_huge_cell]
         \<lparr>alpha = 1, beta = 0, gamma = 1\<rparr> ''FF_HUGE''
      \<noteq> 1 * 1 * 999"
  by (simp add: calculate_ff_score_def optimal_group_score_def ex_huge_cell_def
      group_bit_width_def ct_is_flip_flop_def ex_cell_def fl_1e19 fl_1e19_plus_1 fl_1e19_plus_1000)

subsection \<open>Legalizer: arithmetic on the site grid\<close>

lemma on_site_iff: "sw \<noteq> 0 \<Longrightarrow> on_site sw d \<longleftrightarrow> (\<exists>k::int. d = of_int k * sw)"
proof
  assume "on_site sw d"
  then show "\<exists>k::int. d = of_int k * sw" unfolding on_site_def by metis
next
  assume sw: "sw \<noteq> 0" and "\<exists>k::int. d = of_int k * sw"
  then obtain k :: int where "d = of_int k * sw" by blast
  then show "on_site sw d" using sw by (simp add: on_site_def)
qed

lemma on_site_int [simp]: "sw \<noteq> 0 \<Longrightarrow> on_site sw (of_int k * sw)"
  by (simp add: on_site_def)

lemma on_site_0 [simp]: "on_site sw 0"
  by (simp add: on_site_def)

lemma on_site_add: "sw \<noteq> 0 \<Longrightarrow> on_site sw a \<Longrightarrow> on_site sw b \<Longrightarrow> on_site sw (a + b)"
proof -
  assume sw: "sw \<noteq> 0" and "on_site sw a" "on_site sw b"
  then obtain k l :: int where "a = of_int k * sw" "b = of_int l * sw"
    using on_site_iff by blast
  then have "a + b = of_int (k + l) * sw" by (simp add: algebra_simps)
  then show ?thesis using sw on_site_iff by blast
qed

lemma on_site_diff: "sw \<noteq> 0 \<Longrightarrow> on_site sw a \<Longrightarrow> on_site sw b \<Longrightarrow> on_site sw (a - b)"
proof -
  assume sw: "sw \<noteq> 0" and "on_site sw a" "on_site sw b"
  then obtain k l :: int where "a = of_int k * sw" "b = of_int l * sw"
    using on_site_iff by blast
  then have "a - b = of_int (k - l) * sw" by (simp add: algebra_simps)
  then show ?thesis using sw on_site_iff by blast
qed

lemma on_site_sum_list:
  "sw \<noteq> 0 \<Longrightarrow> \<forall>a\<in>set xs. on_site sw a \<Longrightarrow> on_site sw (sum_list xs)"
  by (induction xs) (auto intro: on_site_add)

lemma on_site_Ints: "sw \<in> \<int> \<Longrightarrow> sw \<noteq> 0 \<Longrightarrow> on_site sw d \<Longrightarrow> d \<in> \<int>"
proof -
  assume sw: "sw \<in> \<int>" "sw \<noteq> 0" and "on_site sw d"
  then obtain k :: int where "d = of_int k * sw" using on_site_iff by blast
  then show ?thesis using sw(1) by simp
qed

text \<open>On integer-valued geometry the placed width of a cell is computed without rounding.\<close>

lemma placedCellWidth_grid:
  assumes sw: "grid sw" "0 < sw" and w: "grid w" "0 \<le> w"
  shows "placedCellWidth sw w = of_int \<lceil>w / sw\<rceil> * sw"
proof -
  from sw w have i: "sw \<in> \<int>" "w \<in> \<int>" and b: "sw \<le> 2 ^ 40" "w \<le> 2 ^ 40"
    by (simp_all add: grid_def)
  have "\<bar>w\<bar> < 2 ^ 53" using b(2) w(2) by simp
  from ceiling_fl_div [OF i(2) i(1) sw(2) this]
  have c: "\<lceil>fl (w / sw)\<rceil> = \<lceil>w / sw\<rceil>" .
  have q0: "0 \<le> w / sw" using w(2) sw(2) by simp
  then have c0: "0 \<le> \<lceil>w / sw\<rceil>" by (simp add: ceiling_le_iff [symmetric] le_ceiling_iff)
  have "of_int \<lceil>w / sw\<rceil> < w / sw + 1" by linarith
  then have "of_int \<lceil>w / sw\<rceil> * sw < (w / sw + 1) * sw"
    using sw(2) by (simp only: mult_strict_right_mono)
  also have "\<dots> = w + sw" using sw(2) by (simp add: field_simps)
  finally have u: "of_int \<lceil>w / sw\<rceil> * sw < w + sw" .
  have l: "0 \<le> of_int \<lceil>w / sw\<rceil> * sw" using c0 sw(2) by simp
  have "fl (of_int \<lceil>w / sw\<rceil> * sw) = of_int \<lceil>w / sw\<rceil> * sw"
    by (rule fl_mult_Ints) (use i l u b in simp_all)
  then show ?thesis by (simp add: placedCellWidth_def c)
qed

lemma on_site_placedCellWidth:
  "grid sw \<Longrightarrow> 0 < sw \<Longrightarrow> grid w \<Longrightarrow> 0 \<le> w \<Longrightarrow> on_site sw (placedCellWidth sw w)"
  by (simp add: placedCellWidth_grid)

lemma placedCellWidth_ge:
  assumes "grid sw" "0 < sw" "grid w" "0 \<le> w"
  shows "w \<le> placedCellWidth sw w"
proof -
  have "w / sw \<le> of_int \<lceil>w / sw\<rceil>" by (rule le_of_int_ceiling)
  then have "w \<le> of_int \<lceil>w / sw\<rceil> * sw"
    by (simp only: pos_divide_le_eq [OF assms(2)])
  then show ?thesis by (simp only: placedCellWidth_grid [OF assms])
qed

lemma placedCellWidth_nonneg:
  "grid sw \<Longrightarrow> 0 < sw \<Longrightarrow> grid w \<Longrightarrow> 0 \<le> w \<Longrightarrow> 0 \<le> placedCellWidth sw w"
  using placedCellWidth_ge [of sw w] by linarith

lemma placedCellWidth_le:
  assumes g: "grid sw" "0 < sw" "grid w" "0 \<le> w" and "w \<le> U" and "on_site sw U"
  shows "placedCellWidth sw w \<le> U"
proof -
  note sw = g(2)
  obtain k :: int where k: "U = of_int k * sw" using assms on_site_iff [of sw U] by auto
  have "w / sw \<le> of_int k" using assms(5) sw k by (simp add: pos_divide_le_eq)
  then have "\<lceil>w / sw\<rceil> \<le> k" by (simp add: ceiling_le_iff)
  then have "of_int \<lceil>w / sw\<rceil> * sw \<le> of_int k * sw"
    using sw by (simp add: mult_right_mono)
  then show ?thesis using k by (simp add: placedCellWidth_grid [OF g])
qed

lemma floor_snap_on_site [simp]: "sw \<noteq> 0 \<Longrightarrow> on_site sw (of_int \<lfloor>a / sw\<rfloor> * sw)"
  by simp

lemma floor_snap_le: "0 < sw \<Longrightarrow> of_int \<lfloor>a / sw\<rfloor> * sw \<le> a"
proof -
  assume sw: "0 < sw"
  have "of_int \<lfloor>a / sw\<rfloor> \<le> a / sw" by (rule of_int_floor_le)
  then show ?thesis by (simp only: pos_le_divide_eq [OF sw])
qed

lemma floor_snap_gt: "0 < sw \<Longrightarrow> a - sw < of_int \<lfloor>a / sw\<rfloor> * sw"
proof -
  assume sw: "0 < sw"
  have "a / sw < of_int \<lfloor>a / sw\<rfloor> + 1" by linarith
  then have "a / sw * sw < (of_int \<lfloor>a / sw\<rfloor> + 1) * sw"
    using sw by (simp only: mult_strict_right_mono)
  then show ?thesis using sw by (simp add: algebra_simps)
qed

lemma floor_snap_ge:
  assumes sw: "0 < sw" and "on_site sw b" and "b \<le> a"
  shows "b \<le> of_int \<lfloor>a / sw\<rfloor> * sw"
proof -
  obtain k :: int where k: "b = of_int k * sw" using assms on_site_iff [of sw b] by auto
  have "of_int k \<le> a / sw" using assms(3) sw k by (simp add: pos_le_divide_eq)
  then have "k \<le> \<lfloor>a / sw\<rfloor>" by (simp add: le_floor_iff)
  then have "of_int k * sw \<le> of_int \<lfloor>a / sw\<rfloor> * sw" using sw by (simp add: mult_right_mono)
  then show ?thesis using k by simp
qed

lemma floor_snap_fixed: "sw \<noteq> 0 \<Longrightarrow> on_site sw a \<Longrightarrow> of_int \<lfloor>a / sw\<rfloor> * sw = a"
  by (simp add: on_site_def)

lemma floor_site_diff:
  assumes sw: "0 < sw"
  shows "of_int \<lfloor>(of_int k * sw - w) / sw\<rfloor> * sw = of_int k * sw - of_int \<lceil>w / sw\<rceil> * sw"
proof -
  have "(of_int k * sw - w) / sw = - (w / sw) + of_int k"
    using sw by (simp add: field_simps)
  then have "\<lfloor>(of_int k * sw - w) / sw\<rfloor> = \<lfloor>- (w / sw) + of_int k\<rfloor>" by simp
  also have "\<dots> = \<lfloor>- (w / sw)\<rfloor> + k" by (simp add: floor_add_int)
  also have "\<dots> = k - \<lceil>w / sw\<rceil>" by (simp add: floor_minus)
  finally have "\<lfloor>(of_int k * sw - w) / sw\<rfloor> = k - \<lceil>w / sw\<rceil>" .
  then have "of_int \<lfloor>(of_int k * sw - w) / sw\<rfloor> * sw = of_int (k - \<lceil>w / sw\<rceil>) * sw"
    by (simp only:)
  then show ?thesis by (simp add: algebra_simps)
qed

text \<open>
  Snapping to the site below: with integer operands of moderate size none of the three
  operations rounds.
\<close>

lemma snap_exact:
  assumes sw: "grid sw" "0 < sw" and a: "a \<in> \<int>" "\<bar>a\<bar> \<le> 2 ^ 42" and b: "grid b"
  shows "fl (fl (of_int \<lfloor>fl (a / sw)\<rfloor> * sw) + b) = of_int \<lfloor>a / sw\<rfloor> * sw + b"
proof -
  from sw b have i: "sw \<in> \<int>" "b \<in> \<int>" and bd: "sw \<le> 2 ^ 40" "\<bar>b\<bar> \<le> 2 ^ 40"
    by (simp_all add: grid_def)
  have "\<bar>a\<bar> < 2 ^ 53" using a(2) by simp
  from floor_fl_div [OF a(1) i(1) sw(2) this]
  have f: "\<lfloor>fl (a / sw)\<rfloor> = \<lfloor>a / sw\<rfloor>" .
  define p where "p = of_int \<lfloor>a / sw\<rfloor> * sw"
  have pi: "p \<in> \<int>" using i(1) by (simp add: p_def)
  have "p \<le> a" unfolding p_def by (rule floor_snap_le [OF sw(2)])
  moreover have "a - sw < p" unfolding p_def by (rule floor_snap_gt [OF sw(2)])
  ultimately have pb: "\<bar>p\<bar> \<le> 2 ^ 42 + 2 ^ 40" using a(2) bd(1) sw(2) by (simp add: abs_le_iff)
  have e1: "fl p = p" by (rule fl_Ints [OF pi]) (use pb in simp)
  have e2: "fl (p + b) = p + b"
    by (rule fl_add_Ints [OF pi i(2)]) (use pb bd(2) in \<open>simp add: abs_le_iff\<close>)
  show ?thesis unfolding f p_def [symmetric] e1 e2 ..
qed

text \<open>
  Snapping from an arbitrary site index \<open>k\<close>: either nothing rounds, or the result is far
  outside every sub-row.
\<close>

lemma snap_cases:
  fixes k :: int
  assumes sw: "grid sw" "0 < sw" and b: "grid b"
  shows "(fl (fl (of_int k * sw) + b) = of_int k * sw + b \<and> \<bar>of_int k * sw\<bar> \<le> 2 ^ 52)
       \<or> 2 ^ 41 < fl (fl (of_int k * sw) + b)
       \<or> fl (fl (of_int k * sw) + b) < - (2 ^ 41)"
proof -
  from sw b have i: "sw \<in> \<int>" "b \<in> \<int>" and bd: "sw \<le> 2 ^ 40" "\<bar>b\<bar> \<le> 2 ^ 40"
    by (simp_all add: grid_def)
  define p where "p = of_int k * sw"
  have pi: "p \<in> \<int>" using i(1) by (simp add: p_def)
  consider (small) "\<bar>p\<bar> \<le> 2 ^ 52" | (pos) "2 ^ 52 < p" | (neg) "p < - (2 ^ 52)"
    by (cases "0 \<le> p") (simp_all add: abs_le_iff not_le; linarith)+
  then show ?thesis
  proof cases
    case small
    have e1: "fl p = p" by (rule fl_Ints [OF pi]) (use small in simp)
    have e2: "fl (p + b) = p + b"
      by (rule fl_add_Ints [OF pi i(2)]) (use small bd(2) in \<open>simp add: abs_le_iff\<close>)
    show ?thesis unfolding p_def [symmetric] e1 e2 using small by simp
  next
    case pos
    have "p - p / 2 ^ 53 \<le> fl p" by (rule fl_lower) (use pos in simp)
    then have u: "2 ^ 51 \<le> fl p" using pos by (simp add: field_simps)
    have s0: "0 \<le> fl p + b" using u bd(2) by (simp add: abs_le_iff)
    have "(fl p + b) - (fl p + b) / 2 ^ 53 \<le> fl (fl p + b)" by (rule fl_lower [OF s0])
    moreover have "2 ^ 50 \<le> fl p + b" using u bd(2) by (simp add: abs_le_iff)
    ultimately have "2 ^ 41 < fl (fl p + b)" by (simp add: field_simps)
    then show ?thesis unfolding p_def [symmetric] by simp
  next
    case neg
    have n: "0 \<le> - p" using neg by simp
    have "\<bar>fl p - p\<bar> \<le> - (p / 2 ^ 53)" using fl_rel [of p] neg by simp
    then have "fl p \<le> p - p / 2 ^ 53" by linarith
    then have u: "fl p \<le> - (2 ^ 51)" using neg by simp
    have s0: "fl p + b \<le> - (2 ^ 50)" using u bd(2) by (simp add: abs_le_iff)
    define t where "t = fl p + b"
    have t0: "t \<le> - (2 ^ 50)" using s0 by (simp add: t_def)
    have "\<bar>fl t - t\<bar> \<le> - (t / 2 ^ 53)" using fl_rel [of t] t0 by simp
    then have "fl t \<le> t - t / 2 ^ 53" by linarith
    then have "fl t < - (2 ^ 41)" using t0 by simp
    then have "fl (fl p + b) \<le> (fl p + b) - (fl p + b) / 2 ^ 53 \<and> fl (fl p + b) < - (2 ^ 41)"
      using \<open>fl t \<le> t - t / 2 ^ 53\<close> by (simp add: t_def)
    then show ?thesis unfolding p_def [symmetric] by simp
  qed
qed


lemma grid_bounds: "grid v \<Longrightarrow> - (2 ^ 40) \<le> v \<and> v \<le> 2 ^ 40"
  by (simp add: grid_def abs_le_iff; linarith)

lemma nominal_x_exact:
  assumes sw: "grid sw" "0 < sw"
    and g: "grid (x_min sr)" "grid (x_max sr)" "grid px" "grid w"
  shows "nominal_x px w sr sw =
     (if px \<le> x_min sr then x_min sr
      else if px + w \<ge> x_max sr
        then of_int \<lfloor>(x_max sr - w - x_min sr) / sw\<rfloor> * sw + x_min sr
      else of_int \<lfloor>(px - x_min sr) / sw\<rfloor> * sw + x_min sr)"
proof -
  from g have i: "x_min sr \<in> \<int>" "x_max sr \<in> \<int>" "px \<in> \<int>" "w \<in> \<int>"
    by (simp_all add: grid_def)
  note b = grid_bounds [OF g(1)] grid_bounds [OF g(2)] grid_bounds [OF g(3)] grid_bounds [OF g(4)]
  have e1: "fl (px + w) = px + w"
    by (rule fl_add_Ints [OF i(3,4)]) (use b in \<open>simp add: abs_le_iff\<close>)
  have e2: "fl (x_max sr - w) = x_max sr - w"
    by (rule fl_diff_Ints [OF i(2,4)]) (use b in \<open>simp add: abs_le_iff\<close>)
  have i2: "x_max sr - w \<in> \<int>" using i by simp
  have e3: "fl (x_max sr - w - x_min sr) = x_max sr - w - x_min sr"
    by (rule fl_diff_Ints [OF i2 i(1)]) (use b in \<open>simp add: abs_le_iff\<close>)
  have e4: "fl (px - x_min sr) = px - x_min sr"
    by (rule fl_diff_Ints [OF i(3,1)]) (use b in \<open>simp add: abs_le_iff\<close>)
  have s1: "fl (fl (of_int \<lfloor>fl ((x_max sr - w - x_min sr) / sw)\<rfloor> * sw) + x_min sr)
      = of_int \<lfloor>(x_max sr - w - x_min sr) / sw\<rfloor> * sw + x_min sr"
    by (rule snap_exact [OF sw _ _ g(1)]) (use i b in \<open>simp_all add: abs_le_iff\<close>)
  have s2: "fl (fl (of_int \<lfloor>fl ((px - x_min sr) / sw)\<rfloor> * sw) + x_min sr)
      = of_int \<lfloor>(px - x_min sr) / sw\<rfloor> * sw + x_min sr"
    by (rule snap_exact [OF sw _ _ g(1)]) (use i b in \<open>simp_all add: abs_le_iff\<close>)
  show ?thesis by (simp only: nominal_x_def e1 e2 e3 e4 s1 s2)
qed

lemma nominal_x_ok:
  assumes sw: "grid sw" "0 < sw"
    and g: "grid (x_min sr)" "grid (x_max sr)" "grid px" "grid w" and w0: "0 \<le> w"
    and L: "on_site sw (x_max sr - x_min sr)"
    and fit: "placedCellWidth sw w \<le> x_max sr - x_min sr"
  shows "x_min sr \<le> nominal_x px w sr sw
       \<and> nominal_x px w sr sw + placedCellWidth sw w \<le> x_max sr
       \<and> on_site sw (nominal_x px w sr sw - x_min sr)"
proof -
  note swp = sw(2)
  have sw0: "sw \<noteq> 0" using swp by simp
  note ne = nominal_x_exact [OF sw g, of ]
  note pw = placedCellWidth_grid [OF sw g(4) w0]
  obtain k :: int where k: "x_max sr - x_min sr = of_int k * sw"
    using L on_site_iff [OF sw0] by blast
  consider (a) "px \<le> x_min sr"
    | (b) "\<not> px \<le> x_min sr" "px + w \<ge> x_max sr"
    | (c) "\<not> px \<le> x_min sr" "\<not> px + w \<ge> x_max sr" by blast
  then show ?thesis
  proof cases
    case a
    then show ?thesis using fit by (simp add: ne)
  next
    case b
    have e: "x_max sr - w - x_min sr = of_int k * sw - w" using k by simp
    have "nominal_x px w sr sw = of_int \<lfloor>(x_max sr - w - x_min sr) / sw\<rfloor> * sw + x_min sr"
      using b by (simp add: ne)
    then have t: "nominal_x px w sr sw = of_int k * sw - placedCellWidth sw w + x_min sr"
      unfolding e floor_site_diff [OF swp] pw .
    have "on_site sw (of_int k * sw - placedCellWidth sw w)"
      by (intro on_site_diff sw0 on_site_int on_site_placedCellWidth sw g w0)
    then show ?thesis using t fit k by simp
  next
    case c
    define j where "j = \<lfloor>(px - x_min sr) / sw\<rfloor>"
    have t: "nominal_x px w sr sw = of_int j * sw + x_min sr"
      using c by (simp add: ne j_def)
    have jle: "of_int j * sw \<le> px - x_min sr"
      unfolding j_def by (rule floor_snap_le [OF swp])
    have "0 \<le> (px - x_min sr) / sw" using c(1) swp by simp
    then have "0 \<le> j" unfolding j_def by simp
    then have j0: "0 \<le> of_int j * sw" using swp by simp
    have "w \<le> of_int (k - j) * sw"
      using jle c(2) k by (simp add: algebra_simps)
    then have "placedCellWidth sw w \<le> of_int (k - j) * sw"
      by (rule placedCellWidth_le [OF sw g(4) w0]) (rule on_site_int [OF sw0])
    then have "of_int j * sw + placedCellWidth sw w \<le> x_max sr - x_min sr"
      using k by (simp add: algebra_simps)
    then show ?thesis using t j0 sw0 by simp
  qed
qed

subsection \<open>Legalizer: Collapse keeps the packing\<close>

lemma collapse_x_ok:
  assumes sw: "grid sw" "0 < sw" and g: "grid xmin" "grid xmax"
    and L: "on_site sw (xmax - xmin)"
    and w: "on_site sw (cl_width c)" and w0: "0 \<le> cl_width c"
    and fit: "cl_width c \<le> xmax - xmin"
  shows "xmin \<le> collapse_x c xmin xmax xmin sw
       \<and> collapse_x c xmin xmax xmin sw + cl_width c \<le> xmax
       \<and> on_site sw (collapse_x c xmin xmax xmin sw - xmin)"
proof -
  have sw0: "sw \<noteq> 0" using sw(2) by simp
  from sw g have i: "sw \<in> \<int>" "xmin \<in> \<int>" "xmax \<in> \<int>" by (simp_all add: grid_def)
  note b = grid_bounds [OF g(1)] grid_bounds [OF g(2)]
  define W where "W = cl_width c"
  have Wi: "W \<in> \<int>" unfolding W_def by (rule on_site_Ints [OF i(1) sw0 w])
  have Wb: "0 \<le> W" "W \<le> 2 ^ 41" using w0 fit b by (simp_all add: W_def)
  define k where "k = \<lfloor>fl (fl (fl (q c / cl_weight c) - xmin) / sw)\<rfloor>"
  define xb where "xb = fl (fl (of_int k * sw) + xmin)"
  define xc where "xc = (if xb < xmin then xmin else xb)"
  have xd: "collapse_x c xmin xmax xmin sw = (if fl (xc + W) > xmax then fl (xmax - W) else xc)"
    by (simp add: collapse_x_def Let_def xb_def xc_def k_def W_def)
  have e: "xmax - W - xmin = (xmax - xmin) - W" by simp
  have hi: "on_site sw (xmax - W - xmin)"
    unfolding e by (rule on_site_diff [OF sw0 L]) (use w in \<open>simp add: W_def\<close>)
  have ehi: "fl (xmax - W) = xmax - W"
    by (rule fl_diff_Ints [OF i(3) Wi]) (use b Wb in \<open>simp add: abs_le_iff\<close>)
  have fitW: "W \<le> xmax - xmin" using fit by (simp add: W_def)
  from snap_cases [OF sw g(1), of k]
  consider (ex) "xb = of_int k * sw + xmin" "\<bar>of_int k * sw\<bar> \<le> 2 ^ 52"
    | (pos) "2 ^ 41 < xb" | (neg) "xb < - (2 ^ 41)"
    unfolding xb_def by blast
  then have "xmin \<le> (if fl (xc + W) > xmax then fl (xmax - W) else xc)
       \<and> (if fl (xc + W) > xmax then fl (xmax - W) else xc) + W \<le> xmax
       \<and> on_site sw ((if fl (xc + W) > xmax then fl (xmax - W) else xc) - xmin)"
  proof cases
    case ex
    have "on_site sw (xb - xmin)" unfolding ex(1) using sw0 by simp
    then have xc1: "on_site sw (xc - xmin)" by (simp add: xc_def)
    have xc2: "xmin \<le> xc" by (simp add: xc_def)
    have xbi: "xb \<in> \<int>" unfolding ex(1) using i by simp
    have xci: "xc \<in> \<int>" using xbi i by (simp add: xc_def)
    have "\<bar>xb\<bar> \<le> 2 ^ 52 + 2 ^ 40" unfolding ex(1) using ex(2) b by (simp add: abs_le_iff)
    then have "\<bar>xc\<bar> \<le> 2 ^ 52 + 2 ^ 40" using b by (simp add: xc_def abs_le_iff)
    then have es: "fl (xc + W) = xc + W"
      by (intro fl_add_Ints xci Wi) (use Wb in \<open>simp add: abs_le_iff\<close>)
    show ?thesis unfolding es ehi using xc1 xc2 hi fitW by auto
  next
    case pos
    have xcb: "xc = xb" using pos b by (simp add: xc_def)
    have s0: "0 \<le> xb + W" using pos Wb by simp
    have "(xb + W) - (xb + W) / 2 ^ 53 \<le> fl (xb + W)" by (rule fl_lower [OF s0])
    moreover have "2 ^ 41 < xb + W" using pos Wb by simp
    ultimately have "2 ^ 40 < fl (xb + W)" by (simp add: field_simps)
    then have "fl (xc + W) > xmax" using b by (simp add: xcb)
    then show ?thesis unfolding ehi using hi fitW by simp
  next
    case neg
    have xcb: "xc = xmin" using neg b by (simp add: xc_def)
    have es: "fl (xmin + W) = xmin + W"
      by (intro fl_add_Ints i Wi) (use b Wb in \<open>simp add: abs_le_iff\<close>)
    show ?thesis unfolding xcb es ehi using hi fitW by auto
  qed
  then show ?thesis unfolding xd W_def .
qed

lemma chain_ok_bound:
  "chain_ok xmin sw W b cs \<Longrightarrow> b \<le> b' \<Longrightarrow> chain_ok xmin sw W b' cs"
  by (cases cs) auto

lemma chain_ok_total:
  "chain_ok xmin sw W b cs \<Longrightarrow> xmin + sum_list (map cl_width cs) \<le> b"
proof (induction cs arbitrary: b)
  case Nil
  then show ?case by simp
next
  case (Cons c cs)
  from Cons.prems have "chain_ok xmin sw W (cl_x c) cs" and e: "cl_x c + cl_width c \<le> b" by auto
  from Cons.IH [OF this(1)] e show ?case by simp
qed

lemma sum_list_nonneg_W: "\<forall>nm. 0 \<le> (W nm :: real) \<Longrightarrow> 0 \<le> sum_list (map W ns)"
  by (induction ns) auto

lemma chain_ok_widths_nonneg:
  "chain_ok xmin sw W b cs \<Longrightarrow> \<forall>nm. 0 \<le> W nm \<Longrightarrow> 0 \<le> sum_list (map cl_width cs)"
proof (induction cs arbitrary: b)
  case Nil
  then show ?case by simp
next
  case (Cons c cs)
  from Cons.prems(1) have "chain_ok xmin sw W (cl_x c) cs"
    and w: "cl_width c = sum_list (map W (cellInCluster c))" by auto
  from Cons.IH [OF this(1) Cons.prems(2)] sum_list_nonneg_W [OF Cons.prems(2), of "cellInCluster c"] w
  show ?case by simp
qed

text \<open>The position and the width of the last cluster of a packing are integers in range.\<close>

lemma chain_ok_head:
  assumes ch: "chain_ok xmin sw W b (c # cs)" and W0: "\<forall>nm. 0 \<le> W nm"
    and sw: "grid sw" "0 < sw" and g: "grid xmin" "grid xmax" and b: "b \<le> xmax"
    and Ws: "\<forall>nm. on_site sw (W nm)"
  shows "cl_x c \<in> \<int>" "cl_width c \<in> \<int>" "xmin \<le> cl_x c" "0 \<le> cl_width c"
    "cl_x c + cl_width c \<le> xmax" "fl (cl_x c + cl_width c) = cl_x c + cl_width c"
proof -
  have sw0: "sw \<noteq> 0" using sw(2) by simp
  from sw g have i: "sw \<in> \<int>" "xmin \<in> \<int>" "xmax \<in> \<int>" by (simp_all add: grid_def)
  note bd = grid_bounds [OF g(1)] grid_bounds [OF g(2)]
  from ch have r: "chain_ok xmin sw W (cl_x c) cs" and e: "cl_x c + cl_width c \<le> b"
    and o: "on_site sw (cl_x c - xmin)" and w: "cl_width c = sum_list (map W (cellInCluster c))"
    by auto
  have "cl_x c - xmin \<in> \<int>" by (rule on_site_Ints [OF i(1) sw0 o])
  then have "cl_x c - xmin + xmin \<in> \<int>" using i(2) by (rule Ints_add)
  then show xi: "cl_x c \<in> \<int>" by simp
  have "on_site sw (cl_width c)"
    unfolding w by (rule on_site_sum_list [OF sw0]) (use Ws in auto)
  then show wi: "cl_width c \<in> \<int>" by (rule on_site_Ints [OF i(1) sw0])
  from chain_ok_total [OF r] chain_ok_widths_nonneg [OF r W0]
  show lo: "xmin \<le> cl_x c" by simp
  show w0: "0 \<le> cl_width c" unfolding w by (rule sum_list_nonneg_W [OF W0])
  show up: "cl_x c + cl_width c \<le> xmax" using e b by simp
  show "fl (cl_x c + cl_width c) = cl_x c + cl_width c"
    by (rule fl_add_Ints [OF xi wi]) (use lo w0 up bd in \<open>simp add: abs_le_iff\<close>)
qed

lemma Collapse_ok:
  assumes sw: "grid sw" "0 < sw" and g: "grid xmin" "grid xmax"
    and L: "on_site sw (xmax - xmin)"
    and W: "\<forall>nm. on_site sw (W nm)"
    and W0: "\<forall>nm. 0 \<le> W nm"
  shows "cl_width c = sum_list (map W (cellInCluster c)) \<Longrightarrow> 0 < cl_weight c \<Longrightarrow>
     chain_ok xmin sw W b lefts \<Longrightarrow> b \<le> xmax \<Longrightarrow>
     cl_width c + sum_list (map cl_width lefts) \<le> xmax - xmin \<Longrightarrow>
     chain_ok xmin sw W xmax (Collapse c lefts xmin xmax xmin sw)
     \<and> sum_list (map cl_width (Collapse c lefts xmin xmax xmin sw))
          = cl_width c + sum_list (map cl_width lefts)
     \<and> mset (concat (map cellInCluster (Collapse c lefts xmin xmax xmin sw)))
          = mset (cellInCluster c) + mset (concat (map cellInCluster lefts))"
proof (induction lefts arbitrary: c b)
  case Nil
  have sw0: "sw \<noteq> 0" using sw(2) by simp
  have wsite: "on_site sw (cl_width c)"
    unfolding Nil.prems(1) by (rule on_site_sum_list [OF sw0]) (use W in auto)
  have w0: "0 \<le> cl_width c" unfolding Nil.prems(1) by (rule sum_list_nonneg_W [OF W0])
  have fit: "cl_width c \<le> xmax - xmin" using Nil.prems(5) by simp
  from collapse_x_ok [OF sw g L wsite w0 fit] Nil.prems(1,2)
  show ?case by simp
next
  case (Cons pred lefts)
  have sw0: "sw \<noteq> 0" using sw(2) by simp
  from sw g have i: "sw \<in> \<int>" "xmin \<in> \<int>" "xmax \<in> \<int>" by (simp_all add: grid_def)
  note bd = grid_bounds [OF g(1)] grid_bounds [OF g(2)]
  have wsite: "on_site sw (cl_width c)"
    unfolding Cons.prems(1) by (rule on_site_sum_list [OF sw0]) (use W in auto)
  have wi: "cl_width c \<in> \<int>" by (rule on_site_Ints [OF i(1) sw0 wsite])
  have w0: "0 \<le> cl_width c" unfolding Cons.prems(1) by (rule sum_list_nonneg_W [OF W0])
  from Cons.prems(3) have p: "on_site sw (cl_x pred - xmin)"
      "cl_width pred = sum_list (map W (cellInCluster pred))" "0 < cl_weight pred"
      "chain_ok xmin sw W (cl_x pred) lefts" by auto
  note ph = chain_ok_head [OF Cons.prems(3) W0 sw g Cons.prems(4) W]
  have tot: "0 \<le> sum_list (map cl_width (pred # lefts))"
    by (rule chain_ok_widths_nonneg [OF Cons.prems(3) W0])
  then have fit: "cl_width c \<le> xmax - xmin" using Cons.prems(5) by simp
  have tl: "0 \<le> sum_list (map cl_width lefts)"
    by (rule chain_ok_widths_nonneg [OF p(4) W0])
  define xd where "xd = collapse_x c xmin xmax xmin sw"
  note xd = collapse_x_ok [OF sw g L wsite w0 fit, folded xd_def]
  have ew: "fl (cl_width pred + cl_width c) = cl_width pred + cl_width c"
    by (rule fl_add_Ints [OF ph(2) wi])
      (use ph(4) w0 Cons.prems(5) tl bd in \<open>simp add: abs_le_iff\<close>)
  show ?case
  proof (cases "cl_x pred + cl_width pred > xd")
    case True
    define m where "m = AddCluster pred (c\<lparr>cl_x := xd\<rparr>)"
    have m4: "cl_width m = cl_width pred + cl_width c"
        "cellInCluster m = cellInCluster pred @ cellInCluster c"
      by (simp_all add: m_def AddCluster_def Let_def ew)
    have m1: "cl_width m = sum_list (map W (cellInCluster m))"
      using p(2) Cons.prems(1) by (simp add: m4)
    have "0 < cl_weight pred + cl_weight c" using p(3) Cons.prems(2) by simp
    then have m2: "0 < cl_weight m"
      by (simp add: m_def AddCluster_def Let_def fl_pos)
    have m3: "cl_width m + sum_list (map cl_width lefts) \<le> xmax - xmin"
      using Cons.prems(5) by (simp add: m4)
    have bx: "cl_x pred \<le> xmax" using ph(4,5) by simp
    have eq: "Collapse c (pred # lefts) xmin xmax xmin sw = Collapse m lefts xmin xmax xmin sw"
      using True by (simp add: Let_def xd_def m_def ph(6))
    from Cons.IH [OF m1 m2 p(4) bx m3] show ?thesis
      unfolding eq by (simp add: m4)
  next
    case False
    have eq: "Collapse c (pred # lefts) xmin xmax xmin sw = c\<lparr>cl_x := xd\<rparr> # pred # lefts"
      using False by (simp add: Let_def xd_def ph(6))
    show ?thesis unfolding eq using xd False p Cons.prems(1,2) by simp
  qed
qed

subsection \<open>Legalizer: the committing \<open>placeRow\<close> keeps a sub-row well formed\<close>

lemma placeRow_final_subrow:
  "cell_template inst = Some ct \<Longrightarrow>
   snd (snd (placeRow md insts row nm inst sr True chk)) =
     (let pcw = placedCellWidth (site_width row) (ct_width ct);
          t = nominal_x (x (position inst)) (ct_width ct) sr (site_width row);
          sr1 = sr\<lparr>Usewidth := fl (Usewidth sr - pcw)\<rparr>
      in case clusters sr of
           [] \<Rightarrow> sr1\<lparr>clusters := [AddCell \<lparr>cl_x = t, cl_width = 0, cl_weight = 0, q = 0,
                     cellInCluster = []\<rparr> nm (inst\<lparr>x_new := t, y_new := y (origin row)\<rparr>) t pcw]\<rparr>
         | lastC # lefts \<Rightarrow>
             if fl (cl_x lastC + cl_width lastC) \<le> t
             then sr1\<lparr>clusters := AddCell \<lparr>cl_x = t, cl_width = 0, cl_weight = 0, q = 0,
                     cellInCluster = []\<rparr> nm (inst\<lparr>x_new := t, y_new := y (origin row)\<rparr>) t pcw
                     # lastC # lefts\<rparr>
             else sr1\<lparr>clusters := Collapse (AddCell lastC nm inst t pcw) lefts
                     (x_min sr) (x_max sr) (x_min sr) (site_width row)\<rparr>)"
  by (simp add: placeRow_def Let_def split: list.splits)

lemma placeRow_instance:
  "placeRow md insts row nm inst sr final chk = (cost, inst', sr') \<Longrightarrow>
   inst' = inst\<lparr>x_new := x_new inst', y_new := y_new inst'\<rparr>"
  by (auto simp: placeRow_def Let_def split: option.splits list.splits if_splits prod.splits)

lemma placeRow_trial_subrow:
  "snd (snd (placeRow md insts row nm inst sr False chk)) = sr"
  by (auto simp: placeRow_def Let_def split: option.splits list.splits if_splits prod.splits)

lemma chain_ok_widths_site:
  "chain_ok xmin sw W b cs \<Longrightarrow> sw \<noteq> 0 \<Longrightarrow> \<forall>nm. on_site sw (W nm) \<Longrightarrow>
   on_site sw (sum_list (map cl_width cs))"
proof (induction cs arbitrary: b)
  case Nil
  then show ?case by simp
next
  case (Cons c cs)
  from Cons.prems(1) have r: "chain_ok xmin sw W (cl_x c) cs"
    and w: "cl_width c = sum_list (map W (cellInCluster c))" by auto
  have "on_site sw (cl_width c)"
    unfolding w by (rule on_site_sum_list [OF Cons.prems(2)]) (use Cons.prems(3) in auto)
  with Cons.IH [OF r Cons.prems(2,3)] show ?case
    by (simp add: on_site_add [OF Cons.prems(2)])
qed

lemma placeRow_final_ok:
  assumes sw: "grid (site_width row)" "0 < site_width row"
    and g: "grid (x_min sr)" "grid (x_max sr)"
    and gi: "grid (x (position inst))" "grid (ct_width ct)" "0 \<le> ct_width ct"
    and ok: "subrow_ok (site_width row) W sr"
    and ct: "cell_template inst = Some ct"
    and Wnm: "W nm = placedCellWidth (site_width row) (ct_width ct)"
    and Wsite: "\<forall>n. on_site (site_width row) (W n)"
    and W0: "\<forall>n. 0 \<le> W n"
    and fit: "ct_width ct \<le> Usewidth sr"
    and wt: "0 < weight inst"
  shows "subrow_ok (site_width row) W (snd (snd (placeRow md insts row nm inst sr True chk)))
       \<and> x_min (snd (snd (placeRow md insts row nm inst sr True chk))) = x_min sr
       \<and> x_max (snd (snd (placeRow md insts row nm inst sr True chk))) = x_max sr
       \<and> mset (subrow_members (snd (snd (placeRow md insts row nm inst sr True chk))))
            = mset (subrow_members sr) + {#nm#}"
proof -
  let ?sw = "site_width row"
  have sw0: "?sw \<noteq> 0" using sw by simp
  from sw g have i: "?sw \<in> \<int>" "x_min sr \<in> \<int>" "x_max sr \<in> \<int>" by (simp_all add: grid_def)
  note bd = grid_bounds [OF g(1)] grid_bounds [OF g(2)]
  define pcw where "pcw = placedCellWidth ?sw (ct_width ct)"
  define t where "t = nominal_x (x (position inst)) (ct_width ct) sr ?sw"
  from ok have L: "on_site ?sw (x_max sr - x_min sr)"
    and U: "Usewidth sr = x_max sr - x_min sr - sum_list (map cl_width (clusters sr))"
    and ch: "chain_ok (x_min sr) ?sw W (x_max sr) (clusters sr)"
    by (auto simp: subrow_ok_def)
  have tot0: "0 \<le> sum_list (map cl_width (clusters sr))"
    by (rule chain_ok_widths_nonneg [OF ch W0])
  have Usite: "on_site ?sw (Usewidth sr)"
    unfolding U by (rule on_site_diff [OF sw0 L chain_ok_widths_site [OF ch sw0 Wsite]])
  have Ui: "Usewidth sr \<in> \<int>" by (rule on_site_Ints [OF i(1) sw0 Usite])
  have pcwU: "pcw \<le> Usewidth sr"
    unfolding pcw_def by (rule placedCellWidth_le [OF sw gi(2,3) fit Usite])
  then have pcwL: "pcw \<le> x_max sr - x_min sr" using U tot0 by simp
  have pcw0: "0 \<le> pcw" unfolding pcw_def by (rule placedCellWidth_nonneg [OF sw gi(2,3)])
  have pcws: "on_site ?sw pcw" unfolding pcw_def by (rule on_site_placedCellWidth [OF sw gi(2,3)])
  have pcwi: "pcw \<in> \<int>" by (rule on_site_Ints [OF i(1) sw0 pcws])
  have eU: "fl (Usewidth sr - pcw) = Usewidth sr - pcw"
    by (rule fl_diff_Ints [OF Ui pcwi]) (use pcwU pcw0 U tot0 bd in \<open>simp add: abs_le_iff\<close>)
  have ep: "fl pcw = pcw"
    by (rule fl_Ints [OF pcwi]) (use pcwL pcw0 bd in \<open>simp add: abs_le_iff\<close>)
  have wpos: "0 < fl (real_of_int (weight inst))" using wt by (simp add: fl_pos)
  note tok = nominal_x_ok [OF sw g gi L pcwL [unfolded pcw_def], folded t_def pcw_def]
  have Wpcw: "W nm = pcw" using Wnm by (simp add: pcw_def)
  show ?thesis
  proof (cases "clusters sr")
    case Nil
    have eq: "snd (snd (placeRow md insts row nm inst sr True chk)) =
        sr\<lparr>Usewidth := Usewidth sr - pcw,
           clusters := [AddCell \<lparr>cl_x = t, cl_width = 0, cl_weight = 0, q = 0,
                     cellInCluster = []\<rparr> nm (inst\<lparr>x_new := t, y_new := y (origin row)\<rparr>) t pcw]\<rparr>"
      using Nil by (simp add: placeRow_final_subrow [OF ct] Let_def pcw_def [symmetric] t_def [symmetric] eU)
    show ?thesis unfolding eq using tok L U Nil Wpcw wpos
      by (simp add: subrow_ok_def AddCell_def subrow_members_def ep)
  next
    case (Cons lastC lefts)
    have chc: "chain_ok (x_min sr) ?sw W (x_max sr) (lastC # lefts)" using ch Cons by simp
    have le: "x_max sr \<le> x_max sr" by simp
    note lh = chain_ok_head [OF chc W0 sw g le Wsite]
    show ?thesis
    proof (cases "cl_x lastC + cl_width lastC \<le> t")
      case True
      have eq: "snd (snd (placeRow md insts row nm inst sr True chk)) =
        sr\<lparr>Usewidth := Usewidth sr - pcw,
           clusters := AddCell \<lparr>cl_x = t, cl_width = 0, cl_weight = 0, q = 0,
                     cellInCluster = []\<rparr> nm (inst\<lparr>x_new := t, y_new := y (origin row)\<rparr>) t pcw
                     # lastC # lefts\<rparr>"
        using Cons True
        by (simp add: placeRow_final_subrow [OF ct] Let_def pcw_def [symmetric] t_def [symmetric] eU lh(6))
      show ?thesis unfolding eq using tok L U Cons Wpcw wpos ch True
        by (simp add: subrow_ok_def AddCell_def subrow_members_def ep)
    next
      case False
      define m where "m = AddCell lastC nm inst t pcw"
      have eq: "snd (snd (placeRow md insts row nm inst sr True chk)) =
        sr\<lparr>Usewidth := Usewidth sr - pcw,
           clusters := Collapse m lefts (x_min sr) (x_max sr) (x_min sr) ?sw\<rparr>"
        using Cons False
        by (simp add: placeRow_final_subrow [OF ct] Let_def pcw_def [symmetric] t_def [symmetric] m_def eU lh(6))
      from ch Cons have lc: "cl_width lastC = sum_list (map W (cellInCluster lastC))"
        "0 < cl_weight lastC" "chain_ok (x_min sr) ?sw W (cl_x lastC) lefts" by auto
      have tl: "0 \<le> sum_list (map cl_width lefts)"
        by (rule chain_ok_widths_nonneg [OF lc(3) W0])
      have ew: "fl (cl_width lastC + pcw) = cl_width lastC + pcw"
        by (rule fl_add_Ints [OF lh(2) pcwi])
          (use lh(4) pcw0 pcwU U Cons tl bd in \<open>simp add: abs_le_iff\<close>)
      have m4: "cl_width m = cl_width lastC + pcw" "cellInCluster m = cellInCluster lastC @ [nm]"
        by (simp_all add: m_def AddCell_def ew)
      have m1: "cl_width m = sum_list (map W (cellInCluster m))"
        using lc(1) Wpcw by (simp add: m4)
      have "0 < cl_weight lastC + real_of_int (weight inst)" using lc(2) wt by simp
      then have m2: "0 < cl_weight m" by (simp add: m_def AddCell_def fl_pos)
      have m3: "cl_width m + sum_list (map cl_width lefts) \<le> x_max sr - x_min sr"
        using pcwU U Cons by (simp add: m4)
      have bx: "cl_x lastC \<le> x_max sr" using lh(4,5) by simp
      from Collapse_ok [OF sw g L Wsite W0 m1 m2 lc(3) bx m3]
      show ?thesis unfolding eq using L U Cons
        by (simp add: subrow_ok_def subrow_members_def m4)
    qed
  qed
qed

subsection \<open>Legalizer: row and sub-row search\<close>

lemma findSubrowpos_loop_res:
  "findSubrowpos_loop w px ss idx subRow minD = r \<Longrightarrow>
   r = subRow \<or> (int idx \<le> r \<and> r < int idx + int (length ss)
                  \<and> w \<le> Usewidth (ss ! nat (r - int idx)))"
proof (induction ss arbitrary: idx subRow minD)
  case Nil
  then show ?case by simp
next
  case (Cons s ss)
  define move where "move = (if px < x_min s then fl (x_min s - px)
                    else if fl (px + w) > x_max s then fl (fl (px + w) - x_max s) else 0)"
  have step: "int (Suc idx) \<le> r \<Longrightarrow> w \<le> Usewidth (ss ! nat (r - int (Suc idx))) \<Longrightarrow>
      w \<le> Usewidth ((s # ss) ! nat (r - int idx))"
  proof -
    assume a: "int (Suc idx) \<le> r" and b: "w \<le> Usewidth (ss ! nat (r - int (Suc idx)))"
    have "nat (r - int idx) = Suc (nat (r - int (Suc idx)))" using a by simp
    then show ?thesis using b by simp
  qed
  show ?case
  proof (cases "w > Usewidth s")
    case True
    then have "findSubrowpos_loop w px ss (Suc idx) subRow minD = r"
      using Cons.prems by simp
    from Cons.IH [OF this] show ?thesis using step by auto
  next
    case nf: False
    show ?thesis
    proof (cases "minD > move")
      case True
      then have "findSubrowpos_loop w px ss (Suc idx) (int idx) move = r"
        using Cons.prems nf by (simp add: move_def Let_def)
      from Cons.IH [OF this] nf show ?thesis using step by auto
    next
      case False
      then have "r = subRow" using Cons.prems nf by (simp add: move_def Let_def)
      then show ?thesis by simp
    qed
  qed
qed

lemma findSubrowpos_res:
  assumes "findSubrowpos inst row \<noteq> - 1"
  shows "\<exists>ct. cell_template inst = Some ct \<and> 0 \<le> findSubrowpos inst row
     \<and> nat (findSubrowpos inst row) < length (subrows row)
     \<and> ct_width ct \<le> Usewidth (subrows row ! nat (findSubrowpos inst row))"
proof (cases "cell_template inst")
  case None
  with assms show ?thesis by (simp add: findSubrowpos_def)
next
  case (Some ct)
  define r where "r = findSubrowpos inst row"
  have "findSubrowpos_loop (ct_width ct) (x (position inst)) (subrows row) 0 (- 1) DBL_MAX = r"
    using Some by (simp add: findSubrowpos_def r_def)
  from findSubrowpos_loop_res [OF this] assms Some show ?thesis
    unfolding r_def [symmetric] by auto
qed

lemma findBestRow_loop_res:
  "findBestRow_loop rs py i best br = r \<Longrightarrow>
   r = br \<or> (int i \<le> r \<and> r < int i + int (length rs))"
proof (induction rs arbitrary: i best br)
  case Nil
  then show ?case by simp
next
  case (Cons a rs)
  show ?case
  proof (cases "case best of None \<Rightarrow> True | Some b \<Rightarrow> \<bar>fl (py - y (origin a))\<bar> < b")
    case True
    then have "findBestRow_loop rs py (Suc i) (Some \<bar>fl (py - y (origin a))\<bar>) (int i) = r"
      using Cons.prems by (simp add: Let_def)
    from Cons.IH [OF this] show ?thesis by auto
  next
    case False
    then have "findBestRow_loop rs py (Suc i) best br = r"
      using Cons.prems by (simp add: Let_def)
    from Cons.IH [OF this] show ?thesis by auto
  qed
qed

lemma findBestRow_res:
  "findBestRow db inst \<noteq> - 1 \<Longrightarrow>
   0 \<le> findBestRow db inst \<and> findBestRow db inst < int (length (placement_rows db))"
  using findBestRow_loop_res [of "placement_rows db" "y (position inst)" 0 None "- 1"
      "findBestRow db inst"]
  by (auto simp: findBestRow_def)

lemma findBestRow_empty:
  "(findBestRow db inst = - 1) = (placement_rows db = [])"
proof (cases "placement_rows db")
  case Nil
  then show ?thesis by (simp add: findBestRow_def)
next
  case (Cons a rs)
  have "findBestRow_loop rs (y (position inst)) (Suc 0) (Some \<bar>fl (y (position inst) - y (origin a))\<bar>) 0 \<noteq> - 1"
    using findBestRow_loop_res [of rs "y (position inst)" "Suc 0"
        "Some \<bar>fl (y (position inst) - y (origin a))\<bar>" 0] by fastforce
  then show ?thesis using Cons by (simp add: findBestRow_def Let_def)
qed

lemma cores_put:
  "insts nm = Some i \<Longrightarrow> core i' = core i \<Longrightarrow> cores (insts(nm \<mapsto> i')) = cores insts"
  by (auto simp: cores_def fun_eq_iff)

lemma core_placeRow:
  assumes "placeRow md insts row nm inst sr final chk = (cost, inst', sr')"
  shows "core inst' = core inst"
proof -
  have "inst' = inst\<lparr>x_new := x_new inst', y_new := y_new inst'\<rparr>"
    by (rule placeRow_instance [OF assms])
  then have "core inst' = core (inst\<lparr>x_new := x_new inst', y_new := y_new inst'\<rparr>)" by simp
  then show ?thesis by (simp add: core_def)
qed

lemma core_fields:
  "core i' = core i \<Longrightarrow> cell_template i' = cell_template i \<and> position i' = position i
     \<and> weight i' = weight i \<and> name i' = name i \<and> get_width i' = get_width i"
proof -
  assume a: "core i' = core i"
  have "cell_template (core i') = cell_template (core i)" "position (core i') = position (core i)"
    "weight (core i') = weight (core i)" "name (core i') = name (core i)"
    using a by simp_all
  then show ?thesis by (simp add: core_def get_width_def)
qed

lemma try_row_props:
  assumes "rowidx < length (placement_rows (fst st))"
  shows "placement_rows (fst (try_row md nm rowidx st)) = placement_rows (fst st)
       \<and> placement_blockages (fst (try_row md nm rowidx st)) = placement_blockages (fst st)
       \<and> cores (instances (fst (try_row md nm rowidx st))) = cores (instances (fst st))
       \<and> (\<forall>i ct. instances (fst st) nm = Some i \<longrightarrow> cell_template i = Some ct \<longrightarrow>
             best_ok (placement_rows (fst st)) (ct_width ct) (snd st) \<longrightarrow>
             best_ok (placement_rows (fst st)) (ct_width ct) (snd (try_row md nm rowidx st)))"
proof -
  obtain db Cbest br bs where st: "st = (db, Cbest, br, bs)" by (cases st) auto
  show ?thesis
  proof (cases "instances db nm")
    case None
    then show ?thesis by (simp add: try_row_def st)
  next
    case (Some inst)
    define row where "row = placement_rows db ! rowidx"
    define si where "si = findSubrowpos inst row"
    show ?thesis
    proof (cases "si = - 1")
      case True
      then show ?thesis using Some by (simp add: try_row_def st Let_def row_def si_def)
    next
      case False
      obtain cost inst' sr' where pr: "placeRow md (instances db) row nm inst
          (subrows row ! nat si) False True = (cost, inst', sr')"
        by (cases "placeRow md (instances db) row nm inst (subrows row ! nat si) False True") auto
      have tr: "try_row md nm rowidx st =
          (if cost < Cbest then (put_instance nm inst' db, cost, int rowidx, si)
           else (put_instance nm inst' db, Cbest, br, bs))"
        using Some False pr by (simp add: try_row_def st Let_def row_def si_def)
      have c: "cores (instances (put_instance nm inst' db)) = cores (instances db)"
        using cores_put [of "instances db" nm inst inst'] Some core_placeRow [OF pr]
        by (simp add: put_instance_def)
      from findSubrowpos_res [of inst row] False
      obtain ct where ct: "cell_template inst = Some ct" "0 \<le> si"
          "nat si < length (subrows row)" "ct_width ct \<le> Usewidth (subrows row ! nat si)"
        unfolding si_def by blast
      have b: "best_ok (placement_rows db) (ct_width ct) (cost, int rowidx, si)"
        using ct assms by (simp add: best_ok_def st row_def)
      show ?thesis unfolding tr using c b ct(1) Some
        by (auto simp: put_instance_def st)
    qed
  qed
qed


lemma cores_Some:
  "cores insts nm = Some i0 \<Longrightarrow> \<exists>i. insts nm = Some i \<and> core i = i0
      \<and> cell_template i = cell_template i0 \<and> weight i = weight i0
      \<and> get_width i = get_width i0 \<and> position i = position i0"
  by (auto simp: cores_def core_def get_width_def)

lemma try_row_best:
  assumes "rowidx < length (placement_rows (fst st))"
    and "cores (instances (fst st)) nm = Some i0" and "cell_template i0 = Some ct"
    and "best_ok (placement_rows (fst st)) (ct_width ct) (snd st)"
  shows "best_ok (placement_rows (fst st)) (ct_width ct) (snd (try_row md nm rowidx st))"
proof -
  from cores_Some [OF assms(2)] assms(3)
  obtain i where "instances (fst st) nm = Some i" "cell_template i = Some ct" by auto
  with try_row_props [OF assms(1), of md nm] assms(4) show ?thesis by blast
qed

lemma search_rows_props:
  assumes "0 \<le> oi"
  shows "oi < int (length (placement_rows (fst st))) \<Longrightarrow>
     placement_rows (fst (search_rows md nm py oi is st)) = placement_rows (fst st)
     \<and> placement_blockages (fst (search_rows md nm py oi is st)) = placement_blockages (fst st)
     \<and> cores (instances (fst (search_rows md nm py oi is st))) = cores (instances (fst st))
     \<and> (\<forall>i0 ct. cores (instances (fst st)) nm = Some i0 \<longrightarrow> cell_template i0 = Some ct \<longrightarrow>
           best_ok (placement_rows (fst st)) (ct_width ct) (snd st) \<longrightarrow>
           best_ok (placement_rows (fst st)) (ct_width ct) (snd (search_rows md nm py oi is st)))"
proof (induction "is" arbitrary: st)
  case Nil
  then show ?case by simp
next
  case (Cons i "is")
  define db where "db = fst st"
  define Cbest where "Cbest = fst (snd st)"
  define up where "up = (if oi + int i \<ge> int (length (placement_rows db)) then False
                else \<bar>fl (py - row_y db (oi + int i))\<bar> < Cbest)"
  define down where "down = (if oi - int i < 0 then False
                  else \<bar>fl (py - row_y db (oi - int i))\<bar> < Cbest)"
  define st1 where "st1 = (if up then try_row md nm (nat (oi + int i)) st else st)"
  define st2 where "st2 = (if down then try_row md nm (nat (oi - int i)) st1 else st1)"
  have eq: "search_rows md nm py oi (i # is) st =
      (if \<not> up \<and> \<not> down then st else search_rows md nm py oi is st2)"
    by (simp add: Let_def db_def Cbest_def up_def down_def st1_def st2_def)
  have i1: "up \<Longrightarrow> nat (oi + int i) < length (placement_rows (fst st))"
    using assms by (auto simp: up_def db_def split: if_splits)
  have p1: "placement_rows (fst st1) = placement_rows (fst st)
       \<and> placement_blockages (fst st1) = placement_blockages (fst st)
       \<and> cores (instances (fst st1)) = cores (instances (fst st))"
    using try_row_props [OF i1, of md nm] by (simp add: st1_def)
  have i2: "down \<Longrightarrow> nat (oi - int i) < length (placement_rows (fst st1))"
    using assms Cons.prems p1 by (auto simp: down_def split: if_splits)
  have p2: "placement_rows (fst st2) = placement_rows (fst st)
       \<and> placement_blockages (fst st2) = placement_blockages (fst st)
       \<and> cores (instances (fst st2)) = cores (instances (fst st))"
    using try_row_props [OF i2, of md nm] p1 by (simp add: st2_def)
  have b2: "best_ok (placement_rows (fst st)) (ct_width ct) (snd st2)"
    if a: "cores (instances (fst st)) nm = Some i0" "cell_template i0 = Some ct"
      "best_ok (placement_rows (fst st)) (ct_width ct) (snd st)" for i0 ct
  proof -
    have b1: "best_ok (placement_rows (fst st)) (ct_width ct) (snd st1)"
      using try_row_best [OF i1 a] a(3) by (simp add: st1_def)
    have "down \<Longrightarrow> best_ok (placement_rows (fst st1)) (ct_width ct)
        (snd (try_row md nm (nat (oi - int i)) st1))"
      by (rule try_row_best [OF i2, of nm i0 ct]) (use p1 a b1 in simp_all)
    then show ?thesis using b1 p1 by (simp add: st2_def)
  qed
  have o2: "oi < int (length (placement_rows (fst st2)))" using Cons.prems p2 by simp
  show ?case
  proof (cases "\<not> up \<and> \<not> down")
    case True
    then show ?thesis unfolding eq by simp
  next
    case False
    from Cons.IH [OF o2] p2 b2 False show ?thesis unfolding eq by auto
  qed
qed

subsection \<open>Legalizer: one instance of the loop of Step 4\<close>

lemma mset_concat_map_update:
  "i < length xs \<Longrightarrow>
   mset (concat (map f (xs[i := z]))) + mset (f (xs ! i)) = mset (concat (map f xs)) + mset (f z)"
proof (induction xs arbitrary: i)
  case Nil
  then show ?case by simp
next
  case (Cons a xs)
  show ?case
  proof (cases i)
    case 0
    then show ?thesis by simp
  next
    case (Suc j)
    with Cons.prems have "j < length xs" by simp
    from Cons.IH [OF this] Suc show ?thesis by simp
  qed
qed

lemma mset_members_update:
  assumes "i < length xs" and "mset (f z) = mset (f (xs ! i)) + {#nm#}"
  shows "mset (concat (map f (xs[i := z]))) = mset (concat (map f xs)) + {#nm#}"
  using mset_concat_map_update [OF assms(1), of f z] assms(2) by simp

lemma sorted_wrt_subrows_update:
  assumes "sorted_wrt (\<lambda>a b. x_max a \<le> x_min b) srs"
    and "x_min sr' = x_min (srs ! i)" and "x_max sr' = x_max (srs ! i)"
  shows "sorted_wrt (\<lambda>a b. x_max a \<le> x_min b) (srs[i := sr'])"
proof (cases "i < length srs")
  case False
  then have "srs[i := sr'] = srs" by (simp add: list_update_beyond)
  then show ?thesis using assms(1) by simp
next
  case True
  show ?thesis
    unfolding sorted_wrt_iff_nth_less
  proof (intro allI impI)
    fix a b assume ab: "a < b" "b < length (srs[i := sr'])"
    then have b: "b < length srs" and a: "a < length srs" by simp_all
    have o: "x_max (srs ! a) \<le> x_min (srs ! b)"
      using assms(1) ab(1) b unfolding sorted_wrt_iff_nth_less by blast
    have xa: "x_max (srs[i := sr'] ! a) = x_max (srs ! a)"
      using a assms(3) by (cases "a = i") simp_all
    have xb: "x_min (srs[i := sr'] ! b) = x_min (srs ! b)"
      using b assms(2) by (cases "b = i") simp_all
    show "x_max (srs[i := sr'] ! a) \<le> x_min (srs[i := sr'] ! b)"
      unfolding xa xb by (rule o)
  qed
qed

lemma row_ok_update:
  assumes ok: "row_ok wd r" and i: "bs < length (subrows r)"
    and sr: "subrow_ok (site_width r) (\<lambda>nm. placedCellWidth (site_width r) (wd nm)) sr'"
    and x: "x_min sr' = x_min (subrows r ! bs)" "x_max sr' = x_max (subrows r ! bs)"
  shows "row_ok wd (subrows_update (\<lambda>srs. list_update srs bs sr') r)"
proof -
  have old: "on_site (site_width r) (x_min (subrows r ! bs) - x (origin r))"
    "grid (x_min (subrows r ! bs))" "grid (x_max (subrows r ! bs))"
    using ok i by (simp_all add: row_ok_def)
  have each: "subrow_ok (site_width r) (\<lambda>nm. placedCellWidth (site_width r) (wd nm)) s
            \<and> on_site (site_width r) (x_min s - x (origin r))
            \<and> grid (x_min s) \<and> grid (x_max s)"
    if "s \<in> set ((subrows r)[bs := sr'])" for s
  proof -
    from that have "s = sr' \<or> s \<in> set (subrows r)"
      using set_update_subset_insert [of "subrows r" bs sr'] by auto
    then show ?thesis using sr x old ok by (auto simp: row_ok_def)
  qed
  have srt: "sorted_wrt (\<lambda>a b. x_max a \<le> x_min b) ((subrows r)[bs := sr'])"
    by (rule sorted_wrt_subrows_update [OF _ x]) (use ok in \<open>simp add: row_ok_def\<close>)
  show ?thesis using ok each srt by (simp add: row_ok_def)
qed

lemma put_simps [simp]:
  "placement_rows (put_instance nm i db) = placement_rows db"
  "placement_blockages (put_instance nm i db) = placement_blockages db"
  "instances (put_instance nm i db) = (instances db)(nm \<mapsto> i)"
  "placement_rows (put_subrow r s sr db) =
     (placement_rows db)[r := subrows_update (\<lambda>srs. srs[s := sr]) (placement_rows db ! r)]"
  "placement_blockages (put_subrow r s sr db) = placement_blockages db"
  "instances (put_subrow r s sr db) = instances db"
  by (simp_all add: put_instance_def put_subrow_def)

lemma add_warning_simps [simp]:
  "lg_db (add_warning l lg) = lg_db lg" "lg_max_disp (add_warning l lg) = lg_max_disp lg"
  "warnings (add_warning l lg) = warnings lg @ [l]"
  by (simp_all add: add_warning_def)

lemma core_simps [simp]:
  "core (placement_status_update f i) = core i"
  "core (set_new_to_position i) = core i"
  by (simp_all add: core_def set_new_to_position_def)

lemma commit_instance_inv:
  assumes inv: "leg_inv C lg"
    and Cw: "\<forall>k i. C k = Some i \<longrightarrow> cell_ok i"
    and nm: "C nm = Some i0" "cell_template i0 = Some ct"
    and rows: "placement_rows db1 = placement_rows (lg_db lg)"
    and blk: "placement_blockages db1 = placement_blockages (lg_db lg)"
    and cs: "cores (instances db1) = C"
    and best: "best_ok (placement_rows db1) (ct_width ct) (Cbest, br, bs)"
  shows "leg_inv C (commit_instance nm lg (db1, Cbest, br, bs))
     \<and> (mset (all_members (placement_rows (lg_db (commit_instance nm lg (db1, Cbest, br, bs)))))
           = mset (all_members (placement_rows (lg_db lg))) + {#nm#}
           \<and> warnings (commit_instance nm lg (db1, Cbest, br, bs)) = warnings lg
         \<or> placement_rows (lg_db (commit_instance nm lg (db1, Cbest, br, bs)))
           = placement_rows (lg_db lg)
           \<and> warnings (commit_instance nm lg (db1, Cbest, br, bs))
              = warnings lg @ [''  Warning: Could not place instance '' @ nm])
     \<and> lg_max_disp (commit_instance nm lg (db1, Cbest, br, bs)) = lg_max_disp lg
     \<and> placement_blockages (lg_db (commit_instance nm lg (db1, Cbest, br, bs)))
           = placement_blockages (lg_db lg)"
proof -
  from cores_Some [of "instances db1" nm i0] cs nm
  obtain inst1 where i1: "instances db1 nm = Some inst1" "core inst1 = i0"
    "cell_template inst1 = Some ct" "weight inst1 = weight i0"
    "position inst1 = position i0" by auto
  have ok0: "cell_ok i0" using Cw nm(1) by blast
  have rok: "\<forall>r\<in>set (placement_rows db1). row_ok (name_width C) r"
    using inv rows by (simp add: leg_inv_def)
  show ?thesis
  proof (cases "br \<noteq> - 1 \<and> bs \<noteq> - 1")
    case False
    then have eq: "commit_instance nm lg (db1, Cbest, br, bs) =
        add_warning (''  Warning: Could not place instance '' @ nm)
          (lg_db_update (\<lambda>_. put_instance nm (set_new_to_position inst1) db1) lg)"
      using i1 by (auto simp: commit_instance_def)
    have "cores ((instances db1)(nm \<mapsto> set_new_to_position inst1)) = C"
      using cores_put [of "instances db1" nm inst1 "set_new_to_position inst1"] i1 cs by simp
    then show ?thesis unfolding eq using rok rows blk by (simp add: leg_inv_def)
  next
    case True
    with best have b: "0 \<le> br" "nat br < length (placement_rows db1)" "0 \<le> bs"
      "nat bs < length (subrows (placement_rows db1 ! nat br))"
      "ct_width ct \<le> Usewidth (subrows (placement_rows db1 ! nat br) ! nat bs)"
      by (auto simp: best_ok_def)
    define row where "row = placement_rows db1 ! nat br"
    define sr where "sr = subrows row ! nat bs"
    define W where "W = (\<lambda>n. placedCellWidth (site_width row) (name_width C n))"
    have row_ok: "row_ok (name_width C) row" using rok b(2) by (simp add: row_def)
    then have sw: "grid (site_width row)" "0 < site_width row" by (simp_all add: row_ok_def)
    have srok: "subrow_ok (site_width row) W sr" and g: "grid (x_min sr)" "grid (x_max sr)"
      using row_ok b(4) by (simp_all add: row_ok_def W_def sr_def row_def)
    have gi: "grid (x (position inst1))" "grid (ct_width ct)" "0 \<le> ct_width ct"
      using ok0 nm(2) i1(5) by (simp_all add: cell_ok_def get_width_def)
    have Wnm: "W nm = placedCellWidth (site_width row) (ct_width ct)"
      using nm by (simp add: W_def name_width_def get_width_def)
    have nw: "0 \<le> name_width C n \<and> grid (name_width C n)" for n
    proof (cases "C n")
      case None
      then show ?thesis by (simp add: name_width_def grid_def)
    next
      case (Some i)
      with Cw have "cell_ok i" by blast
      then show ?thesis using Some by (simp add: name_width_def cell_ok_def)
    qed
    have Wsite: "\<forall>n. on_site (site_width row) (W n)"
      unfolding W_def using on_site_placedCellWidth [OF sw] nw by blast
    have W0: "\<forall>n. 0 \<le> W n"
      unfolding W_def using placedCellWidth_nonneg [OF sw] nw by blast
    have wt: "0 < weight inst1" using ok0 i1(4) by (simp add: cell_ok_def)
    obtain cost inst2 sr' where pr: "placeRow (lg_max_disp lg) (instances db1) row nm inst1 sr
        True True = (cost, inst2, sr')"
      by (cases "placeRow (lg_max_disp lg) (instances db1) row nm inst1 sr True True") auto
    then have sr': "sr' = snd (snd (placeRow (lg_max_disp lg) (instances db1) row nm inst1 sr
        True True))" by simp
    from placeRow_final_ok [OF sw g gi srok i1(3) Wnm Wsite W0 _ wt, of "lg_max_disp lg"
        "instances db1" True] b(5)
    have fin: "subrow_ok (site_width row) W sr'" "x_min sr' = x_min sr" "x_max sr' = x_max sr"
      "mset (subrow_members sr') = mset (subrow_members sr) + {#nm#}"
      unfolding sr' by (simp_all add: sr_def row_def)
    have eq: "commit_instance nm lg (db1, Cbest, br, bs) =
        lg_db_update (\<lambda>_. put_instance nm (placement_status_update (\<lambda>_. PLACED) inst2)
           (put_subrow (nat br) (nat bs) sr' db1)) lg"
      using True i1(1) pr by (simp add: commit_instance_def Let_def row_def sr_def)
    define row' where "row' = subrows_update (\<lambda>srs. srs[nat bs := sr']) row"
    have row'_ok: "row_ok (name_width C) row'"
      unfolding row'_def
      by (rule row_ok_update [OF row_ok]) (use b fin in \<open>simp_all add: W_def sr_def row_def\<close>)
    have rows'_ok: "\<forall>r\<in>set ((placement_rows db1)[nat br := row']). row_ok (name_width C) r"
    proof
      fix r assume "r \<in> set ((placement_rows db1)[nat br := row'])"
      then have "r = row' \<or> r \<in> set (placement_rows db1)"
        using set_update_subset_insert [of "placement_rows db1" "nat br" row'] by auto
      then show "row_ok (name_width C) r" using row'_ok rok by auto
    qed
    have c': "cores ((instances db1)(nm \<mapsto> placement_status_update (\<lambda>_. PLACED) inst2)) = C"
      using cores_put [of "instances db1" nm inst1 "placement_status_update (\<lambda>_. PLACED) inst2"]
        i1 cs core_placeRow [OF pr] by simp
    have rm: "mset (row_members row') = mset (row_members row) + {#nm#}"
      unfolding row_members_def row'_def
      using mset_members_update [of "nat bs" "subrows row" subrow_members sr' nm] b(4) fin(4)
      by (simp add: sr_def row_def)
    have am: "mset (all_members ((placement_rows db1)[nat br := row']))
        = mset (all_members (placement_rows db1)) + {#nm#}"
      unfolding all_members_def
      using mset_members_update [of "nat br" "placement_rows db1" row_members row' nm] b(2) rm
      by (simp add: row_def)
    show ?thesis unfolding eq using rows'_ok c' am rows blk
      by (simp add: leg_inv_def row'_def row_def)
  qed
qed

lemma best_ok_initial [simp]: "best_ok rows w (c, - 1, - 1)"
  by (simp add: best_ok_def)

lemma Abacus_instance_inv:
  assumes inv: "leg_inv C lg"
    and Cw: "\<forall>k i. C k = Some i \<longrightarrow> cell_ok i"
    and nm: "C nm = Some i0" "cell_template i0 \<noteq> None"
  shows "leg_inv C (Abacus_instance nm lg)
     \<and> (mset (all_members (placement_rows (lg_db (Abacus_instance nm lg))))
           = mset (all_members (placement_rows (lg_db lg))) + {#nm#}
           \<and> warnings (Abacus_instance nm lg) = warnings lg
         \<or> placement_rows (lg_db (Abacus_instance nm lg)) = placement_rows (lg_db lg)
           \<and> (\<exists>l. warnings (Abacus_instance nm lg) = warnings lg @ [l] \<and> warned nm [l]))
     \<and> lg_max_disp (Abacus_instance nm lg) = lg_max_disp lg
     \<and> placement_blockages (lg_db (Abacus_instance nm lg)) = placement_blockages (lg_db lg)"
proof -
  have cs: "cores (instances (lg_db lg)) = C" using inv by (simp add: leg_inv_def)
  from cores_Some [of "instances (lg_db lg)" nm i0] cs nm(1)
  obtain inst where Some: "instances (lg_db lg) nm = Some inst" and ci: "core inst = i0" by auto
  from nm(2) obtain ct where "cell_template i0 = Some ct" by auto
  with nm(1) have c0: "C nm = Some i0" "cell_template i0 = Some ct" by auto
  define oi where "oi = findBestRow (lg_db lg) inst"
  show ?thesis
  proof (cases "oi = - 1")
    case True
    then show ?thesis using inv Some
      by (simp add: Abacus_instance_def oi_def Let_def leg_inv_def warned_def)
  next
    case False
    from findBestRow_res [of "lg_db lg" inst] False
    have o: "0 \<le> oi" "oi < int (length (placement_rows (lg_db lg)))" by (simp_all add: oi_def)
    define st where "st = search_rows (lg_max_disp lg) nm (y (position inst)) oi
        [0 ..< length (placement_rows (lg_db lg))] (lg_db lg, DBL_MAX, - 1, - 1)"
    obtain db1 Cbest br bs where st: "st = (db1, Cbest, br, bs)" by (cases st) auto
    from search_rows_props [OF o(1), of "(lg_db lg, DBL_MAX, - 1, - 1)" "lg_max_disp lg" nm
        "y (position inst)" "[0 ..< length (placement_rows (lg_db lg))]"] o(2) c0 cs
    have p: "placement_rows db1 = placement_rows (lg_db lg)"
      "placement_blockages db1 = placement_blockages (lg_db lg)"
      "cores (instances db1) = C"
      "best_ok (placement_rows db1) (ct_width ct) (Cbest, br, bs)"
      unfolding st_def [symmetric] st by simp_all
    have eq: "Abacus_instance nm lg = commit_instance nm lg (db1, Cbest, br, bs)"
      using Some False st by (simp add: Abacus_instance_def oi_def Let_def st_def)
    from commit_instance_inv [OF inv Cw c0 p]
    show ?thesis unfolding eq by (auto simp: warned_def)
  qed
qed

lemma Abacus_loop_inv:
  assumes Cw: "\<forall>k i. C k = Some i \<longrightarrow> cell_ok i"
  shows "leg_inv C lg \<Longrightarrow>
     \<forall>nm\<in>set ns. \<exists>i0. C nm = Some i0 \<and> cell_template i0 \<noteq> None \<Longrightarrow>
     leg_inv C (fold Abacus_instance ns lg)
     \<and> mset (all_members (placement_rows (lg_db (fold Abacus_instance ns lg))))
          \<subseteq># mset (all_members (placement_rows (lg_db lg))) + mset ns
     \<and> lg_max_disp (fold Abacus_instance ns lg) = lg_max_disp lg
     \<and> placement_blockages (lg_db (fold Abacus_instance ns lg)) = placement_blockages (lg_db lg)
     \<and> set (all_members (placement_rows (lg_db lg)))
          \<subseteq> set (all_members (placement_rows (lg_db (fold Abacus_instance ns lg))))
     \<and> set (warnings lg) \<subseteq> set (warnings (fold Abacus_instance ns lg))
     \<and> (\<forall>n\<in>set ns. n \<in> set (all_members (placement_rows (lg_db (fold Abacus_instance ns lg))))
            \<or> warned n (warnings (fold Abacus_instance ns lg)))"
proof (induction ns arbitrary: lg)
  case Nil
  then show ?case by simp
next
  case (Cons n ns)
  from Cons.prems(2) obtain i0 where n: "C n = Some i0" "cell_template i0 \<noteq> None" by auto
  have ns: "\<forall>nm\<in>set ns. \<exists>i0. C nm = Some i0 \<and> cell_template i0 \<noteq> None"
    using Cons.prems(2) by simp
  let ?l1 = "Abacus_instance n lg"
  let ?lf = "fold Abacus_instance ns ?l1"
  note s = Abacus_instance_inv [OF Cons.prems(1) Cw n]
  from s have m: "mset (all_members (placement_rows (lg_db ?l1)))
      \<subseteq># mset (all_members (placement_rows (lg_db lg))) + {#n#}" by auto
  from s have m1: "set (all_members (placement_rows (lg_db lg)))
      \<subseteq> set (all_members (placement_rows (lg_db ?l1)))"
    by (metis mset_subset_eq_add_left order_refl set_mset_mono set_mset_mset)
  from s have w1: "set (warnings lg) \<subseteq> set (warnings ?l1)" by auto
  from s have h1: "n \<in> set (all_members (placement_rows (lg_db ?l1))) \<or> warned n (warnings ?l1)"
  proof -
    from s consider
      (a) "mset (all_members (placement_rows (lg_db ?l1)))
           = mset (all_members (placement_rows (lg_db lg))) + {#n#}"
      | (b) l where "warnings ?l1 = warnings lg @ [l]" "warned n [l]" by blast
    then show ?thesis
    proof cases
      case a
      then have "n \<in># mset (all_members (placement_rows (lg_db ?l1)))" by simp
      then show ?thesis by simp
    next
      case b
      then show ?thesis by (auto simp: warned_def)
    qed
  qed
  from Cons.IH [OF _ ns, of ?l1] s
  have r: "leg_inv C ?lf"
    "mset (all_members (placement_rows (lg_db ?lf)))
       \<subseteq># mset (all_members (placement_rows (lg_db ?l1))) + mset ns"
    "lg_max_disp ?lf = lg_max_disp lg"
    "placement_blockages (lg_db ?lf) = placement_blockages (lg_db lg)"
    "set (all_members (placement_rows (lg_db ?l1))) \<subseteq> set (all_members (placement_rows (lg_db ?lf)))"
    "set (warnings ?l1) \<subseteq> set (warnings ?lf)"
    "\<forall>k\<in>set ns. k \<in> set (all_members (placement_rows (lg_db ?lf))) \<or> warned k (warnings ?lf)"
    by simp_all
  have "mset (all_members (placement_rows (lg_db ?l1))) + mset ns
      \<subseteq># mset (all_members (placement_rows (lg_db lg))) + {#n#} + mset ns"
    using m by (simp add: subset_mset.add_right_mono)
  with r(2) have r2: "mset (all_members (placement_rows (lg_db ?lf)))
      \<subseteq># mset (all_members (placement_rows (lg_db lg))) + {#n#} + mset ns"
    by (rule subset_mset.order_trans)
  have hn: "n \<in> set (all_members (placement_rows (lg_db ?lf))) \<or> warned n (warnings ?lf)"
    using h1 r(5,6) by (auto simp: warned_def)
  have c5: "set (all_members (placement_rows (lg_db lg)))
      \<subseteq> set (all_members (placement_rows (lg_db ?lf)))" using m1 r(5) by blast
  have c6: "set (warnings lg) \<subseteq> set (warnings ?lf)" using w1 r(6) by blast
  show ?case using r(1,3,4,7) r2 hn c5 c6 by (simp add: add.commute add.left_commute)
qed

subsection \<open>Legalizer: constructor, classification and sub-row construction\<close>

lemma Ints_pos_ge1: "v \<in> \<int> \<Longrightarrow> 0 < v \<Longrightarrow> 1 \<le> (v::real)"
  by (auto elim!: Ints_cases)

lemma eps_bound: "0 < eps \<and> eps < 1 / 1000"
proof -
  define v :: real where "v = 1 / 10 ^ 6"
  have v: "0 < v" "v < 1 / 2000" by (simp_all add: v_def)
  have "\<bar>fl v - v\<bar> \<le> \<bar>v\<bar> / 2 ^ 53" by (rule fl_rel)
  also have "\<dots> \<le> v" using v(1) by (simp add: field_simps)
  finally have "fl v < 1 / 1000" using v by linarith
  moreover have "0 < fl v" by (rule fl_pos [OF v(1)])
  ultimately show ?thesis by (simp add: eps_def v_def)
qed

text \<open>
  The quotient by the site width, moved by \<open>eps\<close>, stays within a quarter of the exact
  quotient, so that the site index that \<open>buildSubRows\<close> computes is off by less than two
  and the snapped abscissa is computed without rounding.
\<close>

lemma snap_quotient_aux:
  assumes q: "\<bar>r\<bar> \<le> 4398046511104" and e: "\<bar>e\<bar> < 1 / 1000"
  shows "\<bar>fl (fl r + e) - r\<bar> \<le> 1 / 4"
proof -
  have "\<bar>fl r - r\<bar> \<le> 4398046511104 / 2 ^ 53" by (rule fl_abs_err [OF q])
  then have e1: "\<bar>fl r - r\<bar> \<le> 1 / 2048" by simp
  have "\<bar>fl r + e\<bar> \<le> 4398046511105" using e1 q e by linarith
  then have "\<bar>fl (fl r + e) - (fl r + e)\<bar> \<le> 4398046511105 / 2 ^ 53" by (rule fl_abs_err)
  also have "\<dots> \<le> 1 / 1024" by simp
  finally show ?thesis using e1 e by linarith
qed

lemma snap_quotient:
  assumes sw: "sw \<in> \<int>" "0 < sw" and a: "a \<in> \<int>" "\<bar>a\<bar> \<le> 2 ^ 42"
    and e: "\<bar>e\<bar> < 1 / 1000"
  shows "\<bar>fl (fl (fl a / sw) + e) - a / sw\<bar> \<le> 1 / 4"
proof -
  have sw1: "1 \<le> sw" by (rule Ints_pos_ge1 [OF sw])
  have fa: "fl a = a" by (rule fl_Ints [OF a(1)]) (use a(2) in simp)
  have "\<bar>a / sw\<bar> = \<bar>a\<bar> / sw" using sw(2) by simp
  also have "\<dots> \<le> \<bar>a\<bar> / 1" by (rule divide_left_mono) (use sw1 in simp_all)
  finally have q: "\<bar>a / sw\<bar> \<le> 4398046511104" using a(2) by simp
  show ?thesis unfolding fa by (rule snap_quotient_aux [OF q e])
qed

lemma snap_index_exact:
  fixes k :: int
  assumes sw: "grid sw" "0 < sw" and ox: "grid ox" and a: "\<bar>a\<bar> \<le> 2 ^ 42"
    and k: "\<bar>of_int k - a / sw\<bar> < 2"
  shows "fl (ox + fl (of_int k * sw)) = ox + of_int k * sw"
proof -
  from sw ox have i: "sw \<in> \<int>" "ox \<in> \<int>" by (simp_all add: grid_def)
  note b = grid_bounds [OF sw(1)] grid_bounds [OF ox]
  have "\<bar>of_int k * sw - a\<bar> = \<bar>of_int k - a / sw\<bar> * sw"
    using sw(2) by (simp add: abs_mult [symmetric] field_simps)
  also have "\<dots> \<le> 2 * sw" using k sw(2) by simp
  finally have d: "\<bar>of_int k * sw - a\<bar> \<le> 2 ^ 41" using b by simp
  then have m: "\<bar>of_int k * sw\<bar> \<le> 2 ^ 42 + 2 ^ 41" using a by (simp add: abs_le_iff)
  have ki: "of_int k * sw \<in> \<int>" using i by simp
  have e1: "fl (of_int k * sw) = of_int k * sw"
    by (rule fl_Ints [OF ki]) (use m in simp)
  show ?thesis unfolding e1
    by (rule fl_add_Ints [OF i(2) ki]) (use m b in \<open>simp add: abs_le_iff\<close>)
qed

lemma floor_near: "\<bar>v - r\<bar> \<le> 1 / 4 \<Longrightarrow> \<bar>of_int \<lfloor>v\<rfloor> - r\<bar> < (2::real)"
  by linarith

lemma ceiling_near: "\<bar>v - r\<bar> \<le> 1 / 4 \<Longrightarrow> \<bar>of_int \<lceil>v\<rceil> - r\<bar> < (2::real)"
  by linarith

lemma snap_front_exact:
  assumes sw: "grid (site_width row)" "0 < site_width row" and ox: "grid (x (origin row))"
    and M: "M \<in> \<int>" "\<bar>M\<bar> \<le> 2 ^ 41"
  shows "snap_front row M = x (origin row)
      + of_int \<lfloor>fl (fl (fl (M - x (origin row)) / site_width row) + eps)\<rfloor> * site_width row"
proof -
  from sw ox have i: "site_width row \<in> \<int>" "x (origin row) \<in> \<int>" by (simp_all add: grid_def)
  note b = grid_bounds [OF ox]
  have a: "M - x (origin row) \<in> \<int>" "\<bar>M - x (origin row)\<bar> \<le> 2 ^ 42"
    using M i b by (simp_all add: abs_le_iff)
  have e: "\<bar>eps\<bar> < 1 / 1000" using eps_bound by simp
  note q = snap_quotient [OF i(1) sw(2) a e]
  show ?thesis unfolding snap_front_def
    by (rule snap_index_exact [OF sw ox a(2) floor_near [OF q]])
qed

lemma snap_back_exact:
  assumes sw: "grid (site_width row)" "0 < site_width row" and ox: "grid (x (origin row))"
    and M: "M \<in> \<int>" "\<bar>M\<bar> \<le> 2 ^ 41"
  shows "snap_back row M = x (origin row)
      + of_int \<lceil>fl (fl (fl (M - x (origin row)) / site_width row) - eps)\<rceil> * site_width row"
proof -
  from sw ox have i: "site_width row \<in> \<int>" "x (origin row) \<in> \<int>" by (simp_all add: grid_def)
  note b = grid_bounds [OF ox]
  have a: "M - x (origin row) \<in> \<int>" "\<bar>M - x (origin row)\<bar> \<le> 2 ^ 42"
    using M i b by (simp_all add: abs_le_iff)
  have e: "\<bar>- eps\<bar> < 1 / 1000" using eps_bound by simp
  note q = snap_quotient [OF i(1) sw(2) a e]
  show ?thesis unfolding snap_back_def
    using snap_index_exact [OF sw ox a(2) ceiling_near [OF q]] by simp
qed

lemma snap_front_le_back:
  assumes sw: "grid (site_width row)" "0 < site_width row" and ox: "grid (x (origin row))"
    and Mi: "MINx \<in> \<int>" "\<bar>MINx\<bar> \<le> 2 ^ 41" and Ma: "MAXx \<in> \<int>" "\<bar>MAXx\<bar> \<le> 2 ^ 41"
    and le: "MINx \<le> MAXx"
  shows "snap_front row MINx \<le> snap_back row MAXx"
proof -
  from sw ox have i: "site_width row \<in> \<int>" "x (origin row) \<in> \<int>" by (simp_all add: grid_def)
  note bo = grid_bounds [OF ox]
  define a where "a = MINx - x (origin row)"
  define b where "b = MAXx - x (origin row)"
  define u where "u = fl (fl (fl a / site_width row) + eps)"
  define v where "v = fl (fl (fl b / site_width row) - eps)"
  have ai: "a \<in> \<int>" "\<bar>a\<bar> \<le> 2 ^ 42" using Mi i bo by (simp_all add: a_def abs_le_iff)
  have bi: "b \<in> \<int>" "\<bar>b\<bar> \<le> 2 ^ 42" using Ma i bo by (simp_all add: b_def abs_le_iff)
  have e1: "\<bar>eps\<bar> < 1 / 1000" and e2: "\<bar>- eps\<bar> < 1 / 1000" using eps_bound by simp_all
  have qu: "\<bar>u - a / site_width row\<bar> \<le> 1 / 4"
    unfolding u_def by (rule snap_quotient [OF i(1) sw(2) ai e1])
  have qv: "\<bar>v - b / site_width row\<bar> \<le> 1 / 4"
    unfolding v_def using snap_quotient [OF i(1) sw(2) bi e2] by simp
  have ab: "a / site_width row \<le> b / site_width row"
    unfolding a_def b_def using sw(2) le by (simp add: divide_right_mono)
  have "u - v < 1" using qu qv ab by linarith
  moreover have "of_int \<lfloor>u\<rfloor> \<le> u" by (rule of_int_floor_le)
  moreover have "v \<le> of_int \<lceil>v\<rceil>" by (rule le_of_int_ceiling)
  ultimately have "(of_int \<lfloor>u\<rfloor> :: real) < of_int \<lceil>v\<rceil> + 1" by linarith
  then have "(of_int \<lfloor>u\<rfloor> :: real) < of_int (\<lceil>v\<rceil> + 1)" by simp
  then have "\<lfloor>u\<rfloor> < \<lceil>v\<rceil> + 1" by (simp only: of_int_less_iff)
  then have "\<lfloor>u\<rfloor> \<le> \<lceil>v\<rceil>" by simp
  then have "(of_int \<lfloor>u\<rfloor> :: real) \<le> of_int \<lceil>v\<rceil>" by (simp only: of_int_le_iff)
  then have "of_int \<lfloor>u\<rfloor> * site_width row \<le> of_int \<lceil>v\<rceil> * site_width row"
    using sw(2) by (simp add: mult_right_mono)
  then show ?thesis
    unfolding snap_front_exact [OF sw ox Mi] snap_back_exact [OF sw ox Ma]
    by (simp add: u_def v_def a_def b_def)
qed

lemma snap_on_site:
  assumes sw: "grid (site_width row)" "0 < site_width row" and ox: "grid (x (origin row))"
    and M: "M \<in> \<int>" "\<bar>M\<bar> \<le> 2 ^ 41"
  shows "on_site (site_width row) (snap_front row M - x (origin row))"
    and "on_site (site_width row) (snap_back row M - x (origin row))"
    and "snap_front row M \<in> \<int>" and "snap_back row M \<in> \<int>"
proof -
  from sw ox have i: "site_width row \<in> \<int>" "x (origin row) \<in> \<int>" by (simp_all add: grid_def)
  have sw0: "site_width row \<noteq> 0" using sw(2) by simp
  show "on_site (site_width row) (snap_front row M - x (origin row))"
    unfolding snap_front_exact [OF sw ox M] using sw0 by simp
  show "on_site (site_width row) (snap_back row M - x (origin row))"
    unfolding snap_back_exact [OF sw ox M] using sw0 by simp
  show "snap_front row M \<in> \<int>" unfolding snap_front_exact [OF sw ox M] using i by simp
  show "snap_back row M \<in> \<int>" unfolding snap_back_exact [OF sw ox M] using i by simp
qed

lemma carve_within:
  "s' \<in> set (carve front back srs) \<Longrightarrow>
   \<exists>t\<in>set srs. x_min t \<le> x_min s' \<and> x_max s' \<le> x_max t"
proof (induction srs)
  case Nil
  then show ?case by simp
next
  case (Cons s srs)
  then show ?case
    by (auto simp: SubRow_ctor_def split: if_splits)
qed

lemma grid_between:
  "grid lo \<Longrightarrow> grid hi \<Longrightarrow> v \<in> \<int> \<Longrightarrow> lo \<le> v \<Longrightarrow> v \<le> hi \<Longrightarrow> grid v"
  by (simp add: grid_def abs_le_iff)

lemma fl_diff_grid: "grid a \<Longrightarrow> grid b \<Longrightarrow> fl (a - b) = a - b"
  by (rule fl_diff_Ints) (simp_all add: grid_def abs_le_iff)

lemma carve_fresh:
  assumes sw: "sw \<noteq> 0" and fb: "front \<le> back"
    and f: "on_site sw (front - ox)" and b: "on_site sw (back - ox)"
    and fi: "front \<in> \<int>" and bi: "back \<in> \<int>"
  shows "fresh_ok sw ox srs \<Longrightarrow> fresh_ok sw ox (carve front back srs)"
proof (induction srs)
  case Nil
  then show ?case by (simp add: fresh_ok_def)
next
  case (Cons s srs)
  from Cons.prems have s: "clusters s = []" "Usewidth s = x_max s - x_min s" "x_min s \<le> x_max s"
      "on_site sw (x_min s - ox)" "on_site sw (x_max s - ox)"
    and g: "grid (x_min s)" "grid (x_max s)"
    and after: "\<forall>t\<in>set srs. x_max s \<le> x_min t"
    and rest: "fresh_ok sw ox srs"
    by (auto simp: fresh_ok_def)
  note ih = Cons.IH [OF rest]
  have after': "\<forall>t\<in>set (carve front back srs). x_max s \<le> x_min t"
  proof
    fix t assume "t \<in> set (carve front back srs)"
    from carve_within [OF this] obtain u where "u \<in> set srs" "x_min u \<le> x_min t" by blast
    with after show "x_max s \<le> x_min t" by fastforce
  qed
  have gf: "x_min s \<le> front \<Longrightarrow> front \<le> x_max s \<Longrightarrow> grid front"
    by (rule grid_between [OF g fi])
  have gb: "x_min s \<le> back \<Longrightarrow> back \<le> x_max s \<Longrightarrow> grid back"
    by (rule grid_between [OF g bi])
  consider (c1) "x_max s \<le> front \<or> back \<le> x_min s"
    | (c2) "\<not> (x_max s \<le> front \<or> back \<le> x_min s)" "front \<le> x_min s \<and> back \<ge> x_max s"
    | (c3) "\<not> (x_max s \<le> front \<or> back \<le> x_min s)" "\<not> (front \<le> x_min s \<and> back \<ge> x_max s)"
           "front \<le> x_min s \<and> back < x_max s"
    | (c4) "\<not> (x_max s \<le> front \<or> back \<le> x_min s)" "\<not> (front \<le> x_min s \<and> back \<ge> x_max s)"
           "\<not> (front \<le> x_min s \<and> back < x_max s)" "front > x_min s \<and> back \<ge> x_max s"
    | (c5) "\<not> (x_max s \<le> front \<or> back \<le> x_min s)" "\<not> (front \<le> x_min s \<and> back \<ge> x_max s)"
           "\<not> (front \<le> x_min s \<and> back < x_max s)" "\<not> (front > x_min s \<and> back \<ge> x_max s)"
    by blast
  then show ?case
  proof cases
    case c1
    then have eq: "carve front back (s # srs) = s # carve front back srs" by simp
    show ?thesis unfolding eq using ih s g after' by (simp add: fresh_ok_def)
  next
    case c2
    then have eq: "carve front back (s # srs) = carve front back srs" by simp
    show ?thesis unfolding eq by (rule ih)
  next
    case c3
    then have eq: "carve front back (s # srs)
        = s\<lparr>x_min := back, Usewidth := fl (x_max s - back)\<rparr> # carve front back srs" by simp
    have gB: "grid back" using c3 by (intro gb) simp_all
    have e: "fl (x_max s - back) = x_max s - back" by (rule fl_diff_grid [OF g(2) gB])
    show ?thesis unfolding eq e using ih s g after' gB b c3 by (simp add: fresh_ok_def)
  next
    case c4
    then have eq: "carve front back (s # srs)
        = s\<lparr>x_max := front, Usewidth := fl (front - x_min s)\<rparr> # carve front back srs" by simp
    have gF: "grid front" using c4 by (intro gf) simp_all
    have e: "fl (front - x_min s) = front - x_min s" by (rule fl_diff_grid [OF gF g(1)])
    have after'': "\<forall>t\<in>set (carve front back srs). front \<le> x_min t"
      using after' c4 by fastforce
    show ?thesis unfolding eq e using ih s g after'' gF f c4 by (simp add: fresh_ok_def)
  next
    case c5
    then have eq: "carve front back (s # srs)
        = SubRow_ctor (x_min s) front # SubRow_ctor back (x_max s) # carve front back srs"
      by simp
    have gF: "grid front" using c5 fb by (intro gf) linarith+
    have gB: "grid back" using c5 fb by (intro gb) linarith+
    have e: "fl (front - x_min s) = front - x_min s" "fl (x_max s - back) = x_max s - back"
      by (rule fl_diff_grid [OF gF g(1)], rule fl_diff_grid [OF g(2) gB])
    have o: "x_min s \<le> front" "back \<le> x_max s" using c5 by linarith+
    have after'': "\<forall>t\<in>set (carve front back srs). front \<le> x_min t"
      using after' o(2) fb by fastforce
    show ?thesis unfolding eq using ih s g after' after'' gF gB f b fb o
      by (simp add: fresh_ok_def SubRow_ctor_def e)
  qed
qed

lemma carve_row_fresh:
  assumes "fresh_row r" and "MINx \<le> MAXx"
    and Mi: "MINx \<in> \<int>" "\<bar>MINx\<bar> \<le> 2 ^ 41" and Ma: "MAXx \<in> \<int>" "\<bar>MAXx\<bar> \<le> 2 ^ 41"
  shows "fresh_row (carve_row MINx MAXx MINy MAXy r)"
proof -
  from assms(1) have sw: "grid (site_width r)" "0 < site_width r" and sw0: "site_width r \<noteq> 0"
    and ox: "grid (x (origin r))"
    and f: "fresh_ok (site_width r) (x (origin r)) (subrows r)"
    by (simp_all add: fresh_row_def)
  have "fresh_ok (site_width r) (x (origin r))
      (carve (snap_front r MINx) (snap_back r MAXx) (subrows r))"
    by (rule carve_fresh [OF sw0 snap_front_le_back [OF sw ox Mi Ma assms(2)]
          snap_on_site(1) [OF sw ox Mi] snap_on_site(2) [OF sw ox Ma]
          snap_on_site(3) [OF sw ox Mi] snap_on_site(4) [OF sw ox Ma] f])
  then show ?thesis using assms(1) by (simp add: carve_row_def fresh_row_def)
qed

lemma carve_instance_fresh:
  assumes "\<forall>r\<in>set rows. fresh_row r" and "\<forall>i. insts k = Some i \<longrightarrow> cell_ok i"
  shows "\<forall>r\<in>set (carve_instance insts k rows). fresh_row r"
proof (cases "insts k")
  case None
  then show ?thesis using assms(1) by (simp add: carve_instance_def)
next
  case (Some blk)
  show ?thesis
  proof (cases "cell_template blk")
    case None
    then show ?thesis using assms(1) Some by (simp add: carve_instance_def)
  next
    case (Some ct)
    have ok: "0 \<le> ct_width ct" "grid (ct_width ct)" "grid (x (position blk))"
      using assms(2) \<open>insts k = Some blk\<close> Some by (simp_all add: get_width_def cell_ok_def)
    note b = grid_bounds [OF ok(2)] grid_bounds [OF ok(3)]
    from ok have i: "ct_width ct \<in> \<int>" "x (position blk) \<in> \<int>" by (simp_all add: grid_def)
    have e: "fl (x (position blk) + ct_width ct) = x (position blk) + ct_width ct"
      by (rule fl_add_Ints [OF i(2) i(1)]) (use b in \<open>simp add: abs_le_iff\<close>)
    have c: "fresh_row (carve_row (x (position blk)) (x (position blk) + ct_width ct) MINy MAXy r)"
      if "fresh_row r" for r MINy MAXy
      by (rule carve_row_fresh [OF that]) (use ok i b in \<open>simp_all add: abs_le_iff\<close>)
    show ?thesis using assms(1) \<open>insts k = Some blk\<close> Some
      by (auto simp: carve_instance_def e intro: c)
  qed
qed

lemma carve_rectangle_fresh:
  assumes "\<forall>r\<in>set rows. fresh_row r" and "x1 rect \<le> x2 rect"
    and "grid (x1 rect)" "grid (x2 rect)"
  shows "\<forall>r\<in>set (carve_rectangle rect rows). fresh_row r"
proof -
  note b = grid_bounds [OF assms(3)] grid_bounds [OF assms(4)]
  have c: "fresh_row (carve_row (x1 rect) (x2 rect) MINy MAXy r)"
    if "fresh_row r" for r MINy MAXy
    by (rule carve_row_fresh [OF that assms(2)])
      (use assms(3,4) b in \<open>simp_all add: grid_def abs_le_iff\<close>)
  show ?thesis using assms(1) by (auto simp: carve_rectangle_def intro: c)
qed

lemma fold_carve_instance_fresh:
  assumes "\<forall>k i. insts k = Some i \<longrightarrow> cell_ok i"
  shows "\<forall>r\<in>set rows. fresh_row r \<Longrightarrow>
         \<forall>r\<in>set (fold (carve_instance insts) ks rows). fresh_row r"
proof (induction ks arbitrary: rows)
  case Nil
  then show ?case by simp
next
  case (Cons k ks)
  have "\<forall>r\<in>set (carve_instance insts k rows). fresh_row r"
    by (rule carve_instance_fresh [OF Cons.prems]) (use assms in blast)
  from Cons.IH [OF this] show ?case by simp
qed

lemma fold_carve_rectangle_fresh:
  "\<forall>rect\<in>set rects. x1 rect \<le> x2 rect \<and> grid (x1 rect) \<and> grid (x2 rect) \<Longrightarrow>
   \<forall>r\<in>set rows. fresh_row r \<Longrightarrow>
   \<forall>r\<in>set (fold carve_rectangle rects rows). fresh_row r"
proof (induction rects arbitrary: rows)
  case Nil
  then show ?case by simp
next
  case (Cons rect rects)
  have "\<forall>r\<in>set (carve_rectangle rect rows). fresh_row r"
    by (rule carve_rectangle_fresh [OF Cons.prems(2)]) (use Cons.prems(1) in simp_all)
  from Cons.IH [OF _ this] Cons.prems(1) show ?case by simp
qed

lemma buildSubRows_fresh:
  assumes "\<forall>r\<in>set (placement_rows db). fresh_row r"
    and "\<forall>k i. instances db k = Some i \<longrightarrow> cell_ok i"
    and "\<forall>rect\<in>set (placement_blockages db). x1 rect \<le> x2 rect \<and> grid (x1 rect) \<and> grid (x2 rect)"
  shows "(\<forall>r\<in>set (placement_rows (buildSubRows blk db)). fresh_row r)
       \<and> instances (buildSubRows blk db) = instances db
       \<and> placement_blockages (buildSubRows blk db) = placement_blockages db"
proof -
  have "\<forall>r\<in>set (fold carve_rectangle (placement_blockages db)
      (fold (carve_instance (instances db)) (sort_key (position_x_of (instances db)) blk)
         (placement_rows db))). fresh_row r"
    by (intro fold_carve_rectangle_fresh fold_carve_instance_fresh assms)
  then show ?thesis by (simp add: buildSubRows_def Let_def)
qed

lemma init_row_fresh:
  assumes "wf_row r" and "grid_row r"
  shows "fresh_row (init_row i r)"
proof -
  from assms have r: "subrows r = []" "site_width r = 0" "0 < step_x r" "0 \<le> num_x r"
    by (simp_all add: wf_row_def)
  from assms(2) have g: "grid (x (origin r))" "grid (step_x r)"
    "grid (x (origin r) + step_x r * real_of_int (num_x r))" by (simp_all add: grid_row_def)
  from g have i: "x (origin r) \<in> \<int>" "step_x r \<in> \<int>" by (simp_all add: grid_def)
  note b = grid_bounds [OF g(1)] grid_bounds [OF g(3)]
  have pi: "step_x r * real_of_int (num_x r) \<in> \<int>" using i by simp
  have e1: "fl (step_x r * real_of_int (num_x r)) = step_x r * real_of_int (num_x r)"
    by (rule fl_Ints [OF pi]) (use b in \<open>simp add: abs_le_iff\<close>)
  have e2: "fl (x (origin r) + step_x r * real_of_int (num_x r))
      = x (origin r) + step_x r * real_of_int (num_x r)"
    by (rule fl_add_Ints [OF i(1) pi]) (use b in \<open>simp add: abs_le_iff\<close>)
  have e3: "fl (x (origin r) + step_x r * real_of_int (num_x r) - x (origin r))
      = step_x r * real_of_int (num_x r)"
    using e1 by simp
  have "on_site (step_x r) (step_x r * real_of_int (num_x r))"
    using on_site_int [of "step_x r" "num_x r"] r(3) by (simp add: mult.commute)
  moreover have "0 \<le> step_x r * real_of_int (num_x r)" using r by simp
  ultimately show ?thesis using r g
    by (simp add: init_row_def Let_def fresh_row_def fresh_ok_def SubRow_ctor_def e1 e2 e3)
qed

lemma Legalizer_ctor_fresh:
  assumes "\<forall>r\<in>set (placement_rows db). wf_row r \<and> grid_row r"
  shows "(\<forall>r\<in>set (placement_rows (lg_db (Legalizer_ctor md db))). fresh_row r)
       \<and> instances (lg_db (Legalizer_ctor md db)) = instances db
       \<and> placement_blockages (lg_db (Legalizer_ctor md db)) = placement_blockages db
       \<and> lg_max_disp (Legalizer_ctor md db) = md \<and> warnings (Legalizer_ctor md db) = []
       \<and> length (placement_rows (lg_db (Legalizer_ctor md db))) = length (placement_rows db)"
proof -
  have "fresh_row r'" if "r' \<in> set (map (\<lambda>(i, r). init_row (int i) r)
      (enumerate 0 (placement_rows db)))" for r'
  proof -
    from that obtain i r where "(i, r) \<in> set (enumerate 0 (placement_rows db))"
      "r' = init_row (int i) r" by auto
    moreover then have "r \<in> set (placement_rows db)" by (auto simp: in_set_enumerate_eq)
    ultimately show ?thesis using assms init_row_fresh by blast
  qed
  then show ?thesis by (simp add: Legalizer_ctor_def)
qed

lemma fresh_row_ok:
  assumes "fresh_row r"
  shows "row_ok wd r \<and> row_members r = []"
proof -
  from assms have sw: "0 < site_width r" and sw0: "site_width r \<noteq> 0"
    and gs: "grid (site_width r)" "grid (x (origin r))"
    and f: "fresh_ok (site_width r) (x (origin r)) (subrows r)"
    by (simp_all add: fresh_row_def)
  have "subrow_ok (site_width r) W s" if "s \<in> set (subrows r)" for s W
  proof -
    from f that have s: "clusters s = []" "Usewidth s = x_max s - x_min s" "x_min s \<le> x_max s"
      "on_site (site_width r) (x_min s - x (origin r))"
      "on_site (site_width r) (x_max s - x (origin r))" by (auto simp: fresh_ok_def)
    have "x_max s - x_min s = (x_max s - x (origin r)) - (x_min s - x (origin r))" by simp
    then have "on_site (site_width r) (x_max s - x_min s)"
      using on_site_diff [OF sw0 s(5) s(4)] by simp
    then show ?thesis using s by (simp add: subrow_ok_def)
  qed
  moreover have "subrow_members s = []" if "s \<in> set (subrows r)" for s
    using f that by (simp add: fresh_ok_def subrow_members_def)
  ultimately show ?thesis using f sw gs
    by (auto simp: row_ok_def fresh_ok_def row_members_def)
qed

lemma is_flip_flop_core [simp]: "is_flip_flop (core i) = is_flip_flop i"
  by (simp add: is_flip_flop_def core_def)

lemma classify_loop_res:
  "fst (classify_loop ks insts ff blk) =
     ff @ filter (\<lambda>k. case cores insts k of Some i \<Rightarrow> is_flip_flop i | None \<Rightarrow> False) ks
   \<and> cores (snd (snd (classify_loop ks insts ff blk))) = cores insts"
proof (induction ks arbitrary: insts ff blk)
  case Nil
  then show ?case by simp
next
  case (Cons k ks)
  show ?case
  proof (cases "insts k")
    case None
    then have "cores insts k = None" by (simp add: cores_def)
    then show ?thesis using None Cons.IH [of insts ff blk] by simp
  next
    case (Some inst)
    then have c: "cores insts k = Some (core inst)" by (simp add: cores_def)
    show ?thesis
    proof (cases "is_flip_flop inst")
      case True
      then show ?thesis using Some c Cons.IH [of insts "ff @ [k]" blk] by simp
    next
      case False
      define ins' where "ins' = insts(k \<mapsto> set_new_to_position inst)"
      have e: "cores ins' = cores insts"
        unfolding ins'_def
        using cores_put [of insts k inst "set_new_to_position inst"] Some by simp
      have step: "classify_loop (k # ks) insts ff blk = classify_loop ks ins' ff (blk @ [k])"
        using Some False by (simp add: ins'_def)
      note ih = Cons.IH [of ins' ff "blk @ [k]", unfolded e]
      show ?thesis unfolding step using ih c False by simp
    qed
  qed
qed

lemma mset_subset_distinct:
  assumes "mset xs \<subseteq># mset ys" and "distinct ys"
  shows "distinct xs"
proof -
  have "count (mset xs) a \<le> 1" for a
  proof -
    have "count (mset xs) a \<le> count (mset ys) a"
      using assms(1) by (rule mset_subset_eq_count)
    also have "\<dots> \<le> 1" using assms(2) by (simp add: distinct_count_atmost_1)
    finally show ?thesis .
  qed
  then show ?thesis
    unfolding distinct_count_atmost_1
    by (metis count_mset_0_iff le_antisym le_zero_eq less_one linorder_not_less
        nat_le_linear)
qed

subsection \<open>Legalizer: the invariant after \<open>Abacus\<close>\<close>

lemma all_members_fresh:
  "\<forall>r\<in>set rows. fresh_row r \<Longrightarrow> all_members rows = []"
  by (induction rows) (auto simp: all_members_def dest: fresh_row_ok)

lemma cell_ok_core [simp]: "cell_ok (core i) = cell_ok i"
  by (simp add: cell_ok_def core_def get_width_def)

lemma cores_cell_ok:
  "(\<forall>k i. cores insts k = Some i \<longrightarrow> cell_ok i) = (\<forall>k i. insts k = Some i \<longrightarrow> cell_ok i)"
proof
  assume a: "\<forall>k i. cores insts k = Some i \<longrightarrow> cell_ok i"
  show "\<forall>k i. insts k = Some i \<longrightarrow> cell_ok i"
  proof (intro allI impI)
    fix k i assume "insts k = Some i"
    then have "cores insts k = Some (core i)" by (simp add: cores_def)
    with a have "cell_ok (core i)" by blast
    then show "cell_ok i" by simp
  qed
next
  assume a: "\<forall>k i. insts k = Some i \<longrightarrow> cell_ok i"
  show "\<forall>k i. cores insts k = Some i \<longrightarrow> cell_ok i"
  proof (intro allI impI)
    fix k i0 assume "cores insts k = Some i0"
    then obtain i where "insts k = Some i" "i0 = core i" by (auto simp: cores_def)
    with a show "cell_ok i0" by simp
  qed
qed

lemma Abacus_inv:
  assumes rows: "\<forall>r\<in>set (placement_rows db). wf_row r \<and> grid_row r"
    and Cw: "\<forall>k i. instances db k = Some i \<longrightarrow> cell_ok i"
    and blk: "\<forall>rect\<in>set (placement_blockages db).
                x1 rect \<le> x2 rect \<and> grid (x1 rect) \<and> grid (x2 rect)"
    and keys: "distinct keys"
  shows "leg_inv (cores (instances db)) (Abacus keys (Legalizer_ctor md db))
     \<and> distinct (all_members (placement_rows (lg_db (Abacus keys (Legalizer_ctor md db)))))
     \<and> set (all_members (placement_rows (lg_db (Abacus keys (Legalizer_ctor md db)))))
          \<subseteq> {k \<in> set keys. \<exists>i. instances db k = Some i \<and> is_flip_flop i}
     \<and> lg_max_disp (Abacus keys (Legalizer_ctor md db)) = md
     \<and> (\<forall>k\<in>{k \<in> set keys. \<exists>i. instances db k = Some i \<and> is_flip_flop i}.
           k \<in> set (all_members (placement_rows (lg_db (Abacus keys (Legalizer_ctor md db)))))
           \<or> warned k (warnings (Abacus keys (Legalizer_ctor md db))))"
proof -
  define C where "C = cores (instances db)"
  define lg0 where "lg0 = Legalizer_ctor md db"
  note c0 = Legalizer_ctor_fresh [OF rows, of md, folded lg0_def]
  define cl where "cl = classify_loop keys (instances (lg_db lg0)) [] []"
  define ff where "ff = fst cl"
  define bl where "bl = fst (snd cl)"
  define db1 where "db1 = instances_update (\<lambda>_. snd (snd cl)) (lg_db lg0)"
  have cl: "classify_instances keys (lg_db lg0) = (ff, bl, db1)"
    by (simp add: classify_instances_def cl_def ff_def bl_def db1_def split: prod.splits)
  from classify_loop_res [of keys "instances (lg_db lg0)" "[]" "[]"] c0
  have ffeq: "ff = filter (\<lambda>k. case C k of Some i \<Rightarrow> is_flip_flop i | None \<Rightarrow> False) keys"
    and c1: "cores (instances db1) = C"
    by (simp_all add: ff_def cl_def db1_def C_def)
  have CW: "\<forall>k i. C k = Some i \<longrightarrow> cell_ok i"
    unfolding C_def cores_cell_ok by (rule Cw)
  have w1: "\<forall>k i. instances db1 k = Some i \<longrightarrow> cell_ok i"
    using CW unfolding c1 [symmetric] cores_cell_ok .
  define db2 where "db2 = buildSubRows bl db1"
  have r1: "\<forall>r\<in>set (placement_rows db1). fresh_row r"
    and b1: "\<forall>rect\<in>set (placement_blockages db1).
               x1 rect \<le> x2 rect \<and> grid (x1 rect) \<and> grid (x2 rect)"
    using c0 blk by (simp_all add: db1_def)
  note b2 = buildSubRows_fresh [OF r1 w1 b1, of bl, folded db2_def]
  define lg2 where "lg2 = lg_db_update (\<lambda>_. db2) lg0"
  define sff where "sff = sort_key (position_x_of (instances db2)) ff"
  have ab: "Abacus keys lg0 = fold Abacus_instance sff lg2"
    by (simp add: Abacus_def cl Let_def db2_def lg2_def sff_def)
  have inv2: "leg_inv C lg2"
    using b2 c1 fresh_row_ok by (auto simp: leg_inv_def lg2_def)
  have mem2: "all_members (placement_rows (lg_db lg2)) = []"
    using all_members_fresh b2 by (simp add: lg2_def)
  have sff: "set sff = set ff" "distinct sff"
    using keys by (simp_all add: sff_def ffeq)
  have tmpl: "\<forall>nm\<in>set sff. \<exists>i0. C nm = Some i0 \<and> cell_template i0 \<noteq> None"
    unfolding sff(1) ffeq by (auto simp: is_flip_flop_def split: option.splits)
  have ffset: "set sff = {k \<in> set keys. \<exists>i. instances db k = Some i \<and> is_flip_flop i}"
    unfolding sff(1) ffeq C_def by (auto simp: cores_def split: option.splits)
  note l = Abacus_loop_inv [OF CW inv2 tmpl]
  from l mem2 have sub: "mset (all_members (placement_rows (lg_db (fold Abacus_instance sff lg2))))
      \<subseteq># mset sff" by simp
  have d: "distinct (all_members (placement_rows (lg_db (fold Abacus_instance sff lg2))))"
    by (rule mset_subset_distinct [OF sub sff(2)])
  have s: "set (all_members (placement_rows (lg_db (fold Abacus_instance sff lg2)))) \<subseteq> set sff"
    using set_mset_mono [OF sub] by simp
  have md: "lg_max_disp lg2 = md" using c0 by (simp add: lg2_def)
  from l have cmp: "\<forall>n\<in>set sff.
      n \<in> set (all_members (placement_rows (lg_db (fold Abacus_instance sff lg2))))
      \<or> warned n (warnings (fold Abacus_instance sff lg2))" by blast
  show ?thesis
    unfolding lg0_def [symmetric] ab C_def [symmetric] ffset [symmetric]
    using l d s md cmp by simp
qed

subsection \<open>Legalizer: what \<open>place\<close> writes\<close>

lemma placedCellWidth_0 [simp]: "placedCellWidth sw 0 = 0"
  by (simp add: placedCellWidth_def)

lemma name_width_apply_write [simp]: "name_width (apply_write w insts) = name_width insts"
  by (auto simp: apply_write_def name_width_def get_width_def fun_eq_iff
      split: prod.splits option.splits)

lemma cores_apply_write [simp]: "cores (apply_write w insts) = cores insts"
  by (auto simp: apply_write_def cores_def core_def fun_eq_iff split: prod.splits option.splits)

lemma name_width_fold_write [simp]: "name_width (fold apply_write ws insts) = name_width insts"
  by (induction ws arbitrary: insts) auto

lemma cores_fold_write [simp]: "cores (fold apply_write ws insts) = cores insts"
  by (induction ws arbitrary: insts) auto

lemma place_cells_writes:
  "fl xx = xx \<Longrightarrow>
   place_cells sw oy nms xx insts =
     fold apply_write (cell_writes sw oy (name_width insts) nms xx) insts"
proof (induction nms arbitrary: xx insts)
  case Nil
  then show ?case by simp
next
  case (Cons nm nms)
  show ?case
  proof (cases "insts nm")
    case None
    then have "name_width insts nm = 0" by (simp add: name_width_def)
    then show ?thesis using None Cons.IH [of xx insts] Cons.prems
      by (simp add: apply_write_def)
  next
    case (Some inst)
    define ins' where "ins' = insts(nm \<mapsto> inst\<lparr>x_new := xx, y_new := oy\<rparr>)"
    have a: "apply_write (nm, xx, oy) insts = ins'" using Some by (simp add: apply_write_def ins'_def)
    have w: "name_width ins' = name_width insts" unfolding a [symmetric] by simp
    have g: "get_width inst = name_width insts nm" using Some by (simp add: name_width_def)
    have "place_cells sw oy (nm # nms) xx insts
        = place_cells sw oy nms (fl (xx + placedCellWidth sw (get_width inst))) ins'"
      using Some by (simp add: ins'_def)
    also have "\<dots> = fold apply_write (cell_writes sw oy (name_width insts) nms
        (fl (xx + placedCellWidth sw (get_width inst)))) ins'"
      using Cons.IH [of "fl (xx + placedCellWidth sw (get_width inst))" ins'] by (simp add: w)
    finally show ?thesis by (simp add: a g)
  qed
qed

lemma fold_concat_map:
  assumes "\<And>a s. a \<in> set xs \<Longrightarrow> name_width s = wd \<Longrightarrow> f a s = fold apply_write (g a) s"
  shows "name_width s = wd \<Longrightarrow> fold f xs s = fold apply_write (concat (map g xs)) s"
  using assms
proof (induction xs arbitrary: s)
  case Nil
  then show ?case by simp
next
  case (Cons a xs)
  have 1: "f a s = fold apply_write (g a) s" using Cons.prems by simp
  have 2: "name_width (f a s) = wd" unfolding 1 using Cons.prems(1) by simp
  have "fold f xs (f a s) = fold apply_write (concat (map g xs)) (f a s)"
    by (rule Cons.IH [OF 2]) (use Cons.prems(2) in simp)
  then show ?case by (simp add: 1)
qed

lemma place_writes:
  "fold place_row rows insts = fold apply_write (all_writes (name_width insts) rows) insts"
proof -
  define wd where "wd = name_width insts"
  have c: "place_cluster row sub c s = fold apply_write (cluster_writes wd row sub c) s"
    if "name_width s = wd" for row sub c s
    using that by (simp add: place_cluster_def cluster_writes_def place_cells_writes)
  have sr: "place_subrow row sub s = fold apply_write (subrow_writes wd row sub) s"
    if "name_width s = wd" for row sub s
    unfolding place_subrow_def subrow_writes_def
    by (rule fold_concat_map [OF _ that]) (rule c)
  have r: "place_row row s = fold apply_write (row_writes wd row) s"
    if "name_width s = wd" for row s
    unfolding place_row_def row_writes_def
    by (rule fold_concat_map [OF _ that]) (rule sr)
  have "fold place_row rows insts = fold apply_write (all_writes wd rows) insts"
    unfolding all_writes_def
    by (rule fold_concat_map [OF _ wd_def [symmetric]]) (rule r)
  then show ?thesis by (simp add: wd_def)
qed

lemma cell_writes_names [simp]: "map fst (cell_writes sw oy wd nms xx) = nms"
  by (induction nms arbitrary: xx) auto

lemma cluster_writes_names [simp]: "map fst (cluster_writes wd row sub c) = cellInCluster c"
  by (simp add: cluster_writes_def)

lemma subrow_writes_names [simp]: "map fst (subrow_writes wd row sub) = subrow_members sub"
  by (simp add: subrow_writes_def subrow_members_def map_concat comp_def)

lemma row_writes_names [simp]: "map fst (row_writes wd r) = row_members r"
  by (simp add: row_writes_def row_members_def map_concat comp_def)

lemma all_writes_names [simp]: "map fst (all_writes wd rows) = all_members rows"
  by (simp add: all_writes_def all_members_def map_concat comp_def)

lemma fold_write_other:
  "nm \<notin> fst ` set ws \<Longrightarrow> fold apply_write ws insts nm = insts nm"
proof (induction ws arbitrary: insts)
  case Nil
  then show ?case by simp
next
  case (Cons w ws)
  obtain n xv yv where w: "w = (n, xv, yv)" by (cases w) auto
  have "apply_write w insts nm = insts nm"
    using Cons.prems by (auto simp: w apply_write_def split: option.splits)
  then show ?case using Cons by simp
qed

lemma fold_write_at:
  "distinct (map fst ws) \<Longrightarrow> (nm, xv, yv) \<in> set ws \<Longrightarrow> insts nm = Some i \<Longrightarrow>
   fold apply_write ws insts nm = Some (i\<lparr>x_new := xv, y_new := yv\<rparr>)"
proof (induction ws arbitrary: insts i)
  case Nil
  then show ?case by simp
next
  case (Cons w ws)
  obtain n xv' yv' where w: "w = (n, xv', yv')" by (cases w) auto
  show ?case
  proof (cases "(nm, xv, yv) = w")
    case True
    then have n: "n = nm" "xv' = xv" "yv' = yv" using w by simp_all
    have "nm \<notin> fst ` set ws" using Cons.prems(1) w n by simp
    then have "fold apply_write ws (apply_write w insts) nm = apply_write w insts nm"
      by (rule fold_write_other)
    moreover have "apply_write w insts nm = Some (i\<lparr>x_new := xv, y_new := yv\<rparr>)"
      using Cons.prems(3) by (simp add: w n apply_write_def)
    ultimately show ?thesis by simp
  next
    case False
    then have mem: "(nm, xv, yv) \<in> set ws" using Cons.prems(2) by simp
    then have "nm \<in> fst ` set ws" by force
    then have "n \<noteq> nm" using Cons.prems(1) w by auto
    then have aw: "apply_write w insts nm = Some i"
      using Cons.prems(3) by (auto simp: w apply_write_def split: option.splits)
    have d: "distinct (map fst ws)" using Cons.prems(1) by simp
    from Cons.IH [of "apply_write w insts" i, OF d mem aw] show ?thesis by simp
  qed
qed

subsection \<open>Legalizer: geometry of the assignments\<close>

lemma cell_writes_geom:
  assumes sw: "grid sw" "0 < sw" and wd: "\<forall>n. 0 \<le> wd n \<and> grid (wd n)" and gb: "grid base"
  shows "on_site sw (xx - base) \<Longrightarrow> - (2 ^ 40) \<le> xx \<Longrightarrow>
       xx + sum_list (map (\<lambda>n. placedCellWidth sw (wd n)) nms) \<le> 2 ^ 40 \<Longrightarrow>
       sorted_wrt (\<lambda>a b. disjoint_iv (footprint sw wd a) (footprint sw wd b))
           (cell_writes sw oy wd nms xx)
       \<and> (\<forall>w\<in>set (cell_writes sw oy wd nms xx).
             xx \<le> fst (footprint sw wd w)
             \<and> snd (footprint sw wd w) \<le> xx + sum_list (map (\<lambda>n. placedCellWidth sw (wd n)) nms)
             \<and> on_site sw (fst (footprint sw wd w) - base) \<and> snd (snd w) = oy)"
proof (induction nms arbitrary: xx)
  case Nil
  then show ?case by simp
next
  case (Cons nm nms)
  have sw0: "sw \<noteq> 0" using sw by simp
  from sw gb have i: "sw \<in> \<int>" "base \<in> \<int>" by (simp_all add: grid_def)
  define p where "p = placedCellWidth sw (wd nm)"
  have wn: "grid (wd nm)" "0 \<le> wd nm" using wd by simp_all
  have p0: "0 \<le> p" unfolding p_def by (rule placedCellWidth_nonneg [OF sw wn])
  have ps: "on_site sw p" unfolding p_def by (rule on_site_placedCellWidth [OF sw wn])
  have pi: "p \<in> \<int>" by (rule on_site_Ints [OF i(1) sw0 ps])
  have "xx - base \<in> \<int>" by (rule on_site_Ints [OF i(1) sw0 Cons.prems(1)])
  then have "xx - base + base \<in> \<int>" using i(2) by (rule Ints_add)
  then have xi: "xx \<in> \<int>" by simp
  have W0: "\<forall>n. 0 \<le> placedCellWidth sw (wd n)"
    using wd placedCellWidth_nonneg [OF sw] by blast
  have rest0: "0 \<le> sum_list (map (\<lambda>n. placedCellWidth sw (wd n)) nms)"
    by (rule sum_list_nonneg_W [OF W0])
  have up: "xx + p + sum_list (map (\<lambda>n. placedCellWidth sw (wd n)) nms) \<le> 2 ^ 40"
    using Cons.prems(3) by (simp add: p_def add.assoc)
  have ex: "fl (xx + p) = xx + p"
    by (rule fl_add_Ints [OF xi pi]) (use Cons.prems(2) p0 rest0 up in \<open>simp add: abs_le_iff\<close>)
  have e: "xx + p - base = (xx - base) + p" by simp
  have b': "on_site sw (xx + p - base)" unfolding e by (rule on_site_add [OF sw0 Cons.prems(1) ps])
  have lo': "- (2 ^ 40) \<le> xx + p" using Cons.prems(2) p0 by simp
  note ih = Cons.IH [OF b' lo' up, folded p_def]
  have hd: "footprint sw wd (nm, xx, oy) = (xx, xx + p)" by (simp add: footprint_def p_def)
  have cross: "\<forall>w\<in>set (cell_writes sw oy wd nms (xx + p)).
      disjoint_iv (footprint sw wd (nm, xx, oy)) (footprint sw wd w)"
    using ih by (auto simp: hd disjoint_iv_def)
  have "cell_writes sw oy wd (nm # nms) xx = (nm, xx, oy) # cell_writes sw oy wd nms (xx + p)"
    by (simp add: p_def ex [unfolded p_def])
  then show ?case using ih cross p0 rest0 Cons.prems(1)
    by (auto simp: hd p_def [symmetric])
qed

lemma chain_writes_geom:
  assumes sw: "grid (site_width row)" "0 < site_width row"
    and wd: "\<forall>n. 0 \<le> wd n \<and> grid (wd n)" and xm: "x_min sub = xmin"
    and g: "grid xmin" "grid xmax"
  shows "chain_ok xmin (site_width row) (\<lambda>n. placedCellWidth (site_width row) (wd n)) bound cs \<Longrightarrow>
     bound \<le> xmax \<Longrightarrow>
     sorted_wrt (\<lambda>a b. disjoint_iv (footprint (site_width row) wd a) (footprint (site_width row) wd b))
        (concat (map (cluster_writes wd row sub) cs))
     \<and> (\<forall>w\<in>set (concat (map (cluster_writes wd row sub) cs)).
           xmin \<le> fst (footprint (site_width row) wd w)
           \<and> snd (footprint (site_width row) wd w) \<le> bound
           \<and> on_site (site_width row) (fst (footprint (site_width row) wd w) - xmin)
           \<and> snd (snd w) = y (origin row))"
proof (induction cs arbitrary: bound)
  case Nil
  then show ?case by simp
next
  case (Cons c cs)
  let ?sw = "site_width row"
  let ?W = "\<lambda>n. placedCellWidth ?sw (wd n)"
  have sw0: "?sw \<noteq> 0" using sw by simp
  note bd = grid_bounds [OF g(1)] grid_bounds [OF g(2)]
  have W0: "\<forall>n. 0 \<le> ?W n" using wd placedCellWidth_nonneg [OF sw] by blast
  have Ws: "\<forall>n. on_site ?sw (?W n)" using wd on_site_placedCellWidth [OF sw] by blast
  from Cons.prems have c: "cl_x c + cl_width c \<le> bound" "on_site ?sw (cl_x c - xmin)"
      "cl_width c = sum_list (map ?W (cellInCluster c))"
      "chain_ok xmin ?sw ?W (cl_x c) cs" by auto
  note h = chain_ok_head [OF Cons.prems(1) W0 sw g Cons.prems(2) Ws]
  have lo: "xmin \<le> cl_x c" by (rule h(3))
  from g have xi: "xmin \<in> \<int>" by (simp add: grid_def)
  have ai: "cl_x c - xmin \<in> \<int>" using h(1) xi by simp
  have ab: "\<bar>cl_x c - xmin\<bar> \<le> 2 ^ 42" using h(3,4,5) bd by (simp add: abs_le_iff)
  have e1: "fl (cl_x c - xmin) = cl_x c - xmin"
    by (rule fl_diff_Ints [OF h(1) xi]) (use ab in simp)
  have "fl (fl (of_int \<lfloor>fl ((cl_x c - xmin) / ?sw)\<rfloor> * ?sw) + xmin)
      = of_int \<lfloor>(cl_x c - xmin) / ?sw\<rfloor> * ?sw + xmin"
    by (rule snap_exact [OF sw ai ab g(1)])
  also have "\<dots> = cl_x c" using floor_snap_fixed [OF sw0 c(2)] by simp
  finally have snap: "fl (x_min sub + fl (of_int \<lfloor>fl (fl (cl_x c - x_min sub) / ?sw)\<rfloor> * ?sw))
      = cl_x c"
    by (simp add: xm e1 add.commute)
  have cw: "cluster_writes wd row sub c
      = cell_writes ?sw (y (origin row)) wd (cellInCluster c) (cl_x c)"
    by (simp only: cluster_writes_def snap)
  have lo40: "- (2 ^ 40) \<le> cl_x c" using lo bd by simp
  have up40: "cl_x c + sum_list (map ?W (cellInCluster c)) \<le> 2 ^ 40"
    using h(5) bd c(3) by simp
  note g1 = cell_writes_geom [OF sw wd g(1) c(2) lo40 up40, of "y (origin row)", folded cw c(3)]
  have bx: "cl_x c \<le> xmax" using h(4,5) by simp
  note ih = Cons.IH [OF c(4) bx]
  have cross: "\<forall>a\<in>set (cluster_writes wd row sub c).
      \<forall>b\<in>set (concat (map (cluster_writes wd row sub) cs)).
        disjoint_iv (footprint ?sw wd a) (footprint ?sw wd b)"
  proof (intro ballI)
    fix a b assume a: "a \<in> set (cluster_writes wd row sub c)"
      and b: "b \<in> set (concat (map (cluster_writes wd row sub) cs))"
    have "snd (footprint ?sw wd b) \<le> cl_x c" using ih b by blast
    moreover have "cl_x c \<le> fst (footprint ?sw wd a)" using g1 a by blast
    ultimately show "disjoint_iv (footprint ?sw wd a) (footprint ?sw wd b)"
      by (simp add: disjoint_iv_def)
  qed
  have each: "xmin \<le> fst (footprint ?sw wd w) \<and> snd (footprint ?sw wd w) \<le> bound
           \<and> on_site ?sw (fst (footprint ?sw wd w) - xmin) \<and> snd (snd w) = y (origin row)"
    if "w \<in> set (cluster_writes wd row sub c) \<or> w \<in> set (concat (map (cluster_writes wd row sub) cs))"
    for w
    using that
  proof
    assume "w \<in> set (cluster_writes wd row sub c)"
    with g1 have "cl_x c \<le> fst (footprint ?sw wd w)"
      "snd (footprint ?sw wd w) \<le> cl_x c + cl_width c"
      "on_site ?sw (fst (footprint ?sw wd w) - xmin)" "snd (snd w) = y (origin row)" by auto
    with lo c(1) show ?thesis by auto
  next
    assume "w \<in> set (concat (map (cluster_writes wd row sub) cs))"
    with ih have "xmin \<le> fst (footprint ?sw wd w)" "snd (footprint ?sw wd w) \<le> cl_x c"
      "on_site ?sw (fst (footprint ?sw wd w) - xmin)" "snd (snd w) = y (origin row)" by auto
    moreover have "0 \<le> cl_width c" by (rule h(4))
    ultimately show ?thesis using c(1) by auto
  qed
  have "sorted_wrt (\<lambda>a b. disjoint_iv (footprint ?sw wd a) (footprint ?sw wd b))
      (cluster_writes wd row sub c @ concat (map (cluster_writes wd row sub) cs))"
    unfolding sorted_wrt_append using g1 ih cross by blast
  then show ?case using each by auto
qed

lemma subrow_writes_geom:
  assumes sw: "grid (site_width row)" "0 < site_width row"
    and wd: "\<forall>n. 0 \<le> wd n \<and> grid (wd n)"
    and ok: "subrow_ok (site_width row) (\<lambda>n. placedCellWidth (site_width row) (wd n)) sub"
    and g: "grid (x_min sub)" "grid (x_max sub)"
  shows "sorted_wrt (\<lambda>a b. disjoint_iv (footprint (site_width row) wd a) (footprint (site_width row) wd b))
        (subrow_writes wd row sub)
     \<and> (\<forall>w\<in>set (subrow_writes wd row sub).
           x_min sub \<le> fst (footprint (site_width row) wd w)
           \<and> snd (footprint (site_width row) wd w) \<le> x_max sub
           \<and> on_site (site_width row) (fst (footprint (site_width row) wd w) - x_min sub)
           \<and> snd (snd w) = y (origin row))"
  unfolding subrow_writes_def
  by (rule chain_writes_geom [OF sw wd refl g]) (use ok in \<open>simp_all add: subrow_ok_def\<close>)

lemma subrows_writes_geom:
  assumes sw: "grid (site_width row)" "0 < site_width row"
    and wd: "\<forall>n. 0 \<le> wd n \<and> grid (wd n)"
  shows "\<forall>s\<in>set srs. subrow_ok (site_width row) (\<lambda>n. placedCellWidth (site_width row) (wd n)) s
            \<and> on_site (site_width row) (x_min s - ox) \<and> grid (x_min s) \<and> grid (x_max s) \<Longrightarrow>
     sorted_wrt (\<lambda>a b. x_max a \<le> x_min b) srs \<Longrightarrow>
     sorted_wrt (\<lambda>a b. disjoint_iv (footprint (site_width row) wd a) (footprint (site_width row) wd b))
        (concat (map (subrow_writes wd row) srs))
     \<and> (\<forall>w\<in>set (concat (map (subrow_writes wd row) srs)).
           (\<exists>s\<in>set srs. x_min s \<le> fst (footprint (site_width row) wd w)
                \<and> snd (footprint (site_width row) wd w) \<le> x_max s)
           \<and> on_site (site_width row) (fst (footprint (site_width row) wd w) - ox)
           \<and> snd (snd w) = y (origin row))"
proof (induction srs)
  case Nil
  then show ?case by simp
next
  case (Cons s srs)
  let ?sw = "site_width row"
  have sw0: "?sw \<noteq> 0" using sw by simp
  from Cons.prems have s: "subrow_ok ?sw (\<lambda>n. placedCellWidth ?sw (wd n)) s"
      "on_site ?sw (x_min s - ox)" "grid (x_min s)" "grid (x_max s)"
    and after: "\<forall>t\<in>set srs. x_max s \<le> x_min t"
    and rest: "\<forall>s\<in>set srs. subrow_ok ?sw (\<lambda>n. placedCellWidth ?sw (wd n)) s
            \<and> on_site ?sw (x_min s - ox) \<and> grid (x_min s) \<and> grid (x_max s)"
      "sorted_wrt (\<lambda>a b. x_max a \<le> x_min b) srs"
    by auto
  note g = subrow_writes_geom [OF sw wd s(1) s(3,4)]
  note ih = Cons.IH [OF rest]
  have cross: "\<forall>a\<in>set (subrow_writes wd row s).
      \<forall>b\<in>set (concat (map (subrow_writes wd row) srs)).
        disjoint_iv (footprint ?sw wd a) (footprint ?sw wd b)"
  proof (intro ballI)
    fix a b assume a: "a \<in> set (subrow_writes wd row s)"
      and b: "b \<in> set (concat (map (subrow_writes wd row) srs))"
    from ih b obtain t where t: "t \<in> set srs" "x_min t \<le> fst (footprint ?sw wd b)" by blast
    have "snd (footprint ?sw wd a) \<le> x_max s" using g a by blast
    also have "\<dots> \<le> x_min t" using after t(1) by blast
    finally show "disjoint_iv (footprint ?sw wd a) (footprint ?sw wd b)"
      using t(2) by (simp add: disjoint_iv_def)
  qed
  have each: "(\<exists>t\<in>set (s # srs). x_min t \<le> fst (footprint ?sw wd w)
                \<and> snd (footprint ?sw wd w) \<le> x_max t)
           \<and> on_site ?sw (fst (footprint ?sw wd w) - ox) \<and> snd (snd w) = y (origin row)"
    if "w \<in> set (subrow_writes wd row s) \<or> w \<in> set (concat (map (subrow_writes wd row) srs))"
    for w
    using that
  proof
    assume "w \<in> set (subrow_writes wd row s)"
    with g have w: "x_min s \<le> fst (footprint ?sw wd w)" "snd (footprint ?sw wd w) \<le> x_max s"
      "on_site ?sw (fst (footprint ?sw wd w) - x_min s)" "snd (snd w) = y (origin row)" by auto
    have e: "fst (footprint ?sw wd w) - ox = (fst (footprint ?sw wd w) - x_min s) + (x_min s - ox)"
      by simp
    have "on_site ?sw (fst (footprint ?sw wd w) - ox)"
      unfolding e by (rule on_site_add [OF sw0 w(3) s(2)])
    with w show ?thesis by auto
  next
    assume "w \<in> set (concat (map (subrow_writes wd row) srs))"
    with ih show ?thesis by auto
  qed
  have "sorted_wrt (\<lambda>a b. disjoint_iv (footprint ?sw wd a) (footprint ?sw wd b))
      (subrow_writes wd row s @ concat (map (subrow_writes wd row) srs))"
    unfolding sorted_wrt_append using g ih cross by blast
  then show ?case using each by auto
qed

lemma row_writes_geom:
  assumes "row_ok wd row" and wd: "\<forall>n. 0 \<le> wd n \<and> grid (wd n)"
  shows "sorted_wrt (\<lambda>a b. disjoint_iv (footprint (site_width row) wd a) (footprint (site_width row) wd b))
        (row_writes wd row)
     \<and> (\<forall>w\<in>set (row_writes wd row).
           (\<exists>s\<in>set (subrows row). x_min s \<le> fst (footprint (site_width row) wd w)
                \<and> snd (footprint (site_width row) wd w) \<le> x_max s)
           \<and> on_site (site_width row) (fst (footprint (site_width row) wd w) - x (origin row))
           \<and> snd (snd w) = y (origin row))"
proof -
  from assms(1) have sw: "grid (site_width row)" "0 < site_width row"
    by (simp_all add: row_ok_def)
  show ?thesis unfolding row_writes_def
    by (rule subrows_writes_geom [OF sw wd]) (use assms(1) in \<open>simp_all add: row_ok_def\<close>)
qed

lemma sorted_wrt_sym_pair:
  assumes "sorted_wrt P xs" and sym: "\<And>a b. P a b \<Longrightarrow> P b a"
    and "i < length xs" "j < length xs" "i \<noteq> j"
  shows "P (xs ! i) (xs ! j)"
proof (cases "i < j")
  case True
  then show ?thesis using assms(1,4) by (simp add: sorted_wrt_iff_nth_less)
next
  case False
  then have "j < i" using assms(5) by simp
  then have "P (xs ! j) (xs ! i)" using assms(1,3) by (simp add: sorted_wrt_iff_nth_less)
  then show ?thesis by (rule sym)
qed

lemma name_width_cores [simp]: "name_width (cores insts) = name_width insts"
proof
  fix k show "name_width (cores insts) k = name_width insts k"
    by (cases "insts k") (simp_all add: name_width_def cores_def core_def get_width_def)
qed

lemma place_simps:
  "placement_rows (lg_db (place lg)) = placement_rows (lg_db lg)"
  "instances (lg_db (place lg)) =
     fold apply_write (all_writes (name_width (instances (lg_db lg))) (placement_rows (lg_db lg)))
       (instances (lg_db lg))"
  "warnings (place lg) = warnings lg" "lg_max_disp (place lg) = lg_max_disp lg"
  by (simp_all add: place_def place_writes)


lemma legalize_facts:
  assumes rows: "\<forall>r\<in>set (placement_rows db). wf_row r \<and> grid_row r"
    and Cw: "\<forall>k i. instances db k = Some i \<longrightarrow> cell_ok i"
    and blk: "\<forall>rect\<in>set (placement_blockages db).
                x1 rect \<le> x2 rect \<and> grid (x1 rect) \<and> grid (x2 rect)"
    and keys: "distinct keys"
  shows "(\<forall>r\<in>set (placement_rows (lg_db (legalize keys db))). row_ok (name_width (instances db)) r)"
    and "distinct (all_members (placement_rows (lg_db (legalize keys db))))"
    and "\<forall>n. 0 \<le> name_width (instances db) n \<and> grid (name_width (instances db) n)"
    and "\<forall>w\<in>set (all_writes (name_width (instances db)) (placement_rows (lg_db (legalize keys db)))).
           \<forall>i. instances (lg_db (legalize keys db)) (fst w) = Some i \<longrightarrow>
             x_new i = fst (snd w) \<and> y_new i = snd (snd w)
             \<and> get_width i = name_width (instances db) (fst w)"
    and "set (all_members (placement_rows (lg_db (legalize keys db))))
           \<subseteq> {k \<in> set keys. \<exists>i. instances db k = Some i \<and> is_flip_flop i}"
    and "\<forall>k\<in>{k \<in> set keys. \<exists>i. instances db k = Some i \<and> is_flip_flop i}.
           k \<in> set (all_members (placement_rows (lg_db (legalize keys db))))
           \<or> warned k (warnings (legalize keys db))"
    and "\<forall>k\<in>set (all_members (placement_rows (lg_db (legalize keys db)))).
           \<exists>i. instances (lg_db (legalize keys db)) k = Some i"
proof -
  define A where "A = Abacus keys (Legalizer_ctor DBL_MAX db)"
  define wd where "wd = name_width (instances db)"
  note a = Abacus_inv [OF rows Cw blk keys, of DBL_MAX, folded A_def]
  have L: "legalize keys db = place A" by (simp add: legalize_def A_def)
  from a have cs: "cores (instances (lg_db A)) = cores (instances db)"
    and rok: "\<forall>r\<in>set (placement_rows (lg_db A)). row_ok wd r"
    and d: "distinct (all_members (placement_rows (lg_db A)))"
    by (simp_all add: leg_inv_def wd_def)
  have "name_width (cores (instances (lg_db A))) = name_width (cores (instances db))"
    by (simp only: cs)
  then have nw: "name_width (instances (lg_db A)) = wd"
    by (simp only: name_width_cores wd_def)
  show "\<forall>r\<in>set (placement_rows (lg_db (legalize keys db))). row_ok (name_width (instances db)) r"
    using rok by (simp add: L place_simps wd_def)
  show "distinct (all_members (placement_rows (lg_db (legalize keys db))))"
    using d by (simp add: L place_simps)
  show "\<forall>n. 0 \<le> name_width (instances db) n \<and> grid (name_width (instances db) n)"
  proof
    fix n show "0 \<le> name_width (instances db) n \<and> grid (name_width (instances db) n)"
    proof (cases "instances db n")
      case None
      then show ?thesis by (simp add: name_width_def grid_def)
    next
      case (Some i)
      with Cw have "cell_ok i" by blast
      then show ?thesis using Some by (simp add: name_width_def cell_ok_def)
    qed
  qed
  show "\<forall>k\<in>{k \<in> set keys. \<exists>i. instances db k = Some i \<and> is_flip_flop i}.
           k \<in> set (all_members (placement_rows (lg_db (legalize keys db))))
           \<or> warned k (warnings (legalize keys db))"
    using a by (simp add: L place_simps)
  show "\<forall>k\<in>set (all_members (placement_rows (lg_db (legalize keys db)))).
           \<exists>i. instances (lg_db (legalize keys db)) k = Some i"
  proof
    fix k assume "k \<in> set (all_members (placement_rows (lg_db (legalize keys db))))"
    then have "k \<in> set (all_members (placement_rows (lg_db A)))" by (simp add: L place_simps)
    with a obtain i where "instances db k = Some i" by blast
    then have "cores (instances db) k \<noteq> None" by (simp add: cores_def)
    then have "cores (instances (lg_db A)) k \<noteq> None" unfolding cs .
    moreover have "cores (instances (lg_db (legalize keys db))) = cores (instances (lg_db A))"
      by (simp add: L place_simps)
    ultimately have "cores (instances (lg_db (legalize keys db))) k \<noteq> None" by simp
    then show "\<exists>i. instances (lg_db (legalize keys db)) k = Some i"
      by (cases "instances (lg_db (legalize keys db)) k") (simp_all add: cores_def)
  qed
  show "set (all_members (placement_rows (lg_db (legalize keys db))))
           \<subseteq> {k \<in> set keys. \<exists>i. instances db k = Some i \<and> is_flip_flop i}"
    using a by (simp add: L place_simps)
  show "\<forall>w\<in>set (all_writes (name_width (instances db)) (placement_rows (lg_db (legalize keys db)))).
           \<forall>i. instances (lg_db (legalize keys db)) (fst w) = Some i \<longrightarrow>
             x_new i = fst (snd w) \<and> y_new i = snd (snd w)
             \<and> get_width i = name_width (instances db) (fst w)"
  proof (intro ballI allI impI)
    fix w i
    assume w: "w \<in> set (all_writes (name_width (instances db))
        (placement_rows (lg_db (legalize keys db))))"
      and i: "instances (lg_db (legalize keys db)) (fst w) = Some i"
    obtain nm xv yv where weq: "w = (nm, xv, yv)" by (cases w) auto
    let ?ws = "all_writes wd (placement_rows (lg_db A))"
    have mem: "(nm, xv, yv) \<in> set ?ws" using w by (simp add: L place_simps wd_def weq)
    have after: "instances (lg_db (legalize keys db)) = fold apply_write ?ws (instances (lg_db A))"
      by (simp add: L place_simps nw)
    have "cores (instances (lg_db (legalize keys db))) = cores (instances (lg_db A))"
      unfolding after by simp
    then have "cores (instances (lg_db A)) nm = cores (instances (lg_db (legalize keys db))) nm"
      by simp
    also have "\<dots> = Some (core i)" using i by (simp only: cores_def weq fst_conv option.map)
    finally have "cores (instances (lg_db A)) nm = Some (core i)" .
    then obtain i0 where i0: "instances (lg_db A) nm = Some i0"
      by (cases "instances (lg_db A) nm") (simp_all add: cores_def)
    have dd: "distinct (map fst ?ws)" using d by simp
    have "fold apply_write ?ws (instances (lg_db A)) nm = Some (i0\<lparr>x_new := xv, y_new := yv\<rparr>)"
      using fold_write_at [of ?ws nm xv yv "instances (lg_db A)" i0] dd mem i0 by blast
    then have ieq: "i = i0\<lparr>x_new := xv, y_new := yv\<rparr>" using i by (simp add: after weq)
    have "get_width i0 = wd nm" using i0 nw [symmetric] by (simp add: name_width_def)
    then show "x_new i = fst (snd w) \<and> y_new i = snd (snd w)
             \<and> get_width i = name_width (instances db) (fst w)"
      by (simp add: ieq weq wd_def get_width_def)
  qed
qed

subsection \<open>Legalizer: the final positions\<close>

lemma member_write:
  assumes "nm \<in> set (row_members r)"
  obtains xv yv where "(nm, xv, yv) \<in> set (row_writes wd r)"
proof -
  from assms have "nm \<in> fst ` set (row_writes wd r)"
    using row_writes_names [of wd r] by (metis set_map)
  then obtain w where w: "w \<in> set (row_writes wd r)" "fst w = nm" by blast
  obtain a b c where abc: "w = (a, b, c)" by (cases w) auto
  with w have "(nm, b, c) \<in> set (row_writes wd r)" by simp
  then show ?thesis by (rule that)
qed

lemma row_writes_in_all:
  "r \<in> set rows \<Longrightarrow> w \<in> set (row_writes wd r) \<Longrightarrow> w \<in> set (all_writes wd rows)"
  by (auto simp: all_writes_def)

lemma row_members_in_all:
  "r \<in> set rows \<Longrightarrow> nm \<in> set (row_members r) \<Longrightarrow> nm \<in> set (all_members rows)"
  by (auto simp: all_members_def)



subsection \<open>Legalizer: the example design\<close>

lemma DesignDatabase_ctor_sel [simp]:
  "instances DesignDatabase_ctor = Map.empty" "placement_rows DesignDatabase_ctor = []"
  "placement_blockages DesignDatabase_ctor = []" "cell_library DesignDatabase_ctor = Map.empty"
  "transformation_history DesignDatabase_ctor = []"
  "complete_pipeline DesignDatabase_ctor = CompletePipeline_ctor"
  "hierarchical_ff_groups DesignDatabase_ctor = []" "ff_instance_groups DesignDatabase_ctor = []"
  "optimal_ff_for_groups DesignDatabase_ctor = Map.empty"
  "objective_weights DesignDatabase_ctor = \<lparr>alpha = 0, beta = 0, gamma = 0\<rparr>"
  by (simp_all add: DesignDatabase_ctor_def)

lemma DBL_MAX_big: "10 ^ 9 < DBL_MAX"
  by (simp add: DBL_MAX_def)

lemma DBL_MAX_less: "a \<le> 10 ^ 9 \<Longrightarrow> a < DBL_MAX"
  using DBL_MAX_big by linarith

lemma DBL_MAX_not_less: "a \<le> 10 ^ 9 \<Longrightarrow> \<not> DBL_MAX < a"
  using DBL_MAX_big by linarith

lemma DBL_MAX_not_le: "a \<le> 10 ^ 9 \<Longrightarrow> \<not> DBL_MAX \<le> a"
  using DBL_MAX_big by linarith

lemmas DBL_MAX_cmp [simp] = DBL_MAX_less DBL_MAX_not_less DBL_MAX_not_le

lemma sqrt_1000000 [simp]: "sqrt 1000000 = 1000"
  by (rule real_sqrt_unique) simp_all

lemma fl_minus_1 [simp]: "fl (- 1) = - 1"
  by (rule fl_Ints) simp_all

text \<open>Adding or subtracting \<open>eps\<close> does not move a small integer past its neighbours.\<close>

lemma fl_eps_between:
  fixes n :: int
  assumes "\<bar>n\<bar> \<le> 10 ^ 6"
  shows "of_int n < fl (of_int n + eps)" "fl (of_int n + eps) < of_int n + 1"
    "of_int n - 1 < fl (of_int n - eps)" "fl (of_int n - eps) < of_int n"
proof -
  define v :: real where "v = 1 / 10 ^ 6"
  have v: "0 < v" "v = 1 / 1000000" by (simp_all add: v_def)
  have "\<bar>fl v - v\<bar> \<le> \<bar>v\<bar> / 2 ^ 53" by (rule fl_rel)
  also have "\<dots> \<le> v / 2" using v(1) by (simp add: field_simps)
  finally have e: "v / 2 \<le> eps" "eps \<le> 2 * v" unfolding eps_def v_def [symmetric] by linarith+
  have "\<bar>of_int n :: real\<bar> \<le> of_int (10 ^ 6)"
    using assms by (simp only: of_int_abs [symmetric] of_int_le_iff)
  then have n: "\<bar>of_int n :: real\<bar> \<le> 1000000" by simp
  have b1: "\<bar>of_int n + eps\<bar> \<le> 1000001" and b2: "\<bar>of_int n - eps\<bar> \<le> 1000001"
    using n e v by linarith+
  have c: "(1000001 :: real) / 2 ^ 53 < 1 / 4000000" by simp
  from fl_abs_err [OF b1] c have e1: "\<bar>fl (of_int n + eps) - (of_int n + eps)\<bar> < 1 / 4000000"
    by linarith
  from fl_abs_err [OF b2] c have e2: "\<bar>fl (of_int n - eps) - (of_int n - eps)\<bar> < 1 / 4000000"
    by linarith
  show "of_int n < fl (of_int n + eps)" "fl (of_int n + eps) < of_int n + 1"
    "of_int n - 1 < fl (of_int n - eps)" "fl (of_int n - eps) < of_int n"
    using e1 e2 e v by linarith+
qed

lemma floor_fl_eps: "\<bar>n\<bar> \<le> 10 ^ 6 \<Longrightarrow> \<lfloor>fl (of_int n + eps)\<rfloor> = n"
  using fl_eps_between(1,2) [of n] by (simp add: floor_eq_iff)

lemma ceiling_fl_eps: "\<bar>n\<bar> \<le> 10 ^ 6 \<Longrightarrow> \<lceil>fl (of_int n - eps)\<rceil> = n"
  using fl_eps_between(3,4) [of n] by (simp add: ceiling_eq_iff)

lemma floor_fl_eps_numeral [simp]:
  "numeral k \<le> (10 ^ 6 :: int) \<Longrightarrow> \<lfloor>fl (numeral k + eps)\<rfloor> = numeral k"
  using floor_fl_eps [of "numeral k"] by simp

lemma ceiling_fl_eps_numeral [simp]:
  "numeral k \<le> (10 ^ 6 :: int) \<Longrightarrow> \<lceil>fl (numeral k - eps)\<rceil> = numeral k"
  using ceiling_fl_eps [of "numeral k"] by simp

lemma ex_ff_sel [simp]:
  "cell_template (ex_ff n a) = Some ex_ff_cell" "position (ex_ff n a) = \<lparr>x = a, y = 0\<rparr>"
  "weight (ex_ff n a) = 1" "is_flip_flop (ex_ff n a)" "get_width (ex_ff n a) = 400"
  "ct_width ex_ff_cell = 400"
  by (simp_all add: ex_ff_def ex_inst_def is_flip_flop_def ct_is_flip_flop_def get_width_def
      ex_ff_cell_def)

lemma ex_ctor:
  "Legalizer_ctor DBL_MAX ex_db =
     \<lparr>lg_max_disp = DBL_MAX,
      lg_db = ex_db\<lparr>placement_rows :=
        [ex_row\<lparr>site_width := 200, subrows := [\<lparr>x_min = 0, x_max = 10000, Usewidth = 10000, clusters = []\<rparr>]\<rparr>]\<rparr>,
      warnings = []\<rparr>"
  by (simp add: Legalizer_ctor_def ex_db_def init_row_def ex_row_def SubRow_ctor_def enumerate_eq_zip upt_conv_Cons)


lemmas ex_eval =
  legalize_def place_def Abacus_def classify_instances_def buildSubRows_def
  carve_instance_def carve_rectangle_def carve_row_def snap_front_def snap_back_def
  SubRow_ctor_def position_x_of_def Abacus_instance_def findBestRow_def findSubrowpos_def
  commit_instance_def try_row_def row_y_def placeRow_def nominal_x_def placedCellWidth_def
  AddCell_def AddCluster_def collapse_x_def trial_x_def put_instance_def put_subrow_def
  place_row_def place_subrow_def place_cluster_def Let_def upt_conv_Cons

lemma ex_rows:
  "placement_rows (lg_db (legalize [''u'', ''v''] ex_db)) = [ex_row_final]"
  unfolding ex_ctor legalize_def
  by (simp add: ex_eval ex_db_def ex_row_def ex_row_final_def)


lemma ex_instances:
  "instances (lg_db (legalize [''u'', ''v''] ex_db)) ''u'' = Some ex_u_final"
  "instances (lg_db (legalize [''u'', ''v''] ex_db)) ''v'' = Some ex_v_final"
  unfolding ex_ctor legalize_def
  by (simp_all add: ex_eval ex_db_def ex_row_def ex_u_final_def ex_v_final_def get_width_def)

lemma ex_hyps:
  "\<forall>r\<in>set (placement_rows ex_db). wf_row r \<and> grid_row r"
  "\<forall>k i. instances ex_db k = Some i \<longrightarrow> cell_ok i"
  "\<forall>rect\<in>set (placement_blockages ex_db).
      x1 rect \<le> x2 rect \<and> grid (x1 rect) \<and> grid (x2 rect)"
  "distinct [''u'', ''v'']"
  by (simp_all add: ex_db_def ex_row_def wf_row_def grid_row_def grid_def cell_ok_def)

lemma ex_members: "row_members ex_row_final = [''u'', ''v'']"
  by (simp add: row_members_def subrow_members_def ex_row_final_def)

lemma ex_final_sel [simp]:
  "x_new ex_u_final = 4000" "y_new ex_u_final = 0" "get_width ex_u_final = 400"
  "x_new ex_v_final = 4400" "y_new ex_v_final = 0" "get_width ex_v_final = 400"
  "placement_status ex_u_final = PLACED" "placement_status ex_v_final = PLACED"
  by (simp_all add: ex_u_final_def ex_v_final_def get_width_def)

lemma ex_row_final_sel [simp]:
  "origin ex_row_final = \<lparr>x = 0, y = 0\<rparr>" "site_width ex_row_final = 200"
  by (simp_all add: ex_row_final_def ex_row_def)



subsection \<open>Legalizer: a site step that is not an integer\<close>

text \<open>
  The doubles of the two designs with a site step of \<open>0.7\<close>: the literals, and the results
  of the operations that the legalizer performs on them.
\<close>

lemma fl_frac:
  "fl (7 / 10) = 3152519739159347 / 4503599627370496"
  "fl (7 / 5) = 3152519739159347 / 2251799813685248"
  "fl (21 / 10) = 4728779608739021 / 2251799813685248"
  "fl (7 / 2) = 7 / 2"
  "fl (3152519739159347 / 4503599627370496) = 3152519739159347 / 4503599627370496"
  "fl (3152519739159347 / 2251799813685248) = 3152519739159347 / 2251799813685248"
  "fl (4728779608739021 / 2251799813685248) = 4728779608739021 / 2251799813685248"
  "fl (1182194902184755 / 562949953421312) = 1182194902184755 / 562949953421312"
  "fl (15762598695796735 / 2251799813685248) = 7"
  "fl (28372677652434125 / 4503599627370496) = 7093169413108531 / 1125899906842624"
  "fl (25220157913274777 / 4503599627370496) = 3152519739159347 / 562949953421312"
  "fl (9457559217478041 / 4503599627370496) = 1182194902184755 / 562949953421312"
  "fl (12610078956637389 / 4503599627370496) = 3152519739159347 / 1125899906842624"
  "fl (9457559217478042 / 3152519739159347) = 6755399441055745 / 2251799813685248"
  "fl (9457559217478040 / 3152519739159347) = 6755399441055743 / 2251799813685248"
  "fl (18915118434956083 / 4503599627370496) = 4728779608739021 / 1125899906842624"
  "fl (15762598695796736 / 3152519739159347) = 5"
  "fl (15762598695796735 / 4503599627370496) = 7 / 2"
  "fl (1 / 2251799813685248) = 1 / 2251799813685248"
  "fl (1 / 5070602400912917605986812821504) = 1 / 5070602400912917605986812821504"
  by (simp_all add: fl_scale_up [where n=53] fl_scale_up [where n=52] fl_scale_up [where n=51]
      fl_scale_up [where n=50] fl_scale_up [where n=103] fl_scale_up [where n=154]
      round_even_def)

lemma sqrt_frac: "sqrt (1 / 5070602400912917605986812821504) = 1 / 2251799813685248"
  by (rule real_sqrt_unique) (simp_all add: power2_eq_square)

lemma DBL_MAX_frac:
  "1 < DBL_MAX * 2251799813685248" "\<not> DBL_MAX * 2251799813685248 < 1"
  "DBL_MAX * 2251799813685248 \<noteq> 1"
proof -
  have "(1::real) < 10 ^ 9" by simp
  with DBL_MAX_big have "1 < DBL_MAX" by linarith
  then show "1 < DBL_MAX * 2251799813685248" "\<not> DBL_MAX * 2251799813685248 < 1"
    "DBL_MAX * 2251799813685248 \<noteq> 1" by linarith+
qed

lemma ex_frac_sel [simp]:
  "cell_template (ex_frac_ff n a) = Some ex_frac_cell" "position (ex_frac_ff n a) = \<lparr>x = a, y = 0\<rparr>"
  "weight (ex_frac_ff n a) = 1" "is_flip_flop (ex_frac_ff n a)"
  "get_width (ex_frac_ff n a) = fl (7 / 10)" "ct_width ex_frac_cell = fl (7 / 10)"
  by (simp_all add: ex_frac_ff_def ex_inst_def is_flip_flop_def ct_is_flip_flop_def get_width_def
      ex_frac_cell_def ex_ff_cell_def)

lemma ex_overlap_ctor:
  "Legalizer_ctor DBL_MAX ex_db_overlap =
     \<lparr>lg_max_disp = DBL_MAX,
      lg_db = ex_db_overlap\<lparr>placement_rows :=
        [ex_frac_row\<lparr>site_width := fl (7 / 10),
           subrows := [\<lparr>x_min = 0, x_max = 7, Usewidth = 7, clusters = []\<rparr>]\<rparr>]\<rparr>,
      warnings = []\<rparr>"
  by (simp add: Legalizer_ctor_def ex_db_overlap_def init_row_def ex_frac_row_def ex_row_def
      SubRow_ctor_def enumerate_eq_zip upt_conv_Cons fl_frac)

lemma ex_overlap_instances:
  "instances (lg_db (legalize [''a'', ''b''] ex_db_overlap)) ''a'' = Some ex_a_final"
  "instances (lg_db (legalize [''a'', ''b''] ex_db_overlap)) ''b'' = Some ex_b_final"
  "map row_members (placement_rows (lg_db (legalize [''a'', ''b''] ex_db_overlap))) = [[''b'', ''a'']]"
  "map site_width (placement_rows (lg_db (legalize [''a'', ''b''] ex_db_overlap))) = [fl (7 / 10)]"
  unfolding ex_overlap_ctor legalize_def
  by (simp_all add: ex_eval ex_db_overlap_def ex_frac_row_def ex_row_def ex_a_final_def
      ex_b_final_def get_width_def fl_frac sqrt_frac DBL_MAX_frac row_members_def
      subrow_members_def)


lemma ex_offsite_ctor:
  "Legalizer_ctor DBL_MAX ex_db_offsite =
     \<lparr>lg_max_disp = DBL_MAX,
      lg_db = ex_db_offsite\<lparr>placement_rows :=
        [ex_frac_row\<lparr>site_width := fl (7 / 10),
           subrows := [\<lparr>x_min = 0, x_max = 7, Usewidth = 7, clusters = []\<rparr>]\<rparr>]\<rparr>,
      warnings = []\<rparr>"
  by (simp add: Legalizer_ctor_def ex_db_offsite_def init_row_def ex_frac_row_def ex_row_def
      SubRow_ctor_def enumerate_eq_zip upt_conv_Cons fl_frac)

lemma ex_offsite_instances:
  "instances (lg_db (legalize [''c''] ex_db_offsite)) ''c'' = Some ex_c_final"
  "map row_members (placement_rows (lg_db (legalize [''c''] ex_db_offsite))) = [[''c'']]"
  "map site_width (placement_rows (lg_db (legalize [''c''] ex_db_offsite))) = [fl (7 / 10)]"
  "map origin (placement_rows (lg_db (legalize [''c''] ex_db_offsite))) = [\<lparr>x = 0, y = 0\<rparr>]"
  unfolding ex_offsite_ctor legalize_def
  by (simp_all add: ex_eval ex_db_offsite_def ex_frac_row_def ex_row_def ex_c_final_def
      get_width_def fl_frac row_members_def subrow_members_def)


subsection \<open>Legalizer: an instance that no row accepts\<close>

lemma cores_at:
  assumes "cores insts' = cores insts"
  shows "(insts' k = None \<and> insts k = None)
       \<or> (\<exists>c' c. insts' k = Some c' \<and> insts k = Some c \<and> core c' = core c)"
proof -
  from assms have "cores insts' k = cores insts k" by simp
  then show ?thesis by (cases "insts' k"; cases "insts k") (simp_all add: cores_def)
qed

lemma check_cells_cores:
  assumes "cores insts' = cores insts"
  shows "check_cells md insts' oy sw cps T = check_cells md insts oy sw cps T"
proof (induction cps arbitrary: T)
  case Nil
  show ?case by simp
next
  case (Cons cp cps)
  from cores_at [OF assms, of cp] show ?case
  proof
    assume "insts' cp = None \<and> insts cp = None"
    then show ?thesis using Cons.IH by simp
  next
    assume "\<exists>c' c. insts' cp = Some c' \<and> insts cp = Some c \<and> core c' = core c"
    then obtain c' c where c: "insts' cp = Some c'" "insts cp = Some c" "core c' = core c"
      by blast
    from core_fields [OF c(3)] have "position c' = position c" "get_width c' = get_width c"
      by simp_all
    then show ?thesis using c(1,2) Cons.IH by (simp add: Let_def)
  qed
qed

lemma check_clusters_cores:
  assumes "cores insts' = cores insts"
  shows "check_clusters md insts' oy sw cs T = check_clusters md insts oy sw cs T"
proof (induction cs arbitrary: T)
  case Nil
  show ?case by simp
next
  case (Cons c cs)
  obtain b T' where cc: "check_cells md insts oy sw (cellInCluster c) T = (b, T')"
    by (cases "check_cells md insts oy sw (cellInCluster c) T") auto
  show ?case using Cons.IH [of T'] by (cases b) (simp_all add: check_cells_cores [OF assms] cc)
qed

lemma placeRow_trial_cost_cores:
  assumes "cores insts' = cores insts" and "core inst' = core inst"
  shows "fst (placeRow md insts' row nm inst' sr False chk)
       = fst (placeRow md insts row nm inst sr False chk)"
proof -
  from core_fields [OF assms(2)]
  have f: "cell_template inst' = cell_template inst" "position inst' = position inst"
    "weight inst' = weight inst" by simp_all
  show ?thesis
  proof (cases "cell_template inst")
    case None
    then show ?thesis using f by (simp add: placeRow_def)
  next
    case (Some ct)
    show ?thesis
    proof (cases "clusters sr")
      case Nil
      then show ?thesis using f Some by (simp add: placeRow_def Let_def)
    next
      case (Cons lastC lefts)
      then show ?thesis using f Some
        by (simp add: placeRow_def Let_def check_clusters_cores [OF assms(1)] split: prod.splits)
    qed
  qed
qed

lemma findSubrowpos_core: "core inst' = core inst \<Longrightarrow> findSubrowpos inst' row = findSubrowpos inst row"
proof -
  assume "core inst' = core inst"
  from core_fields [OF this]
  have "cell_template inst' = cell_template inst" "position inst' = position inst" by simp_all
  then show ?thesis by (simp add: findSubrowpos_def split: option.splits)
qed

lemma trial_state_refl: "instances db0 nm = Some inst \<Longrightarrow> trial_state nm inst db0 db0"
proof -
  assume a: "instances db0 nm = Some inst"
  have "inst\<lparr>x_new := x_new inst, y_new := y_new inst\<rparr> = inst" by simp
  with a have "\<exists>xv yv. instances db0 nm = Some (inst\<lparr>x_new := xv, y_new := yv\<rparr>)" by metis
  then show ?thesis by (simp add: trial_state_def)
qed

lemma trial_state_cores:
  assumes "instances db0 nm = Some inst" and "trial_state nm inst db0 db'"
  shows "cores (instances db') = cores (instances db0)"
proof
  fix k
  from assms(2) obtain xv yv where n: "instances db' nm = Some (inst\<lparr>x_new := xv, y_new := yv\<rparr>)"
    and o: "\<forall>k. k \<noteq> nm \<longrightarrow> instances db' k = instances db0 k"
    by (auto simp: trial_state_def)
  show "cores (instances db') k = cores (instances db0) k"
  proof (cases "k = nm")
    case True
    then show ?thesis using n assms(1) by (simp add: cores_def core_def)
  next
    case False
    then show ?thesis using o by (simp add: cores_def)
  qed
qed

lemma try_row_fail:
  assumes i0: "instances db0 nm = Some inst"
    and ts: "trial_state nm inst db0 db'"
    and ri: "rowidx < length (placement_rows db0)"
    and na: "case trial_cost md db0 nm inst rowidx of None \<Rightarrow> True | Some c \<Rightarrow> \<not> c < DBL_MAX"
  shows "\<exists>db''. try_row md nm rowidx (db', DBL_MAX, - 1, - 1) = (db'', DBL_MAX, - 1, - 1)
           \<and> trial_state nm inst db0 db''"
proof -
  from ts obtain xv yv where n: "instances db' nm = Some (inst\<lparr>x_new := xv, y_new := yv\<rparr>)"
    and o: "\<forall>k. k \<noteq> nm \<longrightarrow> instances db' k = instances db0 k"
    and r: "placement_rows db' = placement_rows db0"
    and b: "placement_blockages db' = placement_blockages db0"
    by (auto simp: trial_state_def)
  define inst1 where "inst1 = inst\<lparr>x_new := xv, y_new := yv\<rparr>"
  have c1: "core inst1 = core inst" by (simp add: inst1_def core_def)
  note cs = trial_state_cores [OF i0 ts]
  define row where "row = placement_rows db0 ! rowidx"
  define si where "si = findSubrowpos inst row"
  have si1: "findSubrowpos inst1 row = si" unfolding si_def by (rule findSubrowpos_core [OF c1])
  show ?thesis
  proof (cases "si = - 1")
    case True
    then have "try_row md nm rowidx (db', DBL_MAX, - 1, - 1) = (db', DBL_MAX, - 1, - 1)"
      using n si1 by (simp add: try_row_def Let_def r row_def inst1_def)
    then show ?thesis using ts by blast
  next
    case False
    obtain cost inst' sr' where pr: "placeRow md (instances db') row nm inst1
        (subrows row ! nat si) False True = (cost, inst', sr')"
      by (cases "placeRow md (instances db') row nm inst1 (subrows row ! nat si) False True") auto
    have "cost = fst (placeRow md (instances db') row nm inst1 (subrows row ! nat si) False True)"
      by (simp add: pr)
    also have "\<dots> = fst (placeRow md (instances db0) row nm inst (subrows row ! nat si) False True)"
      by (rule placeRow_trial_cost_cores [OF cs c1])
    finally have ce: "cost = fst (placeRow md (instances db0) row nm inst
        (subrows row ! nat si) False True)" .
    have "trial_cost md db0 nm inst rowidx = Some cost"
      using False by (simp add: trial_cost_def Let_def row_def [symmetric] si_def [symmetric] ce)
    with na have nc: "\<not> cost < DBL_MAX" by simp
    have tr: "try_row md nm rowidx (db', DBL_MAX, - 1, - 1)
        = (put_instance nm inst' db', DBL_MAX, - 1, - 1)"
      using n si1 False pr nc
      by (simp add: try_row_def Let_def r row_def [symmetric] inst1_def [symmetric])
    have "inst' = inst1\<lparr>x_new := x_new inst', y_new := y_new inst'\<rparr>"
      by (rule placeRow_instance [OF pr])
    then have "inst' = inst\<lparr>x_new := x_new inst', y_new := y_new inst'\<rparr>"
      by (simp add: inst1_def)
    then have "\<exists>xv yv. inst' = inst\<lparr>x_new := xv, y_new := yv\<rparr>" by blast
    then have "trial_state nm inst db0 (put_instance nm inst' db')"
      using o r b by (auto simp: trial_state_def put_instance_def)
    with tr show ?thesis by blast
  qed
qed

lemma search_rows_fail:
  assumes i0: "instances db0 nm = Some inst"
    and oi: "0 \<le> oi" "oi < int (length (placement_rows db0))"
    and na: "\<forall>rowidx\<in>{..<length (placement_rows db0)}.
        case trial_cost md db0 nm inst rowidx of None \<Rightarrow> True | Some c \<Rightarrow> \<not> c < DBL_MAX"
  shows "trial_state nm inst db0 db' \<Longrightarrow>
     \<exists>db''. search_rows md nm py oi is (db', DBL_MAX, - 1, - 1) = (db'', DBL_MAX, - 1, - 1)
         \<and> trial_state nm inst db0 db''"
proof (induction "is" arbitrary: db')
  case Nil
  then show ?case by simp
next
  case (Cons i "is")
  have r: "placement_rows db' = placement_rows db0" using Cons.prems by (simp add: trial_state_def)
  define up where "up = (if oi + int i \<ge> int (length (placement_rows db')) then False
                else \<bar>fl (py - row_y db' (oi + int i))\<bar> < DBL_MAX)"
  define down where "down = (if oi - int i < 0 then False
                  else \<bar>fl (py - row_y db' (oi - int i))\<bar> < DBL_MAX)"
  define st1 where "st1 = (if up then try_row md nm (nat (oi + int i)) (db', DBL_MAX, - 1, - 1)
      else (db', DBL_MAX, - 1, - 1))"
  define st2 where "st2 = (if down then try_row md nm (nat (oi - int i)) st1 else st1)"
  have eq: "search_rows md nm py oi (i # is) (db', DBL_MAX, - 1, - 1) =
      (if \<not> up \<and> \<not> down then (db', DBL_MAX, - 1, - 1) else search_rows md nm py oi is st2)"
    by (simp add: Let_def up_def down_def st1_def st2_def)
  have i1: "up \<Longrightarrow> nat (oi + int i) < length (placement_rows db0)"
    using oi r by (auto simp: up_def split: if_splits)
  have i2: "down \<Longrightarrow> nat (oi - int i) < length (placement_rows db0)"
    using oi by (auto simp: down_def split: if_splits)
  have "\<exists>db1. st1 = (db1, DBL_MAX, - 1, - 1) \<and> trial_state nm inst db0 db1"
  proof (cases up)
    case True
    then show ?thesis
      using try_row_fail [OF i0 Cons.prems i1, of md] na i1 by (simp add: st1_def)
  next
    case False
    then show ?thesis using Cons.prems by (simp add: st1_def)
  qed
  then obtain db1 where s1: "st1 = (db1, DBL_MAX, - 1, - 1)" and t1: "trial_state nm inst db0 db1"
    by blast
  have "\<exists>db2. st2 = (db2, DBL_MAX, - 1, - 1) \<and> trial_state nm inst db0 db2"
  proof (cases down)
    case True
    then show ?thesis
      using try_row_fail [OF i0 t1 i2, of md] na i2 by (simp add: st2_def s1)
  next
    case False
    then show ?thesis using s1 t1 by (simp add: st2_def)
  qed
  then obtain db2 where s2: "st2 = (db2, DBL_MAX, - 1, - 1)" and t2: "trial_state nm inst db0 db2"
    by blast
  show ?case
  proof (cases "\<not> up \<and> \<not> down")
    case True
    then show ?thesis unfolding eq using Cons.prems by simp
  next
    case False
    then have "search_rows md nm py oi (i # is) (db', DBL_MAX, - 1, - 1)
        = search_rows md nm py oi is (db2, DBL_MAX, - 1, - 1)"
      unfolding eq s2 by auto
    then show ?thesis using Cons.IH [OF t2] by simp
  qed
qed

text \<open>
  C9.  In a design with at least one placement row, when no (row, sub-row) pair accepts a
  flip-flop instance (on every row no sub-row fits it or the trial's cost is not below
  \<open>max()\<close>), the loop body of \<open>Abacus\<close> leaves the instance with \<open>x_new\<close>, \<open>y_new\<close> set to its
  \<open>position\<close> and every other field, \<open>placement_status\<close> among them, as it was; no other
  instance and no row changes; the warning line is written; and the loop goes on with the
  remaining instances.
\<close>

theorem Abacus_instance_no_row_accepts:
  assumes i0: "instances (lg_db lg) nm = Some inst"
    and rows: "placement_rows (lg_db lg) \<noteq> []"
    and na: "no_row_accepts lg nm inst"
  shows "instances (lg_db (Abacus_instance nm lg)) nm
           = Some (inst\<lparr>x_new := x (position inst), y_new := y (position inst)\<rparr>)
       \<and> placement_status (inst\<lparr>x_new := x (position inst), y_new := y (position inst)\<rparr>)
           = placement_status inst
       \<and> (\<forall>k. k \<noteq> nm \<longrightarrow> instances (lg_db (Abacus_instance nm lg)) k = instances (lg_db lg) k)
       \<and> placement_rows (lg_db (Abacus_instance nm lg)) = placement_rows (lg_db lg)
       \<and> warnings (Abacus_instance nm lg)
           = warnings lg @ [''  Warning: Could not place instance '' @ nm]
       \<and> fold Abacus_instance (nm # rest) lg = fold Abacus_instance rest (Abacus_instance nm lg)"
proof -
  define oi where "oi = findBestRow (lg_db lg) inst"
  have ne: "oi \<noteq> - 1" using rows findBestRow_empty [of "lg_db lg" inst] by (simp add: oi_def)
  from findBestRow_res [of "lg_db lg" inst] ne
  have o: "0 \<le> oi" "oi < int (length (placement_rows (lg_db lg)))" by (simp_all add: oi_def)
  from na have na': "\<forall>rowidx\<in>{..<length (placement_rows (lg_db lg))}.
      case trial_cost (lg_max_disp lg) (lg_db lg) nm inst rowidx of None \<Rightarrow> True
      | Some c \<Rightarrow> \<not> c < DBL_MAX"
    by (simp add: no_row_accepts_def)
  from search_rows_fail [OF i0 o na' trial_state_refl [OF i0],
      of "y (position inst)" "[0 ..< length (placement_rows (lg_db lg))]"]
  obtain db1 where s: "search_rows (lg_max_disp lg) nm (y (position inst)) oi
        [0 ..< length (placement_rows (lg_db lg))] (lg_db lg, DBL_MAX, - 1, - 1)
        = (db1, DBL_MAX, - 1, - 1)"
    and t: "trial_state nm inst (lg_db lg) db1" by blast
  from t obtain xv yv where n: "instances db1 nm = Some (inst\<lparr>x_new := xv, y_new := yv\<rparr>)"
    and ot: "\<forall>k. k \<noteq> nm \<longrightarrow> instances db1 k = instances (lg_db lg) k"
    and r: "placement_rows db1 = placement_rows (lg_db lg)"
    by (auto simp: trial_state_def)
  have a: "Abacus_instance nm lg =
      add_warning (''  Warning: Could not place instance '' @ nm)
        (lg_db_update (\<lambda>_. put_instance nm
           (set_new_to_position (inst\<lparr>x_new := xv, y_new := yv\<rparr>)) db1) lg)"
    using i0 ne s n by (simp add: Abacus_instance_def Let_def oi_def [symmetric] commit_instance_def)
  have sp: "set_new_to_position (inst\<lparr>x_new := xv, y_new := yv\<rparr>)
      = inst\<lparr>x_new := x (position inst), y_new := y (position inst)\<rparr>"
    by (simp add: set_new_to_position_def)
  have c1: "instances (lg_db (Abacus_instance nm lg)) nm
           = Some (inst\<lparr>x_new := x (position inst), y_new := y (position inst)\<rparr>)"
    unfolding a sp by (simp add: put_instance_def add_warning_def)
  have c2: "\<forall>k. k \<noteq> nm \<longrightarrow> instances (lg_db (Abacus_instance nm lg)) k = instances (lg_db lg) k"
    unfolding a sp using ot by (simp add: put_instance_def add_warning_def)
  have c3: "placement_rows (lg_db (Abacus_instance nm lg)) = placement_rows (lg_db lg)"
    unfolding a sp using r by (simp add: put_instance_def add_warning_def)
  have c4: "warnings (Abacus_instance nm lg)
           = warnings lg @ [''  Warning: Could not place instance '' @ nm]"
    unfolding a sp by (simp add: put_instance_def add_warning_def)
  have c5: "fold Abacus_instance (nm # rest) lg = fold Abacus_instance rest (Abacus_instance nm lg)"
    by simp
  have c6: "placement_status (inst\<lparr>x_new := x (position inst), y_new := y (position inst)\<rparr>)
           = placement_status inst" by simp
  from c1 c6 c2 c3 c4 c5 show ?thesis by blast
qed

lemma ex_narrow_ctor:
  "Legalizer_ctor DBL_MAX ex_db_narrow =
     \<lparr>lg_max_disp = DBL_MAX,
      lg_db = ex_db_narrow\<lparr>placement_rows :=
        [ex_row\<lparr>num_x := 1, site_width := 200,
                subrows := [\<lparr>x_min = 0, x_max = 200, Usewidth = 200, clusters = []\<rparr>]\<rparr>]\<rparr>,
      warnings = []\<rparr>"
  by (simp add: Legalizer_ctor_def ex_db_narrow_def init_row_def ex_row_def SubRow_ctor_def
      enumerate_eq_zip upt_conv_Cons)

lemma ex_narrow_no_row_accepts:
  "no_row_accepts (Legalizer_ctor DBL_MAX ex_db_narrow) ''u'' (ex_ff ''u'' 3000)"
  unfolding ex_narrow_ctor
  by (simp add: no_row_accepts_def trial_cost_def findSubrowpos_def ex_db_narrow_def ex_row_def
      lessThan_Suc)

theorem Abacus_instance_no_row_accepts_witness:
  "instances (lg_db (Legalizer_ctor DBL_MAX ex_db_narrow)) ''u'' = Some (ex_ff ''u'' 3000)
   \<and> placement_rows (lg_db (Legalizer_ctor DBL_MAX ex_db_narrow)) \<noteq> []
   \<and> no_row_accepts (Legalizer_ctor DBL_MAX ex_db_narrow) ''u'' (ex_ff ''u'' 3000)
   \<and> instances (lg_db (Abacus_instance ''u'' (Legalizer_ctor DBL_MAX ex_db_narrow))) ''u''
       = Some ((ex_ff ''u'' 3000)\<lparr>x_new := 3000, y_new := 0\<rparr>)
   \<and> placement_status ((ex_ff ''u'' 3000)\<lparr>x_new := 3000, y_new := 0\<rparr>) = UNPLACED
   \<and> warnings (Abacus_instance ''u'' (Legalizer_ctor DBL_MAX ex_db_narrow))
       = [''  Warning: Could not place instance u'']"
proof -
  have h1: "instances (lg_db (Legalizer_ctor DBL_MAX ex_db_narrow)) ''u'' = Some (ex_ff ''u'' 3000)"
    unfolding ex_narrow_ctor by (simp add: ex_db_narrow_def)
  have h2: "placement_rows (lg_db (Legalizer_ctor DBL_MAX ex_db_narrow)) \<noteq> []"
    by (simp add: ex_narrow_ctor)
  have w: "warnings (Legalizer_ctor DBL_MAX ex_db_narrow) = []" by (simp add: ex_narrow_ctor)
  have s: "placement_status (ex_ff ''u'' 3000) = UNPLACED" by (simp add: ex_ff_def ex_inst_def)
  show ?thesis
    using Abacus_instance_no_row_accepts [OF h1 h2 ex_narrow_no_row_accepts, of "[]"] h1 h2
      ex_narrow_no_row_accepts
    by (simp add: w s)
qed

lemma ex_norows_ctor:
  "Legalizer_ctor DBL_MAX ex_db_norows
     = \<lparr>lg_max_disp = DBL_MAX, lg_db = ex_db_norows, warnings = []\<rparr>"
  by (simp add: Legalizer_ctor_def ex_db_norows_def)

theorem Abacus_instance_no_rows_counterexample:
  "instances (lg_db (Legalizer_ctor DBL_MAX ex_db_norows)) ''u'' = Some (ex_ff ''u'' 3000)
   \<and> no_row_accepts (Legalizer_ctor DBL_MAX ex_db_norows) ''u'' (ex_ff ''u'' 3000)
   \<and> instances (lg_db (Abacus_instance ''u'' (Legalizer_ctor DBL_MAX ex_db_norows))) ''u''
       = Some (ex_ff ''u'' 3000)
   \<and> instances (lg_db (legalize [''u''] ex_db_norows)) ''u'' = Some (ex_ff ''u'' 3000)
   \<and> x_new (ex_ff ''u'' 3000) = 0 \<and> x (position (ex_ff ''u'' 3000)) = 3000
   \<and> warnings (Abacus_instance ''u'' (Legalizer_ctor DBL_MAX ex_db_norows))
       = [''WARN: instance u cannot fit any [row]; skipping.'']"
  unfolding ex_norows_ctor legalize_def
  by (simp add: no_row_accepts_def Abacus_instance_def findBestRow_def ex_db_norows_def
      add_warning_def ex_ff_def ex_inst_def place_def Abacus_def classify_instances_def
      is_flip_flop_def ct_is_flip_flop_def ex_ff_cell_def buildSubRows_def position_x_of_def)

subsection \<open>Stage snapshots\<close>

lemma CompletePipeline_ctor_eq:
  "CompletePipeline_ctor =
     \<lparr>stages = [StagePipeline_ctor ''ORIGINAL'', StagePipeline_ctor ''DEBANK'',
                StagePipeline_ctor ''SUBSTITUTION'', StagePipeline_ctor ''BANK'',
                StagePipeline_ctor ''POST_BANKING'', StagePipeline_ctor ''LEGALIZE''],
      stage_index_map = [''ORIGINAL'' \<mapsto> 0, ''DEBANK'' \<mapsto> 1, ''SUBSTITUTION'' \<mapsto> 2,
                         ''BANK'' \<mapsto> 3, ''POST_BANKING'' \<mapsto> 4, ''LEGALIZE'' \<mapsto> 5]\<rparr>"
  by (simp add: CompletePipeline_ctor_def add_stage_def numeral_2_eq_2 numeral_3_eq_3 eval_nat_numeral)

lemma main_complete_pipeline_eq:
  "main_complete_pipeline all_instances history debank substitution bank post_banking =
     \<lparr>stages = [captured ''ORIGINAL'' (all_instances, [], history), captured ''DEBANK'' debank,
                captured ''SUBSTITUTION'' substitution, captured ''BANK'' bank,
                captured ''POST_BANKING'' post_banking, StagePipeline_ctor ''LEGALIZE''],
      stage_index_map = [''ORIGINAL'' \<mapsto> 0, ''DEBANK'' \<mapsto> 1, ''SUBSTITUTION'' \<mapsto> 2,
                         ''BANK'' \<mapsto> 3, ''POST_BANKING'' \<mapsto> 4, ''LEGALIZE'' \<mapsto> 5]\<rparr>"
  unfolding main_complete_pipeline_def CompletePipeline_ctor_eq
  by (simp add: run_capture_calls_def main_capture_calls_def capture_stage_def captured_def
      StagePipeline_ctor_def Let_def)



subsection \<open>Strategic debanking\<close>

lemma debank_step_eq:
  "debank_step db k (ni, tr, h) =
     (if debankable_key db k
      then (ni @ fragments_of db k, tr @ [k], snd (snd (debank_step db k (ni, tr, h))))
      else (ni, tr, h))"
  by (simp add: debank_step_def debankable_key_def debankable_def fragments_of_def Let_def
      split: option.splits)

lemma debank_fold:
  "\<exists>h'. fold (debank_step db) keys (ni, tr, h) =
     (ni @ concat (map (fragments_of db) (filter (debankable_key db) keys)),
      tr @ filter (debankable_key db) keys, h')"
proof (induction keys arbitrary: ni tr h)
  case Nil
  show ?case by simp
next
  case (Cons k keys)
  show ?case
  proof (cases "debankable_key db k")
    case True
    define h1 where "h1 = snd (snd (debank_step db k (ni, tr, h)))"
    have s: "debank_step db k (ni, tr, h) = (ni @ fragments_of db k, tr @ [k], h1)"
      using True debank_step_eq [of db k ni tr h] by (simp add: h1_def)
    from Cons.IH [of "ni @ fragments_of db k" "tr @ [k]" h1] show ?thesis
      using True by (simp add: s)
  next
    case False
    then have s: "debank_step db k (ni, tr, h) = (ni, tr, h)"
      using debank_step_eq [of db k ni tr h] by simp
    from Cons.IH [of ni tr h] show ?thesis using False by (simp add: s)
  qed
qed

lemma fold_erase: "fold (\<lambda>k m. m(k := None)) ks m = (\<lambda>k. if k \<in> set ks then None else m k)"
  by (induction ks arbitrary: m) (auto simp: fun_eq_iff)

lemma fold_insert_cases:
  "fold (\<lambda>i m. m(name i \<mapsto> i)) fs m k = Some i \<Longrightarrow> (i \<in> set fs \<and> name i = k) \<or> m k = Some i"
proof (induction fs arbitrary: m)
  case Nil
  then show ?case by simp
next
  case (Cons f fs)
  have "fold (\<lambda>i m. m(name i \<mapsto> i)) fs (m(name f \<mapsto> f)) k = Some i"
    using Cons.prems unfolding fold_simps comp_apply .
  from Cons.IH [OF this] show ?case
    by (auto split: if_splits)
qed

lemma perform_strategic_debanking_instances:
  "instances (perform_strategic_debanking keys keys_after db) =
     fold (\<lambda>i m. m(name i \<mapsto> i)) (concat (map (fragments_of db) (filter (debankable_key db) keys)))
       (\<lambda>k. if k \<in> set (filter (debankable_key db) keys) then None else instances db k)"
proof -
  from debank_fold [of db keys "[]" "[]" "transformation_history db"]
  obtain h' where f: "fold (debank_step db) keys ([], [], transformation_history db) =
     (concat (map (fragments_of db) (filter (debankable_key db) keys)),
      filter (debankable_key db) keys, h')" by auto
  show ?thesis by (simp add: perform_strategic_debanking_def f Let_def fold_erase)
qed

lemma debank_fragment_sel [simp]:
  "cell_template (debank_fragment inst nm p b) = Some p"
  "cluster_id (debank_fragment inst nm p b) = name inst"
  "name (debank_fragment inst nm p b) = name inst @ ''_BIT'' @ string_of_nat b"
  by (simp_all add: debank_fragment_def map_multibit_to_singlebit_connections_def)

lemma fragments_of_props:
  assumes "f \<in> set (fragments_of db k)"
  shows "\<exists>inst ct p bit_index. instances db k = Some inst \<and> cell_template inst = Some ct
           \<and> cell_library db (single_bit_degenerate ct) = Some p
           \<and> bit_index < nat (bit_width ct)
           \<and> f = debank_fragment inst (single_bit_degenerate ct) p bit_index"
proof (cases "instances db k")
  case None
  then show ?thesis using assms by (simp add: fragments_of_def)
next
  case (Some inst)
  show ?thesis
  proof (cases "cell_template inst")
    case None
    then show ?thesis using assms Some by (simp add: fragments_of_def)
  next
    case ct: (Some ct)
    show ?thesis
    proof (cases "cell_library db (single_bit_degenerate ct)")
      case None
      then show ?thesis using assms Some ct by (simp add: fragments_of_def)
    next
      case p: (Some p)
      from assms Some ct p obtain b where "b < nat (bit_width ct)"
          "f = debank_fragment inst (single_bit_degenerate ct) p b"
        by (auto simp: fragments_of_def)
      then show ?thesis using Some ct p by blast
    qed
  qed
qed

text \<open>
  What the instance table holds after debanking: an entry is an instance that was there
  before and is not one the loop replaces, or a single-bit instance made by the loop.
\<close>

lemma perform_strategic_debanking_entry:
  assumes cover: "dom (instances db) \<subseteq> set keys"
    and e: "instances (perform_strategic_debanking keys keys_after db) k = Some i"
  shows "(instances db k = Some i \<and> \<not> debankable db i)
       \<or> (\<exists>k0 inst ct p bit_index. debankable_key db k0 \<and> instances db k0 = Some inst
             \<and> cell_template inst = Some ct
             \<and> cell_library db (single_bit_degenerate ct) = Some p
             \<and> bit_index < nat (bit_width ct)
             \<and> i = debank_fragment inst (single_bit_degenerate ct) p bit_index
             \<and> cell_template i = Some p \<and> k = name inst @ ''_BIT'' @ string_of_nat bit_index)"
proof -
  let ?fs = "concat (map (fragments_of db) (filter (debankable_key db) keys))"
  let ?m = "\<lambda>k. if k \<in> set (filter (debankable_key db) keys) then None else instances db k"
  from e have "fold (\<lambda>i m. m(name i \<mapsto> i)) ?fs ?m k = Some i"
    by (simp add: perform_strategic_debanking_instances)
  from fold_insert_cases [OF this] show ?thesis
  proof
    assume a: "i \<in> set ?fs \<and> name i = k"
    then obtain k0 where k0: "k0 \<in> set keys" "debankable_key db k0" "i \<in> set (fragments_of db k0)"
      by auto
    from fragments_of_props [OF k0(3)]
    obtain inst ct p b where "instances db k0 = Some inst" "cell_template inst = Some ct"
        "cell_library db (single_bit_degenerate ct) = Some p" "b < nat (bit_width ct)"
        "i = debank_fragment inst (single_bit_degenerate ct) p b" by blast
    moreover from this a have "cell_template i = Some p"
        "k = name inst @ ''_BIT'' @ string_of_nat b" by auto
    ultimately show ?thesis using k0(2) by blast
  next
    assume a: "?m k = Some i"
    then have i: "instances db k = Some i" and n: "\<not> (k \<in> set keys \<and> debankable_key db k)"
      by (auto split: if_splits)
    from i cover have "k \<in> set keys" by auto
    with n have "\<not> debankable_key db k" by simp
    with i have "\<not> debankable db i" by (simp add: debankable_key_def)
    with i show ?thesis by simp
  qed
qed



lemma string_of_nat_digit [simp]:
  "string_of_nat 0 = ''0''" "string_of_nat 1 = ''1''" "string_of_nat (Suc 0) = ''1''"
  by (simp_all add: string_of_nat.simps)

lemma ex_debank_ok_result:
  "instances (perform_strategic_debanking [''t''] [''t_BIT0'', ''t_BIT1''] ex_debank_ok_db)
     = [''t_BIT0'' \<mapsto> debank_fragment ((ex_inst ''t'' 0 0)\<lparr>cell_template := Some (ex_cell ''FF2'' 2 ''FF1'')\<rparr>)
                         ''FF1'' (ex_cell ''FF1'' 1 ''null'') 0,
        ''t_BIT1'' \<mapsto> debank_fragment ((ex_inst ''t'' 0 0)\<lparr>cell_template := Some (ex_cell ''FF2'' 2 ''FF1'')\<rparr>)
                         ''FF1'' (ex_cell ''FF1'' 1 ''null'') 1]"
  by (simp add: perform_strategic_debanking_def debank_step_def ex_debank_ok_db_def Let_def
      upt_conv_Cons ex_inst_def fun_eq_iff)



end
